(* ===== verification/Prelude.thy ===== *)
theory Prelude
  imports Main "HOL-Library.Word"
begin

text \<open>
  Shared vocabulary of the development: the result type of fallible Rust functions, the
  arithmetic of \<^verbatim>\<open>u64\<close>, and the parts of Rust's slice library that the
  sources call on sorted vectors (binary search, insertion at a position).

  A \<^verbatim>\<open>u64\<close> that is only compared, incremented and used as an index (a Raft term, a
  log index, a node id, a tick counter) is a natural number here; the width is written out where
  the source does arithmetic on it: \<open>u64_add\<close> is the unchecked \<^verbatim>\<open>+\<close> of the release
  profile (it wraps), \<open>sat_add\<close> is \<^verbatim>\<open>saturating_add\<close>, and \<^verbatim>\<open>saturating_sub\<close> is the
  truncating subtraction of \<open>nat\<close>. Values whose bits matter are words.
\<close>

named_theorems u64_simps \<open>64-bit arithmetic that stays in range\<close>

subsection \<open>Results\<close>

datatype ('a, 'e) result = Ok (ok_val: 'a) | Err (err_val: 'e)

fun is_ok :: "('a, 'e) result \<Rightarrow> bool" where
  "is_ok (Ok _) = True"
| "is_ok (Err _) = False"

lemma is_ok_iff: "is_ok r \<longleftrightarrow> (\<exists>x. r = Ok x)"
  by (cases r) auto

text \<open>\<^verbatim>\<open>Result::is_ok_and\<close>.\<close>

fun is_ok_and :: "('a \<Rightarrow> bool) \<Rightarrow> ('a, 'e) result \<Rightarrow> bool" where
  "is_ok_and p (Ok x) = p x"
| "is_ok_and p (Err _) = False"

lemma is_ok_and_iff: "is_ok_and p r \<longleftrightarrow> (\<exists>x. r = Ok x \<and> p x)"
  by (cases r) auto

text \<open>\<^verbatim>\<open>Result::unwrap_or\<close>.\<close>

fun unwrap_or :: "'a \<Rightarrow> ('a, 'e) result \<Rightarrow> 'a" where
  "unwrap_or d (Ok x) = x"
| "unwrap_or d (Err _) = d"

text \<open>\<^verbatim>\<open>?\<close> in a function without state.\<close>

definition ok_then :: "('a, 'e) result \<Rightarrow> ('a \<Rightarrow> ('b, 'e) result) \<Rightarrow> ('b, 'e) result" where
  "ok_then r k = (case r of Ok a \<Rightarrow> k a | Err e \<Rightarrow> Err e)"

lemma ok_then_simps [simp]: "ok_then (Ok a) k = k a" "ok_then (Err e) k = Err e"
  by (simp_all add: ok_then_def)

lemma ok_then_Ok: "ok_then r k = Ok b \<longleftrightarrow> (\<exists>a. r = Ok a \<and> k a = Ok b)"
  by (cases r) auto

text \<open>A mutating method that can fail returns its new state beside its result. The \<^verbatim>\<open>?\<close> operator
  on such a call is \<open>and_then\<close>, on a call that only reads it is \<open>try_read\<close>, and a \<^verbatim>\<open>for\<close> loop
  whose body may leave the function through \<^verbatim>\<open>?\<close> is \<open>try_for\<close>.\<close>

definition and_then ::
  "'s \<times> ('a, 'e) result \<Rightarrow> ('s \<Rightarrow> 'a \<Rightarrow> 's \<times> ('b, 'e) result) \<Rightarrow> 's \<times> ('b, 'e) result" where
  "and_then x k = (case snd x of Ok a \<Rightarrow> k (fst x) a | Err e \<Rightarrow> (fst x, Err e))"

definition try_read :: "'s \<Rightarrow> ('a, 'e) result \<Rightarrow> ('a \<Rightarrow> 's \<times> ('b, 'e) result) \<Rightarrow> 's \<times> ('b, 'e) result" where
  "try_read s r k = (case r of Ok a \<Rightarrow> k a | Err e \<Rightarrow> (s, Err e))"

primrec try_for ::
  "('s \<Rightarrow> 'a \<Rightarrow> 's \<times> (unit, 'e) result) \<Rightarrow> 'a list \<Rightarrow> 's \<Rightarrow> 's \<times> (unit, 'e) result" where
  "try_for f [] s = (s, Ok ())"
| "try_for f (x # xs) s = and_then (f s x) (\<lambda>s _. try_for f xs s)"

lemma and_then_simps [simp]:
  "and_then (s, Ok a) k = k s a" "and_then (s, Err e) k = (s, Err e)"
  by (simp_all add: and_then_def)

lemma try_read_simps [simp]: "try_read s (Ok a) k = k a" "try_read s (Err e) k = (s, Err e)"
  by (simp_all add: try_read_def)

text \<open>A relation between the state before and after that every step keeps is kept by the whole.\<close>

lemma and_then_rel:
  assumes "P s (fst x)" "\<And>s' a. P s s' \<Longrightarrow> snd x = Ok a \<Longrightarrow> fst x = s' \<Longrightarrow> P s (fst (k s' a))"
  shows "P s (fst (and_then x k))"
  using assms by (auto simp: and_then_def split: result.splits)

lemma try_read_rel:
  assumes "P s s" "\<And>a. r = Ok a \<Longrightarrow> P s (fst (k a))"
  shows "P s (fst (try_read s r k))"
  using assms by (auto simp: try_read_def split: result.splits)

lemma try_for_rel:
  assumes "P s" "\<And>s x. P s \<Longrightarrow> x \<in> set xs \<Longrightarrow> P (fst (f s x))"
  shows "P (fst (try_for f xs s))"
  using assms
proof (induction xs arbitrary: s)
  case (Cons x xs)
  have "P (fst (f s x))" using Cons.prems by simp
  with Cons show ?case by (auto simp: and_then_def split: result.splits)
qed simp

subsection \<open>64-bit arithmetic on naturals\<close>

type_synonym u64 = nat
type_synonym byte = "8 word"
type_synonym bytes = "byte list"

definition u64_max :: u64 where
  "u64_max = 18446744073709551615"

definition u64_add :: "u64 \<Rightarrow> u64 \<Rightarrow> u64" where
  "u64_add a b = (a + b) mod (u64_max + 1)"

text \<open>The unchecked \<^verbatim>\<open>-\<close>, where the source does not guard it.\<close>

definition u64_sub :: "u64 \<Rightarrow> u64 \<Rightarrow> u64" where
  "u64_sub a b = (if b \<le> a then a - b else u64_max + 1 + a - b)"

lemma u64_sub_eq [u64_simps]: "b \<le> a \<Longrightarrow> u64_sub a b = a - b"
  by (simp add: u64_sub_def)

definition sat_add :: "u64 \<Rightarrow> u64 \<Rightarrow> u64" where
  "sat_add a b = min (a + b) u64_max"

definition sat_mul :: "u64 \<Rightarrow> u64 \<Rightarrow> u64" where
  "sat_mul a b = min (a * b) u64_max"

definition checked_add :: "u64 \<Rightarrow> u64 \<Rightarrow> u64 option" where
  "checked_add a b = (if a + b \<le> u64_max then Some (a + b) else None)"

lemma u64_add_eq [u64_simps]: "a + b \<le> u64_max \<Longrightarrow> u64_add a b = a + b"
  by (simp add: u64_add_def)

lemma sat_add_eq [u64_simps]: "a + b \<le> u64_max \<Longrightarrow> sat_add a b = a + b"
  by (simp add: sat_add_def)

lemma u64_add_1 [u64_simps]: "a < u64_max \<Longrightarrow> u64_add a 1 = Suc a"
  by (simp add: u64_add_def)

lemma u64_add_Suc0 [u64_simps]: "a < u64_max \<Longrightarrow> u64_add a (Suc 0) = Suc a"
  by (simp add: u64_add_def)

lemma sat_add_1 [u64_simps]: "a < u64_max \<Longrightarrow> sat_add a 1 = Suc a"
  by (simp add: sat_add_def)

lemma sat_add_Suc0 [u64_simps]: "a < u64_max \<Longrightarrow> sat_add a (Suc 0) = Suc a"
  by (simp add: sat_add_def)

lemma u64_add_le_max: "u64_add a b \<le> u64_max"
proof -
  have "(a + b) mod (u64_max + 1) < u64_max + 1" by simp
  then show ?thesis by (simp add: u64_add_def)
qed

lemma sat_add_le_max: "sat_add a b \<le> u64_max"
  by (simp add: sat_add_def)

lemma le_sat_add: "a \<le> u64_max \<Longrightarrow> a \<le> sat_add a b"
  by (simp add: sat_add_def)

lemma less_sat_add_1: "a < u64_max \<Longrightarrow> a < sat_add a 1"
  by (simp add: sat_add_def)

lemma sat_add_mono: "a \<le> b \<Longrightarrow> sat_add a c \<le> sat_add b c"
  by (simp add: sat_add_def)

subsection \<open>Fixed-width integers as bytes\<close>

text \<open>
  \<^verbatim>\<open>to_le_bytes\<close> and \<^verbatim>\<open>from_le_bytes\<close> for any width of \<open>k\<close> bytes.
\<close>

primrec le_bytes :: "nat \<Rightarrow> nat \<Rightarrow> bytes" where
  "le_bytes 0 n = []"
| "le_bytes (Suc k) n = word_of_nat (n mod 256) # le_bytes k (n div 256)"

primrec of_le_bytes :: "bytes \<Rightarrow> nat" where
  "of_le_bytes [] = 0"
| "of_le_bytes (b # bs) = unat b + 256 * of_le_bytes bs"

lemma length_le_bytes [simp]: "length (le_bytes k n) = k"
  by (induction k arbitrary: n) auto

lemma of_le_bytes_le_bytes: "of_le_bytes (le_bytes k n) = n mod 256 ^ k"
proof (induction k arbitrary: n)
  case (Suc k)
  have "unat (word_of_nat (n mod 256) :: byte) = n mod 256"
    by (simp add: unat_of_nat)
  with Suc show ?case by (simp add: mod_mult2_eq add.commute)
qed simp

lemma of_le_bytes_u64 [simp]: "n \<le> u64_max \<Longrightarrow> of_le_bytes (le_bytes 8 n) = n"
  by (simp add: of_le_bytes_le_bytes u64_max_def)

lemma of_le_bytes_bound: "of_le_bytes bs < 256 ^ length bs"
proof (induction bs)
  case (Cons b bs)
  have "unat b < 256" using unsigned_less [of b] by simp
  with Cons show ?case by simp
qed simp

lemma le_bytes_of_le_bytes: "le_bytes (length bs) (of_le_bytes bs) = bs"
proof (induction bs)
  case (Cons b bs)
  have "unat b < 256" using unsigned_less [of b] by simp
  with Cons show ?case by simp
qed simp

subsection \<open>Binary search, as the slice library does it\<close>

text \<open>
  \<^verbatim>\<open>slice::binary_search_by\<close>: \<open>Ok i\<close> is a position of an equal element and \<open>Err i\<close> the
  position where one could be inserted. The loop halves a window and keeps its start.
\<close>

datatype ordering = Less | Equal | Greater

definition cmp :: "'a::linorder \<Rightarrow> 'a \<Rightarrow> ordering" where
  "cmp x y = (if x < y then Less else if x = y then Equal else Greater)"

lemma cmp_iff:
  "cmp a b = Greater \<longleftrightarrow> b < a" "cmp a b = Less \<longleftrightarrow> a < b" "cmp a b = Equal \<longleftrightarrow> a = b"
  by (auto simp: cmp_def)

function bs_loop :: "(nat \<Rightarrow> ordering) \<Rightarrow> nat \<Rightarrow> nat \<Rightarrow> nat" where
  "bs_loop f base sz =
     (if 1 < sz
      then bs_loop f (if f (base + sz div 2) = Greater then base else base + sz div 2)
             (sz - sz div 2)
      else base)"
  by pat_completeness auto
termination
  by (relation "measure (\<lambda>(f, base, sz). sz)") auto

declare bs_loop.simps [simp del]

definition binary_search_by :: "('a \<Rightarrow> ordering) \<Rightarrow> 'a list \<Rightarrow> (nat, nat) result" where
  "binary_search_by f xs =
     (if xs = [] then Err 0
      else let base = bs_loop (\<lambda>i. f (xs ! i)) 0 (length xs) in
        case f (xs ! base) of
          Equal \<Rightarrow> Ok base
        | Less \<Rightarrow> Err (Suc base)
        | Greater \<Rightarrow> Err base)"

definition binary_search_by_key :: "'k::linorder \<Rightarrow> ('a \<Rightarrow> 'k) \<Rightarrow> 'a list \<Rightarrow> (nat, nat) result" where
  "binary_search_by_key k key xs = binary_search_by (\<lambda>y. cmp (key y) k) xs"

definition binary_search :: "'a::linorder \<Rightarrow> 'a list \<Rightarrow> (nat, nat) result" where
  "binary_search x xs = binary_search_by (\<lambda>y. cmp y x) xs"

text \<open>\<^verbatim>\<open>slice::partition_point\<close>, which the library implements over the same search.\<close>

definition partition_point :: "('a \<Rightarrow> bool) \<Rightarrow> 'a list \<Rightarrow> nat" where
  "partition_point p xs =
     (case binary_search_by (\<lambda>x. if p x then Less else Greater) xs of Ok i \<Rightarrow> i | Err i \<Rightarrow> i)"

text \<open>\<^verbatim>\<open>Vec::insert\<close>, used only at positions a search returned.\<close>

definition insert_at :: "nat \<Rightarrow> 'a \<Rightarrow> 'a list \<Rightarrow> 'a list" where
  "insert_at i x xs = take i xs @ x # drop i xs"

text \<open>\<^verbatim>\<open>Vec::remove\<close>, likewise.\<close>

definition remove_at :: "nat \<Rightarrow> 'a list \<Rightarrow> 'a list" where
  "remove_at i xs = take i xs @ drop (Suc i) xs"

lemma set_insert_at [simp]: "set (insert_at i x xs) = insert x (set xs)"
  by (metis insert_at_def append_take_drop_id list.simps(15) set_append Un_insert_right)

text \<open>The search is right on every sequence whose comparisons are \<open>Less \<dots> Equal \<dots> Greater\<close>.\<close>

lemma bs_loop_inv:
  assumes mono: "\<And>i j. i \<le> j \<Longrightarrow> j < n \<Longrightarrow> f i = Greater \<Longrightarrow> f j = Greater"
    and "base + sz \<le> n" and "0 < sz"
    and "\<And>i. base + sz \<le> i \<Longrightarrow> i < n \<Longrightarrow> f i = Greater"
    and "base = 0 \<or> f base \<noteq> Greater"
  shows "bs_loop f base sz < n
    \<and> (\<forall>i. bs_loop f base sz < i \<longrightarrow> i < n \<longrightarrow> f i = Greater)
    \<and> (bs_loop f base sz = 0 \<or> f (bs_loop f base sz) \<noteq> Greater)"
  using assms
proof (induction f base sz rule: bs_loop.induct)
  case (1 f base sz)
  note mono = 1(2) and le = 1(3) and pos = 1(4) and above = 1(5) and low = 1(6)
  show ?case
  proof (cases "1 < sz")
    case False
    with pos have sz: "sz = 1" by simp
    then have "bs_loop f base sz = base" by (simp add: bs_loop.simps)
    with le above low sz show ?thesis by auto
  next
    case True
    let ?h = "sz div 2"
    let ?b = "if f (base + ?h) = Greater then base else base + ?h"
    have h: "0 < ?h" "?h < sz" using True by auto
    have above': "f i = Greater" if "?b + (sz - ?h) \<le> i" "i < n" for i
    proof (cases "f (base + ?h) = Greater")
      case True
      with that h have "base + ?h \<le> i" by auto
      from mono [OF this] True that show ?thesis by blast
    next
      case False
      with that h have "base + sz \<le> i" by auto
      with that above show ?thesis by blast
    qed
    have le': "?b + (sz - ?h) \<le> n" using le h by auto
    have low': "?b = 0 \<or> f ?b \<noteq> Greater" using low by auto
    have pos': "0 < sz - ?h" using h by simp
    have eq: "bs_loop f base sz = bs_loop f ?b (sz - ?h)"
      using True by (simp add: bs_loop.simps [of f base sz])
    show ?thesis unfolding eq by (rule 1(1) [OF True mono le' pos' above' low'])
  qed
qed

lemma binary_search_by_cases:
  assumes gr: "\<And>i j. i \<le> j \<Longrightarrow> j < length xs \<Longrightarrow> f (xs ! i) = Greater \<Longrightarrow> f (xs ! j) = Greater"
    and ls: "\<And>i j. i \<le> j \<Longrightarrow> j < length xs \<Longrightarrow> f (xs ! j) = Less \<Longrightarrow> f (xs ! i) = Less"
  shows "case binary_search_by f xs of
      Ok i \<Rightarrow> i < length xs \<and> f (xs ! i) = Equal
    | Err i \<Rightarrow> i \<le> length xs \<and> (\<forall>j < i. f (xs ! j) = Less)
        \<and> (\<forall>j. i \<le> j \<longrightarrow> j < length xs \<longrightarrow> f (xs ! j) = Greater)"
proof (cases "xs = []")
  case True
  then show ?thesis by (simp add: binary_search_by_def)
next
  case False
  define b where "b = bs_loop (\<lambda>i. f (xs ! i)) 0 (length xs)"
  have ne: "0 < length xs" using False by simp
  have "0 + length xs \<le> length xs" by simp
  note loop = bs_loop_inv [of "length xs" "\<lambda>i. f (xs ! i)" 0 "length xs", OF gr this ne]
  have inv: "b < length xs \<and> (\<forall>i. b < i \<longrightarrow> i < length xs \<longrightarrow> f (xs ! i) = Greater)
    \<and> (b = 0 \<or> f (xs ! b) \<noteq> Greater)"
    unfolding b_def by (rule loop) simp_all
  have unf: "binary_search_by f xs =
      (case f (xs ! b) of Equal \<Rightarrow> Ok b | Less \<Rightarrow> Err (Suc b) | Greater \<Rightarrow> Err b)"
    using False by (simp add: binary_search_by_def Let_def flip: b_def)
  show ?thesis
  proof (cases "f (xs ! b)")
    case Less
    have "f (xs ! j) = Less" if "j < Suc b" for j
      by (rule ls [of j b]) (use that inv Less in auto)
    with inv Less show ?thesis by (simp add: unf Suc_le_eq)
  next
    case Equal
    with inv show ?thesis by (simp add: unf)
  next
    case Greater
    with inv have z: "b = 0" by simp
    have "f (xs ! j) = Greater" if "j < length xs" for j
      by (rule gr [of b j]) (use that z Greater in auto)
    with Greater z show ?thesis by (simp add: unf)
  qed
qed

subsection \<open>Vectors kept sorted by a key\<close>

abbreviation sorted_by :: "('a \<Rightarrow> 'k::linorder) \<Rightarrow> 'a list \<Rightarrow> bool" where
  "sorted_by key xs \<equiv> sorted_wrt (<) (map key xs)"

lemma sorted_by_nth_less:
  "sorted_by key xs \<Longrightarrow> i < j \<Longrightarrow> j < length xs \<Longrightarrow> key (xs ! i) < key (xs ! j)"
  using sorted_wrt_nth_less [of "(<)" "map key xs" i j] by simp

lemma binary_search_by_key_cases:
  assumes "sorted_by key xs"
  shows "case binary_search_by_key k key xs of
      Ok i \<Rightarrow> i < length xs \<and> key (xs ! i) = k
    | Err i \<Rightarrow> i \<le> length xs \<and> (\<forall>j < i. key (xs ! j) < k)
        \<and> (\<forall>j. i \<le> j \<longrightarrow> j < length xs \<longrightarrow> k < key (xs ! j))"
proof -
  have le: "key (xs ! i) \<le> key (xs ! j)" if "i \<le> j" "j < length xs" for i j
    using that sorted_by_nth_less [OF assms, of i j] by (cases "i = j") auto
  have "case binary_search_by (\<lambda>y. cmp (key y) k) xs of
      Ok i \<Rightarrow> i < length xs \<and> cmp (key (xs ! i)) k = Equal
    | Err i \<Rightarrow> i \<le> length xs \<and> (\<forall>j < i. cmp (key (xs ! j)) k = Less)
        \<and> (\<forall>j. i \<le> j \<longrightarrow> j < length xs \<longrightarrow> cmp (key (xs ! j)) k = Greater)"
  proof (rule binary_search_by_cases)
    fix i j assume "i \<le> j" "j < length xs" "cmp (key (xs ! i)) k = Greater"
    with le [of i j] show "cmp (key (xs ! j)) k = Greater" unfolding cmp_iff by (rule_tac less_le_trans)
  next
    fix i j assume "i \<le> j" "j < length xs" "cmp (key (xs ! j)) k = Less"
    with le [of i j] show "cmp (key (xs ! i)) k = Less" unfolding cmp_iff by (rule_tac le_less_trans)
  qed
  then show ?thesis unfolding binary_search_by_key_def cmp_iff .
qed

lemma binary_search_by_key_OkD:
  "sorted_by key xs \<Longrightarrow> binary_search_by_key k key xs = Ok i \<Longrightarrow> i < length xs \<and> key (xs ! i) = k"
  using binary_search_by_key_cases [of key xs k] by simp

lemma binary_search_by_key_ErrD:
  assumes "sorted_by key xs" and "binary_search_by_key k key xs = Err i"
  shows "i \<le> length xs \<and> (\<forall>y \<in> set (take i xs). key y < k) \<and> (\<forall>y \<in> set (drop i xs). k < key y)"
  using binary_search_by_key_cases [OF assms(1), of k] assms(2)
  by (auto simp: in_set_conv_nth)

lemma binary_search_by_key_is_ok:
  assumes "sorted_by key xs"
  shows "is_ok (binary_search_by_key k key xs) \<longleftrightarrow> k \<in> key ` set xs"
proof (cases "binary_search_by_key k key xs")
  case (Ok i)
  with binary_search_by_key_OkD [OF assms Ok] show ?thesis by (auto simp: nth_mem)
next
  case (Err i)
  from binary_search_by_key_ErrD [OF assms Err]
  have "\<forall>y \<in> set (take i xs @ drop i xs). key y \<noteq> k" unfolding set_append by blast
  with Err show ?thesis by auto
qed

lemma search_nil [simp]: "binary_search_by_key k key [] = Err 0"
  by (simp add: binary_search_by_key_def binary_search_by_def)

lemma search_single [simp]:
  "binary_search_by_key k key [x] = (if key x = k then Ok 0 else if key x < k then Err 1 else Err 0)"
  by (simp add: binary_search_by_key_def binary_search_by_def bs_loop.simps cmp_def)

lemma binary_search_eq_key: "binary_search x xs = binary_search_by_key x (\<lambda>y. y) xs"
  by (simp add: binary_search_def binary_search_by_key_def)

lemma binary_search_is_ok [simp]:
  "sorted_wrt (<) xs \<Longrightarrow> is_ok (binary_search x xs) \<longleftrightarrow> x \<in> set xs"
  using binary_search_by_key_is_ok [of "\<lambda>y. y" xs x] by (simp add: binary_search_eq_key)

lemma sorted_by_insert_at:
  assumes "sorted_by key xs" and "binary_search_by_key (key x) key xs = Err i"
  shows "sorted_by key (insert_at i x xs)"
proof -
  from binary_search_by_key_ErrD [OF assms]
  have lt: "\<forall>y \<in> set (take i xs). key y < key x" and gt: "\<forall>y \<in> set (drop i xs). key x < key y"
    by auto
  from assms(1) have "sorted_by key (take i xs @ drop i xs)" by simp
  then have "sorted_by key (take i xs)" "sorted_by key (drop i xs)"
    by (simp_all only: map_append sorted_wrt_append)
  with lt gt show ?thesis
    by (simp add: insert_at_def sorted_wrt_append) (meson less_trans)
qed

text \<open>The search key decides the element: a sorted vector is a finite map.\<close>

lemma sorted_by_distinct: "sorted_by key xs \<Longrightarrow> distinct (map key xs)"
  by (simp add: strict_sorted_iff)

lemma sorted_by_filter: "sorted_by key xs \<Longrightarrow> sorted_by key (filter p xs)"
  by (simp add: sorted_wrt_map sorted_wrt_filter)

lemma sorted_wrt_less_dedup:
  "sorted (xs :: 'a::linorder list) \<Longrightarrow> sorted_wrt (<) (remdups_adj xs)"
proof (induction xs rule: remdups_adj.induct)
  case (3 x y xs)
  then show ?case
  proof (cases "x = y")
    case False
    with 3(3) have "x < y" "\<forall>z \<in> set xs. y \<le> z" by (auto simp: order_less_le)
    then have "\<forall>z \<in> set (remdups_adj (y # xs)). x < z" by auto
    with 3 False show ?thesis by simp
  qed simp
qed simp_all

end
