(* ===== verification/Rng.thy ===== *)
theory Rng
  imports Prelude "HOL-Library.Multiset"
begin

text \<open>
  The generator every election timeout is drawn from (\<^verbatim>\<open>crates/esker-base/src/rng.rs\<close>):
  PCG-XSH-RR 64/32 on words of the source's widths. The rejection loop of \<^verbatim>\<open>Pcg32::below\<close> is
  a recursive function, so its termination is a theorem: the underlying linear congruence visits
  every 64-bit state, hence also one whose output passes the threshold.
\<close>

unbundle bit_operations_syntax

subsection \<open>The generator\<close>

text \<open>The field \<^verbatim>\<open>increment\<close> is private and only ever built as \<^verbatim>\<open>(sequence << 1) | 1\<close>; its
  type here holds the odd words only.\<close>

typedef odd64 = "{w :: 64 word. odd w}" morphisms odd64_val Odd64
  by (rule exI [of _ 1]) simp

definition pcg_increment_of :: "64 word \<Rightarrow> odd64" where
  "pcg_increment_of s = Odd64 (push_bit 1 s OR 1)"

lemma odd64_val_increment [simp]: "odd64_val (pcg_increment_of s) = push_bit 1 s OR 1"
  by (simp add: pcg_increment_of_def Odd64_inverse even_or_iff)

lemma odd_odd64_val [simp]: "odd (odd64_val c)"
  using odd64_val [of c] by simp

record pcg32 =
  pcg_state :: "64 word"
  pcg_increment :: odd64

definition MULTIPLIER :: "64 word" where
  "MULTIPLIER = 6364136223846793005"

definition pcg_step :: "pcg32 \<Rightarrow> pcg32 \<times> 64 word" where
  "pcg_step g =
     (g\<lparr>pcg_state := pcg_state g * MULTIPLIER + odd64_val (pcg_increment g)\<rparr>, pcg_state g)"

definition pcg_new :: "64 word \<Rightarrow> 64 word \<Rightarrow> pcg32" where
  "pcg_new seed sequence =
     (let g0 = \<lparr>pcg_state = 0, pcg_increment = pcg_increment_of sequence\<rparr>;
          g1 = fst (pcg_step g0);
          g2 = g1\<lparr>pcg_state := pcg_state g1 + seed\<rparr>
      in fst (pcg_step g2))"

definition pcg_from_seed :: "64 word \<Rightarrow> pcg32" where
  "pcg_from_seed seed = pcg_new seed 0xDA3E39CB94B95BDB"

definition pcg_output :: "64 word \<Rightarrow> 32 word" where
  "pcg_output s =
     (let xorshifted = ucast (drop_bit 27 (drop_bit 18 s XOR s)) :: 32 word;
          rotation = unat (drop_bit 59 s)
      in word_rotr rotation xorshifted)"

definition next_u32 :: "pcg32 \<Rightarrow> pcg32 \<times> 32 word" where
  "next_u32 g = (let (g', s) = pcg_step g in (g', pcg_output s))"

definition next_u64 :: "pcg32 \<Rightarrow> pcg32 \<times> 64 word" where
  "next_u64 g =
     (let (g1, high) = next_u32 g; (g2, low) = next_u32 g1
      in (g2, push_bit 32 (ucast high) OR ucast low))"

subsection \<open>The full period\<close>

definition geo :: "nat \<Rightarrow> nat \<Rightarrow> nat" where
  "geo a n = (\<Sum>i<n. a ^ i)"

lemma geo_0 [simp]: "geo a 0 = 0"
  by (simp add: geo_def)

lemma geo_Suc: "geo a (Suc n) = 1 + a * geo a n"
  unfolding geo_def sum.lessThan_Suc_shift by (simp add: sum_distrib_left)

lemma odd_dvd_mult: "odd d \<Longrightarrow> 2 ^ k dvd n * (d :: nat) \<Longrightarrow> 2 ^ k dvd n"
  by (simp add: coprime_dvd_mult_left_iff coprime_power_left_iff)

lemma geo_add: "geo a (m + n) = geo a m + a ^ m * geo a n"
  by (induction m) (simp_all add: geo_Suc algebra_simps)

lemma geo_double: "geo a (n + n) = geo a n * (1 + a ^ n)"
  by (simp add: geo_add algebra_simps)

lemma geo_odd: "odd a \<Longrightarrow> odd (geo a n) \<longleftrightarrow> odd n"
  by (induction n) (auto simp: geo_Suc)

lemma pow_mod4: "a mod 4 = 1 \<Longrightarrow> (a ^ n) mod 4 = (1 :: nat)"
  by (induction n) (simp_all add: mod_mult_eq [of a 4, symmetric])

text \<open>For \<open>a\<close> congruent to one modulo four the sum carries exactly the powers of two of its
  length.\<close>

lemma geo_dvd:
  assumes a: "a mod 4 = 1"
  shows "2 ^ k dvd geo a n \<Longrightarrow> 2 ^ k dvd n"
proof (induction k arbitrary: n)
  case (Suc k)
  have odd: "odd a" using a by presburger
  have "even (geo a n)" using Suc.prems by (metis dvd_trans dvd_triv_left power_Suc)
  then obtain m where m: "n = m + m" using geo_odd [OF odd] by (auto simp: mult_2 elim!: evenE)
  have "(1 + a ^ m) mod 4 = 2" using pow_mod4 [OF a, of m] by (simp add: mod_Suc)
  then have "\<exists>q. 1 + a ^ m = 2 * (2 * q + 1)" by presburger
  then obtain q where q: "1 + a ^ m = 2 * (2 * q + 1)" by blast
  have "2 * 2 ^ k dvd 2 * (geo a m * (2 * q + 1))"
    using Suc.prems by (simp only: m geo_double q power_Suc mult.left_commute)
  then have "2 ^ k dvd geo a m * (2 * q + 1)" by (simp only: nat_mult_dvd_cancel_disj) auto
  moreover have "odd (2 * q + 1)" by simp
  ultimately have "2 ^ k dvd geo a m" by (rule odd_dvd_mult [rotated])
  then have "2 ^ k dvd m" by (rule Suc.IH)
  then show ?case by (simp add: m flip: mult_2)
qed simp

definition lcg :: "64 word \<Rightarrow> 64 word \<Rightarrow> 64 word" where
  "lcg c s = s * MULTIPLIER + c"

definition lcg_mult :: nat where
  "lcg_mult = 6364136223846793005"

lemma MULTIPLIER_of_nat: "MULTIPLIER = of_nat lcg_mult"
  by (simp add: MULTIPLIER_def lcg_mult_def)

lemma lcg_mult_mod4: "lcg_mult mod 4 = 1" and odd_lcg_mult: "odd lcg_mult"
  by (simp_all add: lcg_mult_def)

lemma lcg_funpow:
  "(lcg c ^^ n) s = s + of_nat (geo lcg_mult n) * ((MULTIPLIER - 1) * s + c)"
proof (induction n)
  case (Suc n)
  have "(lcg c ^^ Suc n) s = (lcg c ^^ n) s * MULTIPLIER + c"
    by (simp add: lcg_def [of c "(lcg c ^^ n) s"])
  then show ?case unfolding Suc by (simp add: geo_Suc MULTIPLIER_of_nat algebra_simps)
qed simp

lemma word_of_nat_0_iff: "(of_nat n :: 64 word) = 0 \<longleftrightarrow> 2 ^ 64 dvd n"
  by (simp add: word_of_nat_eq_0_iff)

lemma odd_mult_eq_0:
  fixes d :: "64 word"
  assumes "odd d" "of_nat n * d = 0"
  shows "2 ^ 64 dvd n"
proof -
  have "of_nat (n * unat d) = (0 :: 64 word)" using assms(2) by simp
  then have "2 ^ 64 dvd n * unat d" by (simp only: word_of_nat_0_iff)
  moreover have "odd (unat d)" using assms(1) by (simp add: bit_unsigned_iff flip: bit_0)
  ultimately show ?thesis by (rule odd_dvd_mult [rotated])
qed

lemma lcg_inj:
  assumes "odd c"
  shows "inj_on (\<lambda>n. (lcg c ^^ n) s) {..<2 ^ 64}"
proof -
  let ?d = "(MULTIPLIER - 1) * s + c"
  have odd: "odd ?d" using assms by (simp add: MULTIPLIER_def)
  have False if "n < m" "m < 2 ^ 64" "(lcg c ^^ n) s = (lcg c ^^ m) s" for n m
  proof -
    have "m = n + (m - n)" using that by simp
    then have "geo lcg_mult m = geo lcg_mult n + lcg_mult ^ n * geo lcg_mult (m - n)"
      by (metis geo_add)
    with that(3) have "of_nat (lcg_mult ^ n * geo lcg_mult (m - n)) * ?d = 0"
      by (simp add: lcg_funpow algebra_simps)
    from odd_mult_eq_0 [OF odd this] have "2 ^ 64 dvd geo lcg_mult (m - n) * lcg_mult ^ n"
      by (simp only: mult.commute)
    moreover have "odd (lcg_mult ^ n)" using odd_lcg_mult by simp
    ultimately have "2 ^ 64 dvd geo lcg_mult (m - n)" by (rule odd_dvd_mult [rotated])
    with geo_dvd [OF lcg_mult_mod4] have "2 ^ 64 dvd m - n" by blast
    with that show False by (auto dest: dvd_imp_le)
  qed
  then show ?thesis by (intro inj_onI) (metis lessThan_iff nat_neq_iff)
qed

lemma lcg_reaches: "odd c \<Longrightarrow> \<exists>n. (lcg c ^^ n) s = t"
proof -
  assume "odd c"
  then have "card ((\<lambda>n. (lcg c ^^ n) s) ` {..<2 ^ 64}) = CARD(64 word)"
    using card_image [OF lcg_inj, of c s] by (simp add: card_word)
  then have "(\<lambda>n. (lcg c ^^ n) s) ` {..<2 ^ 64} = UNIV"
    by (intro card_subset_eq) auto
  then have "t \<in> (\<lambda>n. (lcg c ^^ n) s) ` {..<2 ^ 64}" by (simp only: UNIV_I)
  then show ?thesis by (elim imageE) (rule exI, erule sym)
qed

lemma word_rotr_32:
  "n < 32 \<Longrightarrow> word_rotr n (w :: 32 word) = push_bit (32 - n) w OR drop_bit n w"
proof (rule bit_word_eqI)
  fix k assume k: "n < 32" "k < LENGTH(32)"
  have "(k + n) mod 32 = (if k + n < 32 then k + n else k + n - 32)" using k by (simp add: le_mod_geq)
  with k show "bit (word_rotr n w) k \<longleftrightarrow> bit (push_bit (32 - n) w OR drop_bit n w) k"
    by (auto simp: bit_word_rotr_iff bit_or_iff bit_push_bit_iff bit_drop_bit_eq add.commute
        split: if_splits dest: bit_imp_le_length)
qed

lemma pcg_output_max: "pcg_output (2 ^ 59 - 2 ^ 41) = - 1"
  by (simp add: pcg_output_def word_rotr_32)


text \<open>What the loop of \<^verbatim>\<open>below\<close> relies on: from any state some number of draws passes any
  threshold.\<close>

lemma pcg_step_eq:
  "pcg_step g = (g\<lparr>pcg_state := lcg (odd64_val (pcg_increment g)) (pcg_state g)\<rparr>, pcg_state g)"
  by (simp add: pcg_step_def lcg_def)

lemma draws_pass:
  fixes t :: "32 word"
  shows "\<exists>n. t \<le> pcg_output ((lcg (odd64_val c) ^^ n) s)"
proof -
  obtain n where "(lcg (odd64_val c) ^^ n) s = 2 ^ 59 - 2 ^ 41"
    using lcg_reaches [OF odd_odd64_val] by blast
  then have "pcg_output ((lcg (odd64_val c) ^^ n) s) = - 1" by (simp only: pcg_output_max)
  then show ?thesis by (metis word_n1_ge)
qed

definition draws_needed :: "32 word \<Rightarrow> pcg32 \<Rightarrow> nat" where
  "draws_needed t g =
     (LEAST n. t \<le> pcg_output ((lcg (odd64_val (pcg_increment g)) ^^ n) (pcg_state g)))"

subsection \<open>Draws in a range\<close>

function below_loop :: "32 word \<Rightarrow> pcg32 \<Rightarrow> pcg32 \<times> 32 word" where
  "below_loop threshold g =
     (let (g', draw) = next_u32 g in
      if threshold \<le> draw then (g', draw) else below_loop threshold g')"
  by pat_completeness auto

termination
proof (relation "measure (\<lambda>(t, g). draws_needed t g)")
  fix t g x g' draw
  assume x: "x = next_u32 g" "(g', draw) = x" "\<not> t \<le> draw"
  let ?c = "odd64_val (pcg_increment g)"
  have g': "g' = g\<lparr>pcg_state := lcg ?c (pcg_state g)\<rparr>" and d: "draw = pcg_output (pcg_state g)"
    using x by (simp_all add: next_u32_def pcg_step_eq)
  let ?P = "\<lambda>n. t \<le> pcg_output ((lcg ?c ^^ n) (pcg_state g))"
  obtain n where "?P n" using draws_pass by blast
  moreover have "\<not> ?P 0" using x(3) d by simp
  ultimately have "(LEAST n. ?P n) = Suc (LEAST n. ?P (Suc n))" by (rule Least_Suc)
  then show "((t, g'), (t, g)) \<in> measure (\<lambda>(t, g). draws_needed t g)"
    by (simp add: draws_needed_def g' funpow_swap1)
qed simp

declare below_loop.simps [simp del]

definition pcg_below :: "pcg32 \<Rightarrow> 32 word \<Rightarrow> pcg32 \<times> 32 word" where
  "pcg_below g bound =
     (if bound \<le> 1 then (g, 0)
      else
        let threshold = (- bound) mod bound; (g', draw) = below_loop threshold g
        in (g', draw mod bound))"

definition range_inclusive :: "pcg32 \<Rightarrow> u64 \<Rightarrow> u64 \<Rightarrow> pcg32 \<times> u64" where
  "range_inclusive g low high =
     (if high \<le> low then (g, low)
      else if high - low = u64_max then (let (g', x) = next_u64 g in (g', unat x))
      else
        let count = high - low + 1 in
        if count < 2 ^ 32 then (let (g', x) = pcg_below g (of_nat count) in (g', u64_add low (unat x)))
        else (let (g', x) = next_u64 g in (g', u64_add low (unat x mod count))))"

text \<open>The comparison of \<^verbatim>\<open>chance\<close>; the floating-point product it compares with is its argument.\<close>

definition pcg_chance :: "32 word \<Rightarrow> pcg32 \<Rightarrow> pcg32 \<times> bool" where
  "pcg_chance threshold g = (let (g', x) = next_u32 g in (g', x < threshold))"

definition u32_le_bytes :: "32 word \<Rightarrow> bytes" where
  "u32_le_bytes w = le_bytes 4 (unat w)"

fun fill_bytes :: "pcg32 \<Rightarrow> nat \<Rightarrow> pcg32 \<times> bytes" where
  "fill_bytes g n =
     (if n = 0 then (g, [])
      else if n < 4 then (let (g', x) = next_u32 g in (g', take n (u32_le_bytes x)))
      else (let (g', x) = next_u32 g; (g'', rest) = fill_bytes g' (n - 4) in (g'', u32_le_bytes x @ rest)))"

definition swap_at :: "nat \<Rightarrow> nat \<Rightarrow> 'a list \<Rightarrow> 'a list" where
  "swap_at i j xs = xs[i := xs ! j, j := xs ! i]"

text \<open>\<^verbatim>\<open>shuffle\<close> walks the positions from the last down to one; \<open>shuffle_from i\<close> is the loop with
  positions \<open>i\<close> down to one still to do.\<close>

primrec shuffle_from :: "nat \<Rightarrow> pcg32 \<Rightarrow> 'a list \<Rightarrow> pcg32 \<times> 'a list" where
  "shuffle_from 0 g xs = (g, xs)"
| "shuffle_from (Suc i) g xs =
     (if 2 ^ 32 \<le> Suc i + 1 then (g, xs)
      else let (g', j) = pcg_below g (of_nat (Suc i + 1))
           in shuffle_from i g' (swap_at (Suc i) (unat j) xs))"

definition shuffle :: "pcg32 \<Rightarrow> 'a list \<Rightarrow> pcg32 \<times> 'a list" where
  "shuffle g xs = shuffle_from (length xs - 1) g xs"

subsection \<open>Properties\<close>

lemma pcg_below_bound: "1 < bound \<Longrightarrow> snd (pcg_below g bound) < bound"
  by (auto simp: pcg_below_def Let_def not_le split: prod.splits intro!: word_mod_less_divisor
      intro: le_less_trans [of 0 1])

lemma word_1_less_of_nat: "1 < n \<Longrightarrow> n < 2 ^ 32 \<Longrightarrow> (1 :: 32 word) < of_nat n"
  by (simp add: word_less_nat_alt unat_of_nat)

text \<open>A draw from a range stays in the range: \<^verbatim>\<open>range_inclusive(low, high)\<close> returns a value
  between its bounds whenever the range is not empty, whichever of its three paths it takes.\<close>

theorem range_inclusive_bounds:
  assumes "low \<le> high" "high \<le> u64_max"
  shows "low \<le> snd (range_inclusive g low high) \<and> snd (range_inclusive g low high) \<le> high"
proof -
  obtain g1 x1 where n64: "next_u64 g = (g1, x1)" by (cases "next_u64 g")
  let ?count = "high - low + 1"
  obtain g2 x2 where b: "pcg_below g (of_nat ?count) = (g2, x2)" by (cases "pcg_below g (of_nat ?count)")
  have "x2 < of_nat ?count" if "low < high" "?count < 2 ^ 32"
    using pcg_below_bound [OF word_1_less_of_nat, of ?count g] that b by simp
  then have x2: "unat x2 \<le> high - low" if "low < high" "?count < 2 ^ 32"
    using that by (simp add: word_less_nat_alt unat_of_nat del: of_nat_Suc of_nat_add)
  have "unat x1 < 2 ^ 64" by (rule less_le_trans [OF unsigned_less]) simp
  then have x1: "unat x1 \<le> u64_max" by (simp add: u64_max_def)
  have md: "unat x1 mod ?count < ?count" by simp
  consider "high = low" | "low < high" "high - low = u64_max"
    | "low < high" "high - low \<noteq> u64_max" "?count < 2 ^ 32"
    | "low < high" "high - low \<noteq> u64_max" "\<not> ?count < 2 ^ 32"
    using assms(1) by linarith
  then show ?thesis
  proof cases
    case 1 then show ?thesis by (simp add: range_inclusive_def)
  next
    case 2
    then have "low = 0" "high = u64_max" using assms by linarith+
    with 2 x1 n64 show ?thesis by (simp add: range_inclusive_def)
  next
    case 3
    with x2 have "unat x2 \<le> high - low" by blast
    with 3 assms have "unat x2 \<le> high - low" "low + unat x2 \<le> u64_max" by linarith+
    with 3 b assms show ?thesis by (simp add: range_inclusive_def Let_def u64_simps)
  next
    case 4
    with md assms have "low + unat x1 mod ?count \<le> high" by linarith
    with 4 n64 assms show ?thesis by (simp add: range_inclusive_def Let_def u64_simps)
  qed
qed

theorem range_inclusive_bounds_witness:
  "10 \<le> snd (range_inclusive (pcg_new 42 1) 10 20) \<and> snd (range_inclusive (pcg_new 42 1) 10 20) \<le> 20"
  using range_inclusive_bounds [of 10 20 "pcg_new 42 1"] by (simp add: u64_max_def)

lemma pcg_reaches: "\<exists>n. pcg_state (((fst \<circ> pcg_step) ^^ n) g) = s"
proof -
  let ?c = "odd64_val (pcg_increment g)"
  have "((fst \<circ> pcg_step) ^^ n) g = g\<lparr>pcg_state := (lcg ?c ^^ n) (pcg_state g)\<rparr>" for n
    by (induction n) (simp_all add: pcg_step_eq)
  with lcg_reaches [OF odd_odd64_val, of "pcg_increment g" "pcg_state g" s] show ?thesis by auto
qed

text \<open>The generator has full period: from every state, on every stream, every other state is
  reached, so the rejection loop of \<^verbatim>\<open>below\<close> always ends.\<close>

theorem pcg_full_period: "\<exists>n. pcg_state (((fst \<circ> pcg_step) ^^ n) g) = s"
  by (rule pcg_reaches)

lemma shuffle_from_mset: "i < length xs \<Longrightarrow> mset (snd (shuffle_from i g xs)) = mset xs"
proof (induction i arbitrary: g xs)
  case (Suc i)
  show ?case
  proof (cases "2 ^ 32 \<le> Suc i + 1")
    case False
    let ?b = "pcg_below g (of_nat (Suc i + 1))"
    have "snd ?b < of_nat (Suc i + 1)"
      using False by (intro pcg_below_bound word_1_less_of_nat) simp_all
    then have "unat (snd ?b) < Suc i + 1"
      using False by (simp add: word_less_nat_alt unat_of_nat del: of_nat_Suc of_nat_add)
    then have j: "unat (snd ?b) < length xs" using Suc.prems by simp
    have "mset (swap_at (Suc i) (unat (snd ?b)) xs) = mset xs"
      using mset_swap [OF j Suc.prems] by (simp add: swap_at_def)
    moreover have "shuffle_from (Suc i) g xs = shuffle_from i (fst ?b) (swap_at (Suc i) (unat (snd ?b)) xs)"
      using False by (simp add: case_prod_beta del: of_nat_Suc of_nat_add)
    ultimately show ?thesis using Suc.IH [of "swap_at (Suc i) (unat (snd ?b)) xs" "fst ?b"] Suc.prems
      by (simp add: swap_at_def)
  qed simp
qed simp

text \<open>\<^verbatim>\<open>shuffle\<close> returns a permutation of its argument.\<close>

theorem shuffle_permutes: "mset (snd (shuffle g xs)) = mset xs"
  by (cases xs) (simp_all add: shuffle_def shuffle_from_mset)

fun draws :: "nat \<Rightarrow> pcg32 \<Rightarrow> 32 word list" where
  "draws 0 g = []"
| "draws (Suc n) g = (let (g', x) = next_u32 g in x # draws n g')"

lemma draws_numeral:
  "draws (numeral k) g = (let (g', x) = next_u32 g in x # draws (pred_numeral k) g')"
  by (simp add: numeral_eq_Suc)

lemma pcg_new_42_54: "pcg_new 42 54 = \<lparr>pcg_state = 1753877967969059832, pcg_increment = pcg_increment_of 54\<rparr>"
  by (simp add: pcg_new_def pcg_step_def MULTIPLIER_def Let_def)

lemma next_u32_54:
  "next_u32 \<lparr>pcg_state = 1753877967969059832, pcg_increment = pcg_increment_of 54\<rparr> =
    (\<lparr>pcg_state = 3118741472915405573, pcg_increment = pcg_increment_of 54\<rparr>, 0xA15C02B7)"
  "next_u32 \<lparr>pcg_state = 3118741472915405573, pcg_increment = pcg_increment_of 54\<rparr> =
    (\<lparr>pcg_state = 10030406343644371790, pcg_increment = pcg_increment_of 54\<rparr>, 0x7B47F409)"
  "next_u32 \<lparr>pcg_state = 10030406343644371790, pcg_increment = pcg_increment_of 54\<rparr> =
    (\<lparr>pcg_state = 17800363335834976035, pcg_increment = pcg_increment_of 54\<rparr>, 0xBA1D3330)"
  "next_u32 \<lparr>pcg_state = 17800363335834976035, pcg_increment = pcg_increment_of 54\<rparr> =
    (\<lparr>pcg_state = 16987470693695682196, pcg_increment = pcg_increment_of 54\<rparr>, 0x83D2F293)"
  "next_u32 \<lparr>pcg_state = 16987470693695682196, pcg_increment = pcg_increment_of 54\<rparr> =
    (\<lparr>pcg_state = 9440484487994590321, pcg_increment = pcg_increment_of 54\<rparr>, 0xBFA4784B)"
  "next_u32 \<lparr>pcg_state = 9440484487994590321, pcg_increment = pcg_increment_of 54\<rparr> =
    (\<lparr>pcg_state = 13742400798436595530, pcg_increment = pcg_increment_of 54\<rparr>, 0xCBED606E)"
  by (simp_all add: next_u32_def pcg_step_def pcg_output_def MULTIPLIER_def word_rotr_32)

text \<open>The generator is the published one: the stream of \<^verbatim>\<open>Pcg32::new(42, 54)\<close> starts with
  the six values of the reference implementation's demonstration program.\<close>

theorem reference_stream:
  "draws 6 (pcg_new 42 54) =
     [0xA15C02B7, 0x7B47F409, 0xBA1D3330, 0x83D2F293, 0xBFA4784B, 0xCBED606E]"
  by (simp add: draws_numeral pcg_new_42_54 next_u32_54)

text \<open>\<^verbatim>\<open>chance(1.0)\<close> is not absolute. Its threshold is \<^verbatim>\<open>u32::MAX\<close>, and on every stream
  there is a point where the draw equals it and the answer is \<^verbatim>\<open>false\<close>.\<close>

theorem chance_one_can_fail:
  "\<exists>n. snd (pcg_chance (- 1) (((fst \<circ> pcg_step) ^^ n) (pcg_new seed sequence))) = False"
proof -
  obtain n where "pcg_state (((fst \<circ> pcg_step) ^^ n) (pcg_new seed sequence)) = 2 ^ 59 - 2 ^ 41"
    using pcg_reaches by blast
  then have "snd (next_u32 (((fst \<circ> pcg_step) ^^ n) (pcg_new seed sequence))) = - 1"
    by (simp only: next_u32_def pcg_step_eq pcg_output_max prod.case Let_def snd_conv)
  then show ?thesis by (intro exI [of _ n]) (simp add: pcg_chance_def case_prod_beta)
qed

end
