(* ===== verification/RaftTypes.thy ===== *)
theory RaftTypes
  imports Prelude
begin

text \<open>
  The values the Raft core moves around (\<^verbatim>\<open>crates/esker-raft/src/types.rs\<close>,
  \<^verbatim>\<open>message.rs\<close>, \<^verbatim>\<open>error.rs\<close>): identities, log entries, the durable state, configurations,
  membership changes and their encoding, snapshots, messages and errors.

  The formatted text inside an error is not modelled: where the source formats a sentence, the
  error carries the values the sentence is built from. \<^verbatim>\<open>tracing\<close> calls are dropped throughout.
\<close>

subsection \<open>Identities, errors, entries\<close>

type_synonym node_id = u64
type_synonym rterm = u64
type_synonym index = u64

datatype invalid_config =
    NodeIdZero
  | ElectionTickInverted u64 u64
  | HeartbeatTickZero
  | ElectionBelowHeartbeat u64 u64
  | MaxInflightZero
  | MaxSizeZero
  | RemovesLastVoter

datatype corrupt_reason = PayloadTooShort nat | UnknownKindByte byte

datatype storage_reason = AppendConflictsCommitted index index | StorageText string

datatype raft_error =
    Compacted index
  | Unavailable index
  | SnapshotTemporarilyUnavailable
  | SnapshotOutOfDate index index
  | NotLeader
  | ConfChangePending index
  | LeadershipTransferInProgress node_id
  | InvalidConfig invalid_config
  | CorruptConfChange corrupt_reason
  | Storage storage_reason

type_synonym 'a rresult = "('a, raft_error) result"

fun is_compacted :: "raft_error \<Rightarrow> bool" where
  "is_compacted (Compacted _) = True"
| "is_compacted _ = False"

datatype entry_kind = Normal | ConfChangeKind

record entry =
  ent_term :: rterm
  ent_index :: index
  ent_kind :: entry_kind
  ent_data :: bytes

definition entry_normal :: "rterm \<Rightarrow> index \<Rightarrow> bytes \<Rightarrow> entry" where
  "entry_normal t i d = \<lparr>ent_term = t, ent_index = i, ent_kind = Normal, ent_data = d\<rparr>"

definition entry_empty :: "rterm \<Rightarrow> index \<Rightarrow> entry" where
  "entry_empty t i = entry_normal t i []"

definition entry_cost :: "entry \<Rightarrow> u64" where
  "entry_cost e = u64_add 24 (length (ent_data e))"

record hard_state =
  hs_term :: rterm
  hs_voted_for :: "node_id option"
  hs_commit :: index

definition hs_differs_from :: "hard_state \<Rightarrow> hard_state \<Rightarrow> bool" where
  "hs_differs_from a b \<longleftrightarrow> a \<noteq> b"

subsection \<open>Configurations\<close>

record conf_state =
  voters :: "node_id list"
  learners :: "node_id list"

definition conf_normalize :: "conf_state \<Rightarrow> conf_state" where
  "conf_normalize c =
     (let vs = remdups_adj (sort (voters c));
          ls = remdups_adj (sort (learners c))
      in \<lparr>voters = vs, learners = filter (\<lambda>n. \<not> is_ok (binary_search n vs)) ls\<rparr>)"

definition conf_from_voters :: "node_id list \<Rightarrow> conf_state" where
  "conf_from_voters vs = conf_normalize \<lparr>voters = vs, learners = []\<rparr>"

definition conf_is_voter :: "conf_state \<Rightarrow> node_id \<Rightarrow> bool" where
  "conf_is_voter c n \<longleftrightarrow> is_ok (binary_search n (voters c))"

definition conf_is_learner :: "conf_state \<Rightarrow> node_id \<Rightarrow> bool" where
  "conf_is_learner c n \<longleftrightarrow> is_ok (binary_search n (learners c))"

definition conf_contains :: "conf_state \<Rightarrow> node_id \<Rightarrow> bool" where
  "conf_contains c n \<longleftrightarrow> conf_is_voter c n \<or> conf_is_learner c n"

definition conf_quorum :: "conf_state \<Rightarrow> nat" where
  "conf_quorum c = length (voters c) div 2 + 1"

definition conf_members :: "conf_state \<Rightarrow> node_id list" where
  "conf_members c = voters c @ learners c"

subsection \<open>Snapshots, reads, counters\<close>

record snapshot_meta =
  sm_index :: index
  sm_term :: rterm
  sm_conf :: conf_state

record snapshot =
  snap_meta :: snapshot_meta
  snap_data :: bytes

definition snapshot_is_empty :: "snapshot \<Rightarrow> bool" where
  "snapshot_is_empty s \<longleftrightarrow> sm_index (snap_meta s) = 0"

datatype snapshot_status = Finished | Failed

record read_state =
  rs_index :: index
  rs_ctx :: bytes

record peer_progress =
  pp_id :: node_id
  pp_matched :: index
  pp_next :: index
  pp_is_learner :: bool
  pp_recent_active :: bool
  pp_pending_snapshot :: index

record counters =
  campaigns_pre :: u64
  campaigns_real :: u64
  vote_requests_sent :: u64
  vote_responses_sent :: u64
  vote_responses_granted :: u64
  vote_responses_ignored :: u64
  check_quorum_step_downs :: u64

definition counters_default :: counters where
  "counters_default =
     \<lparr>campaigns_pre = 0, campaigns_real = 0, vote_requests_sent = 0, vote_responses_sent = 0,
      vote_responses_granted = 0, vote_responses_ignored = 0, check_quorum_step_downs = 0\<rparr>"

subsection \<open>Messages\<close>

text \<open>The arguments of each constructor are the fields of the source's variant, in its order:
  sender, recipient, term, then the variant's own fields.\<close>

datatype message =
    RequestVote node_id node_id rterm index rterm bool bool
  | RequestVoteResponse node_id node_id rterm bool bool
  | AppendEntries node_id node_id rterm index rterm "entry list" index bytes
  | AppendEntriesResponse node_id node_id rterm bool index rterm bytes
  | InstallSnapshot node_id node_id rterm snapshot
  | TimeoutNow node_id node_id rterm
  | ReadIndex node_id node_id rterm bytes
  | ReadIndexResponse node_id node_id rterm index bytes

fun msg_sender :: "message \<Rightarrow> node_id" where
  "msg_sender (RequestVote from to t li lt pv fo) = from"
| "msg_sender (RequestVoteResponse from to t g pv) = from"
| "msg_sender (AppendEntries from to t pi pt es lc cx) = from"
| "msg_sender (AppendEntriesResponse from to t rj i ht cx) = from"
| "msg_sender (InstallSnapshot from to t sn) = from"
| "msg_sender (TimeoutNow from to t) = from"
| "msg_sender (ReadIndex from to t cx) = from"
| "msg_sender (ReadIndexResponse from to t i cx) = from"

fun msg_recipient :: "message \<Rightarrow> node_id" where
  "msg_recipient (RequestVote from to t li lt pv fo) = to"
| "msg_recipient (RequestVoteResponse from to t g pv) = to"
| "msg_recipient (AppendEntries from to t pi pt es lc cx) = to"
| "msg_recipient (AppendEntriesResponse from to t rj i ht cx) = to"
| "msg_recipient (InstallSnapshot from to t sn) = to"
| "msg_recipient (TimeoutNow from to t) = to"
| "msg_recipient (ReadIndex from to t cx) = to"
| "msg_recipient (ReadIndexResponse from to t i cx) = to"

fun msg_term :: "message \<Rightarrow> rterm" where
  "msg_term (RequestVote from to t li lt pv fo) = t"
| "msg_term (RequestVoteResponse from to t g pv) = t"
| "msg_term (AppendEntries from to t pi pt es lc cx) = t"
| "msg_term (AppendEntriesResponse from to t rj i ht cx) = t"
| "msg_term (InstallSnapshot from to t sn) = t"
| "msg_term (TimeoutNow from to t) = t"
| "msg_term (ReadIndex from to t cx) = t"
| "msg_term (ReadIndexResponse from to t i cx) = t"

fun msg_is_pre_vote :: "message \<Rightarrow> bool" where
  "msg_is_pre_vote (RequestVote from to t li lt pv fo) = pv"
| "msg_is_pre_vote (RequestVoteResponse from to t g pv) = pv"
| "msg_is_pre_vote _ = False"

subsection \<open>Normalised configurations\<close>

text \<open>The invariant of a normalised configuration.\<close>

definition conf_ok :: "conf_state \<Rightarrow> bool" where
  "conf_ok c \<longleftrightarrow> sorted_wrt (<) (voters c) \<and> sorted_wrt (<) (learners c)
     \<and> set (voters c) \<inter> set (learners c) = {}"

lemma conf_okD:
  assumes "conf_ok c"
  shows "sorted_wrt (<) (voters c)" "sorted_wrt (<) (learners c)"
    "set (voters c) \<inter> set (learners c) = {}"
  using assms by (simp_all add: conf_ok_def)

lemma conf_ok_is_voter [simp]: "conf_ok c \<Longrightarrow> conf_is_voter c n \<longleftrightarrow> n \<in> set (voters c)"
  by (simp add: conf_is_voter_def conf_ok_def)

lemma conf_ok_is_learner [simp]: "conf_ok c \<Longrightarrow> conf_is_learner c n \<longleftrightarrow> n \<in> set (learners c)"
  by (simp add: conf_is_learner_def conf_ok_def)

lemma conf_ok_contains: "conf_ok c \<Longrightarrow> conf_contains c n \<longleftrightarrow> n \<in> set (conf_members c)"
  by (simp add: conf_contains_def conf_members_def)

lemma conf_ok_length_voters: "conf_ok c \<Longrightarrow> length (voters c) = card (set (voters c))"
  by (metis conf_okD(1) distinct_card strict_sorted_iff)

lemma conf_normalize_sets:
  "set (voters (conf_normalize c)) = set (voters c)"
  "set (learners (conf_normalize c)) = set (learners c) - set (voters c)"
  by (auto simp: conf_normalize_def Let_def sorted_wrt_less_dedup)

lemma conf_normalize_ok: "conf_ok (conf_normalize c)"
proof -
  have "sorted_wrt (<) (remdups_adj (sort xs))" for xs :: "nat list"
    by (rule sorted_wrt_less_dedup) simp
  then show ?thesis
    by (auto simp: conf_ok_def conf_normalize_def Let_def sorted_wrt_filter)
qed

text \<open>A normalised configuration is determined by its two sets.\<close>

lemma conf_ok_eqI:
  assumes "conf_ok c" "conf_ok d" "set (voters c) = set (voters d)"
    "set (learners c) = set (learners d)"
  shows "c = d"
  using assms by (auto simp: conf_ok_def intro!: conf_state.equality strict_sorted_equal)

lemma conf_normalize_id: "conf_ok c \<Longrightarrow> conf_normalize c = c"
  using conf_okD(3) [of c]
  by (intro conf_ok_eqI) (auto simp: conf_normalize_ok conf_normalize_sets)

subsection \<open>Membership changes\<close>

datatype conf_change_kind = AddVoter | AddLearner | Remove

fun kind_tag :: "conf_change_kind \<Rightarrow> byte" where
  "kind_tag AddVoter = 1"
| "kind_tag AddLearner = 2"
| "kind_tag Remove = 3"

definition kind_from_tag :: "byte \<Rightarrow> conf_change_kind option" where
  "kind_from_tag b =
     (if b = 1 then Some AddVoter else if b = 2 then Some AddLearner
      else if b = 3 then Some Remove else None)"

record conf_change =
  cc_kind :: conf_change_kind
  cc_node :: node_id
  cc_context :: bytes

definition conf_change_new :: "conf_change_kind \<Rightarrow> node_id \<Rightarrow> conf_change" where
  "conf_change_new k n = \<lparr>cc_kind = k, cc_node = n, cc_context = []\<rparr>"

definition conf_change_encode :: "conf_change \<Rightarrow> bytes" where
  "conf_change_encode c = kind_tag (cc_kind c) # le_bytes 8 (cc_node c) @ cc_context c"

definition conf_change_decode :: "bytes \<Rightarrow> conf_change rresult" where
  "conf_change_decode d =
     (if length d < 9 then Err (CorruptConfChange (PayloadTooShort (length d)))
      else case kind_from_tag (d ! 0) of
        None \<Rightarrow> Err (CorruptConfChange (UnknownKindByte (d ! 0)))
      | Some k \<Rightarrow> Ok \<lparr>cc_kind = k, cc_node = of_le_bytes (take 8 (drop 1 d)),
                     cc_context = drop 9 d\<rparr>)"

definition entry_conf_change :: "rterm \<Rightarrow> index \<Rightarrow> conf_change \<Rightarrow> entry" where
  "entry_conf_change t i c =
     \<lparr>ent_term = t, ent_index = i, ent_kind = ConfChangeKind, ent_data = conf_change_encode c\<rparr>"

definition conf_change_apply_to :: "conf_change \<Rightarrow> conf_state \<Rightarrow> conf_state \<times> bool" where
  "conf_change_apply_to ch before =
     (let vs = filter (\<lambda>n. n \<noteq> cc_node ch) (voters before);
          ls = filter (\<lambda>n. n \<noteq> cc_node ch) (learners before);
          c = (case cc_kind ch of
                 AddVoter \<Rightarrow> \<lparr>voters = vs @ [cc_node ch], learners = ls\<rparr>
               | AddLearner \<Rightarrow> \<lparr>voters = vs, learners = ls @ [cc_node ch]\<rparr>
               | Remove \<Rightarrow> \<lparr>voters = vs, learners = ls\<rparr>);
          after = conf_normalize c
      in (after, after \<noteq> before))"

lemma kind_from_tag_inverse [simp]: "kind_from_tag (kind_tag k) = Some k"
  by (cases k) (simp_all add: kind_from_tag_def)

lemma kind_tag_inverse: "kind_from_tag b = Some k \<Longrightarrow> kind_tag k = b"
  by (auto simp: kind_from_tag_def split: if_splits)

lemma conf_change_encode_decode:
  assumes "conf_change_decode d = Ok c"
  shows "conf_change_encode c = d"
proof -
  from assms obtain k where len: "9 \<le> length d" and k: "kind_from_tag (d ! 0) = Some k"
    and c: "c = \<lparr>cc_kind = k, cc_node = of_le_bytes (take 8 (drop 1 d)), cc_context = drop 9 d\<rparr>"
    by (auto simp: conf_change_decode_def split: if_splits option.splits)
  have "length (take 8 (drop 1 d)) = 8" using len by simp
  with le_bytes_of_le_bytes [of "take 8 (drop 1 d)"]
  have le: "le_bytes 8 (of_le_bytes (take 8 (drop 1 d))) = take 8 (drop 1 d)" by simp
  obtain b bs where d: "d = b # bs" using len by (cases d) auto
  show ?thesis
    using le kind_tag_inverse [OF k] len unfolding c d
    by (simp add: conf_change_encode_def)
qed

lemma conf_change_apply_ok: "conf_ok (fst (conf_change_apply_to ch c))"
  by (simp add: conf_change_apply_to_def Let_def conf_normalize_ok)

lemma conf_change_apply_voters:
  "set (voters (fst (conf_change_apply_to ch c))) =
     (if cc_kind ch = AddVoter then insert (cc_node ch) (set (voters c))
      else set (voters c) - {cc_node ch})"
  by (cases "cc_kind ch") (auto simp: conf_change_apply_to_def Let_def conf_normalize_sets)

lemma conf_change_apply_learners:
  assumes "conf_ok c"
  shows "set (learners (fst (conf_change_apply_to ch c))) =
     (if cc_kind ch = AddLearner then insert (cc_node ch) (set (learners c))
      else set (learners c) - {cc_node ch})"
  using conf_okD(3) [OF assms]
  by (cases "cc_kind ch") (auto simp: conf_change_apply_to_def Let_def conf_normalize_sets)

lemma conf_change_apply_moved:
  "snd (conf_change_apply_to ch c) \<longleftrightarrow> fst (conf_change_apply_to ch c) \<noteq> c"
  by (simp add: conf_change_apply_to_def Let_def)

subsection \<open>Quorums\<close>

text \<open>
  What an election and a commit need of two majorities: a member in common. The client's argument
  (two majorities that each answer unanimously gave the same answer) is made once here.
\<close>

locale intersecting_quorums =
  fixes quorum1 :: "'n set \<Rightarrow> bool" and quorum2 :: "'n set \<Rightarrow> bool"
  assumes quorums_meet: "quorum1 P \<Longrightarrow> quorum2 Q \<Longrightarrow> P \<inter> Q \<noteq> {}"
begin

lemma quorums_agree:
  assumes "quorum1 P" "quorum2 Q" "\<forall>n \<in> P. answer n = a" "\<forall>n \<in> Q. answer n = b"
  shows "a = b"
  using quorums_meet [OF assms(1,2)] assms(3,4) by auto

end

definition conf_is_quorum :: "conf_state \<Rightarrow> node_id set \<Rightarrow> bool" where
  "conf_is_quorum c Q \<longleftrightarrow> Q \<subseteq> set (voters c) \<and> conf_quorum c \<le> card Q"

lemma card_sum_meet:
  assumes "finite U" "P \<subseteq> U" "Q \<subseteq> U" "card U < card P + card Q"
  shows "P \<inter> Q \<noteq> {}"
proof
  assume "P \<inter> Q = {}"
  with assms(1-3) have "card P + card Q = card (P \<union> Q)"
    by (simp add: card_Un_disjoint finite_subset)
  also have "\<dots> \<le> card U" using assms(1-3) by (simp add: card_mono)
  finally show False using assms(4) by simp
qed

lemma conf_is_quorum_card: "conf_is_quorum c Q \<Longrightarrow> card (set (voters c)) div 2 < card Q"
  using card_length [of "voters c"] div_le_mono [of "card (set (voters c))" "length (voters c)" 2]
  by (simp add: conf_is_quorum_def conf_quorum_def)

lemma card_insert_le_Suc: "card (insert x A) \<le> Suc (card A)"
  by (cases "finite A") (simp_all add: card_insert_if)

lemma conf_quorums_meet:
  assumes P: "conf_is_quorum c P" and Q: "conf_is_quorum d Q"
    and near: "set (voters d) \<subseteq> insert n (set (voters c))" "set (voters c) - {n} \<subseteq> set (voters d)"
  shows "P \<inter> Q \<noteq> {}"
proof -
  let ?U = "set (voters c) \<union> set (voters d)"
  let ?c = "card (set (voters c))" and ?d = "card (set (voters d))"
  have sub: "P \<subseteq> ?U" "Q \<subseteq> ?U" using P Q by (auto simp: conf_is_quorum_def)
  consider "?U = set (voters c)" "?U = set (voters d)"
    | "?U = set (voters c)" "set (voters c) = insert n (set (voters d))"
    | "?U = set (voters d)" "set (voters d) = insert n (set (voters c))"
    using near by fastforce
  then have "card ?U \<le> ?c div 2 + ?d div 2 + 1"
    using card_insert_le_Suc [of n "set (voters d)"] card_insert_le_Suc [of n "set (voters c)"]
    by cases auto
  with conf_is_quorum_card [OF P] conf_is_quorum_card [OF Q] show ?thesis
    by (intro card_sum_meet [OF _ sub]) auto
qed

interpretation same_conf: intersecting_quorums "conf_is_quorum c" "conf_is_quorum c" for c
  by unfold_locales (rule conf_quorums_meet, auto)

interpretation single_change:
  intersecting_quorums "conf_is_quorum c" "conf_is_quorum (fst (conf_change_apply_to ch c))" for c ch
  by unfold_locales
    (rule conf_quorums_meet [where n = "cc_node ch"], auto simp: conf_change_apply_voters split: if_splits)

subsection \<open>Properties\<close>

text \<open>A configuration change round-trips through its persisted payload: decoding an encoded
  change gives it back, and every payload that decodes is the encoding of what it decodes to, so
  no two payloads mean the same change.\<close>

theorem conf_change_roundtrip:
  "cc_node c \<le> u64_max \<Longrightarrow> conf_change_decode (conf_change_encode c) = Ok c
     \<and> (\<forall>d. conf_change_decode d = Ok c \<longleftrightarrow> d = conf_change_encode c)"
proof -
  assume n: "cc_node c \<le> u64_max"
  have "conf_change_decode (conf_change_encode c) = Ok c"
    using n by (simp add: conf_change_decode_def conf_change_encode_def)
  then show ?thesis using conf_change_encode_decode by blast
qed

theorem conf_change_roundtrip_witness:
  "conf_change_decode (conf_change_encode (conf_change_new AddLearner 72623859790382856))
     = Ok (conf_change_new AddLearner 72623859790382856)"
  using conf_change_roundtrip [of "conf_change_new AddLearner 72623859790382856"]
  by (simp add: conf_change_new_def u64_max_def)

text \<open>Applying a membership change twice changes nothing the second time, and the result is
  always sorted, free of duplicates and never lists a node in both roles.\<close>

theorem conf_change_apply_idempotent:
  "conf_ok (fst (conf_change_apply_to ch c))
   \<and> conf_change_apply_to ch (fst (conf_change_apply_to ch c)) = (fst (conf_change_apply_to ch c), False)"
proof -
  let ?c' = "fst (conf_change_apply_to ch c)"
  have ok: "conf_ok ?c'" by (rule conf_change_apply_ok)
  have "fst (conf_change_apply_to ch ?c') = ?c'"
    by (rule conf_ok_eqI [OF conf_change_apply_ok ok])
      (auto simp: conf_change_apply_voters conf_change_apply_learners [OF ok]
        conf_change_apply_to_def Let_def conf_normalize_sets split: conf_change_kind.splits)
  then show ?thesis using ok conf_change_apply_moved [of ch ?c'] by (simp add: prod_eq_iff)
qed

text \<open>C12. Single-server membership changes keep majorities intersecting: a quorum counted in
  a configuration and a quorum counted in the configuration one change later share a voter.\<close>

theorem single_server_quorums_meet:
  "conf_is_quorum c P \<Longrightarrow> conf_is_quorum (fst (conf_change_apply_to ch c)) Q \<Longrightarrow> P \<inter> Q \<noteq> {}"
  by (rule single_change.quorums_meet)

theorem single_server_quorums_meet_witness:
  "{1, 2} \<inter> {2, 3, 4} \<noteq> ({} :: node_id set)"
proof (rule single_server_quorums_meet [of "conf_from_voters [1, 2, 3]" _ "conf_change_new AddVoter 4"])
  show "conf_is_quorum (conf_from_voters [1, 2, 3]) {1, 2}"
    by (simp add: conf_is_quorum_def conf_quorum_def conf_from_voters_def conf_normalize_def)
  show "conf_is_quorum (fst (conf_change_apply_to (conf_change_new AddVoter 4) (conf_from_voters [1, 2, 3]))) {2, 3, 4}"
    by (simp add: conf_is_quorum_def conf_quorum_def conf_from_voters_def conf_normalize_def
      conf_change_apply_to_def conf_change_new_def)
qed

end
