(* ===== verification/RaftStorage.thy ===== *)
theory RaftStorage
  imports RaftTypes
begin

text \<open>
  The storage the Raft core reads (\<^verbatim>\<open>crates/esker-raft/src/storage.rs\<close>): the
  \<^verbatim>\<open>LogStorage\<close> trait as a record of its methods, and \<^verbatim>\<open>MemStorage\<close>, the implementation in
  the crate. What the core relies on is the locale \<open>log_storage_laws\<close>, interpreted on
  \<^verbatim>\<open>MemStorage\<close> at the end.
\<close>

subsection \<open>The trait\<close>

record initial_state =
  is_hard_state :: hard_state
  is_conf_state :: conf_state

record 's log_storage =
  st_initial_state :: "'s \<Rightarrow> initial_state rresult"
  st_entries :: "'s \<Rightarrow> index \<Rightarrow> index \<Rightarrow> u64 \<Rightarrow> entry list rresult"
  st_term :: "'s \<Rightarrow> index \<Rightarrow> rterm rresult"
  st_first_index :: "'s \<Rightarrow> index rresult"
  st_last_index :: "'s \<Rightarrow> index rresult"
  st_snapshot :: "'s \<Rightarrow> snapshot rresult"

text \<open>\<^verbatim>\<open>offset\<close> narrows a \<^verbatim>\<open>u64\<close> to a \<^verbatim>\<open>usize\<close>, which has the same width on the 64-bit targets
  the crate is built for.\<close>

definition offset :: "index \<Rightarrow> nat" where
  [simp]: "offset d = d"

text \<open>The loop that fills a batch up to a byte budget but never returns an empty one.\<close>

fun budget_loop :: "u64 \<Rightarrow> u64 \<Rightarrow> entry list \<Rightarrow> entry list \<Rightarrow> entry list" where
  "budget_loop max_bytes budget out [] = out"
| "budget_loop max_bytes budget out (e # es) =
     (let b = sat_add budget (entry_cost e) in
      if max_bytes < b \<and> out \<noteq> [] then out
      else budget_loop max_bytes b (out @ [e]) es)"

subsection \<open>The in-memory implementation\<close>

record mem_storage =
  ms_hard_state :: hard_state
  ms_conf_state :: conf_state
  ms_snapshot :: snapshot
  ms_entries :: "entry list"

definition mem_new :: mem_storage where
  "mem_new =
     \<lparr>ms_hard_state = \<lparr>hs_term = 0, hs_voted_for = None, hs_commit = 0\<rparr>,
      ms_conf_state = \<lparr>voters = [], learners = []\<rparr>,
      ms_snapshot = \<lparr>snap_meta = \<lparr>sm_index = 0, sm_term = 0,
        sm_conf = \<lparr>voters = [], learners = []\<rparr>\<rparr>, snap_data = []\<rparr>,
      ms_entries = []\<rparr>"

definition mem_with_conf_state :: "conf_state \<Rightarrow> mem_storage" where
  "mem_with_conf_state c = mem_new\<lparr>ms_conf_state := c\<rparr>"

definition compacted_index :: "mem_storage \<Rightarrow> index" where
  "compacted_index m = sm_index (snap_meta (ms_snapshot m))"

definition compacted_term :: "mem_storage \<Rightarrow> rterm" where
  "compacted_term m = sm_term (snap_meta (ms_snapshot m))"

definition mem_last :: "mem_storage \<Rightarrow> index" where
  "mem_last m = u64_add (compacted_index m) (length (ms_entries m))"

definition mem_append :: "mem_storage \<Rightarrow> entry list \<Rightarrow> mem_storage \<times> unit rresult" where
  "mem_append m es =
     (case es of [] \<Rightarrow> (m, Ok ())
      | f # _ \<Rightarrow>
        if ent_index (last es) \<le> compacted_index m then (m, Ok ())
        else if u64_add (mem_last m) 1 < ent_index f then (m, Err (Unavailable (u64_add (mem_last m) 1)))
        else
          let skip = (if ent_index f \<le> compacted_index m
                      then offset (u64_add (compacted_index m - ent_index f) 1) else 0);
              kept = drop (min skip (length es)) es
          in case kept of [] \<Rightarrow> (m, Ok ())
             | fk # _ \<Rightarrow>
               let at = offset (u64_sub (u64_sub (ent_index fk) (compacted_index m)) 1)
               in (m\<lparr>ms_entries := take at (ms_entries m) @ kept\<rparr>, Ok ()))"

definition mem_set_hard_state :: "mem_storage \<Rightarrow> hard_state \<Rightarrow> mem_storage" where
  "mem_set_hard_state m h = m\<lparr>ms_hard_state := h\<rparr>"

definition mem_set_conf_state :: "mem_storage \<Rightarrow> conf_state \<Rightarrow> mem_storage" where
  "mem_set_conf_state m c = m\<lparr>ms_conf_state := c\<rparr>"

definition mem_initial_state :: "mem_storage \<Rightarrow> initial_state rresult" where
  "mem_initial_state m = Ok \<lparr>is_hard_state = ms_hard_state m, is_conf_state = ms_conf_state m\<rparr>"

definition mem_entries :: "mem_storage \<Rightarrow> index \<Rightarrow> index \<Rightarrow> u64 \<Rightarrow> entry list rresult" where
  "mem_entries m low high max_bytes =
     (if low \<le> compacted_index m then Err (Compacted (compacted_index m))
      else if u64_add (mem_last m) 1 < high then Err (Unavailable (high - 1))
      else if high \<le> low then Ok []
      else
        let start = offset (low - compacted_index m - 1);
            stop = offset (high - compacted_index m - 1)
        in if length (ms_entries m) < stop then Err (Unavailable (high - 1))
           else Ok (budget_loop max_bytes 0 [] (take (stop - start) (drop start (ms_entries m)))))"

definition mem_term :: "mem_storage \<Rightarrow> index \<Rightarrow> rterm rresult" where
  "mem_term m i =
     (if i = compacted_index m then Ok (compacted_term m)
      else if i < compacted_index m then Err (Compacted (compacted_index m))
      else if mem_last m < i then Err (Unavailable i)
      else let at = offset (i - compacted_index m - 1) in
        if at < length (ms_entries m) then Ok (ent_term (ms_entries m ! at)) else Err (Unavailable i))"

definition mem_first_index :: "mem_storage \<Rightarrow> index rresult" where
  "mem_first_index m = Ok (u64_add (compacted_index m) 1)"

definition mem_last_index :: "mem_storage \<Rightarrow> index rresult" where
  "mem_last_index m = Ok (mem_last m)"

definition mem_snapshot :: "mem_storage \<Rightarrow> snapshot rresult" where
  "mem_snapshot m = Ok (ms_snapshot m)"

definition mem_apply_snapshot :: "mem_storage \<Rightarrow> snapshot \<Rightarrow> mem_storage \<times> unit rresult" where
  "mem_apply_snapshot m s =
     (let i = sm_index (snap_meta s) in
      if i \<le> compacted_index m then (m, Err (SnapshotOutOfDate i (compacted_index m)))
      else
        let keeps_tail = is_ok_and (\<lambda>t. t = sm_term (snap_meta s)) (mem_term m i);
            es = (if keeps_tail
                  then drop (min (offset (i - compacted_index m)) (length (ms_entries m))) (ms_entries m)
                  else []);
            hs = ms_hard_state m
        in (m\<lparr>ms_entries := es,
              ms_hard_state := hs\<lparr>hs_commit := max (hs_commit hs) i\<rparr>,
              ms_conf_state := sm_conf (snap_meta s),
              ms_snapshot := s\<rparr>, Ok ()))"

definition mem_compact :: "mem_storage \<Rightarrow> index \<Rightarrow> mem_storage \<times> unit rresult" where
  "mem_compact m i =
     (if i \<le> compacted_index m then (m, Err (Compacted (compacted_index m)))
      else if mem_last m < i then (m, Err (Unavailable i))
      else case mem_term m i of
        Err e \<Rightarrow> (m, Err e)
      | Ok t \<Rightarrow>
        let covered = min (offset (i - compacted_index m)) (length (ms_entries m)) in
        (m\<lparr>ms_entries := drop covered (ms_entries m),
           ms_snapshot := (ms_snapshot m)\<lparr>snap_meta :=
             \<lparr>sm_index = i, sm_term = t, sm_conf = ms_conf_state m\<rparr>\<rparr>\<rparr>, Ok ()))"

definition mem_log_storage :: "mem_storage log_storage" where
  "mem_log_storage =
     \<lparr>st_initial_state = mem_initial_state, st_entries = mem_entries, st_term = mem_term,
      st_first_index = mem_first_index, st_last_index = mem_last_index, st_snapshot = mem_snapshot\<rparr>"

subsection \<open>Contiguous runs of entries\<close>

fun contiguous :: "index \<Rightarrow> entry list \<Rightarrow> bool" where
  "contiguous i [] = True"
| "contiguous i (e # es) = (ent_index e = i \<and> contiguous (Suc i) es)"

lemma contiguous_append [simp]:
  "contiguous i (xs @ ys) \<longleftrightarrow> contiguous i xs \<and> contiguous (i + length xs) ys"
  by (induction xs arbitrary: i) auto

lemma contiguous_nth: "contiguous i es \<Longrightarrow> k < length es \<Longrightarrow> ent_index (es ! k) = i + k"
  by (induction es arbitrary: i k) (auto simp: nth_Cons split: nat.splits)

lemma contiguous_take: "contiguous i es \<Longrightarrow> contiguous i (take k es)"
  by (metis append_take_drop_id contiguous_append)

lemma contiguous_drop: "contiguous i es \<Longrightarrow> k \<le> length es \<Longrightarrow> contiguous (i + k) (drop k es)"
  by (metis append_take_drop_id contiguous_append length_take min.absorb2)

lemma contiguous_last: "contiguous i es \<Longrightarrow> es \<noteq> [] \<Longrightarrow> ent_index (last es) = i + (length es - 1)"
  by (simp add: last_conv_nth contiguous_nth)

lemma contiguous_hd: "contiguous i es \<Longrightarrow> es \<noteq> [] \<Longrightarrow> ent_index (hd es) = i"
  by (cases es) auto

subsection \<open>The budget loop\<close>

lemma budget_loop_prefix:
  "\<exists>k \<le> length es. budget_loop m b out es = out @ take k es \<and> (out = [] \<longrightarrow> es \<noteq> [] \<longrightarrow> 0 < k)"
proof (induction es arbitrary: b out)
  case (Cons e es)
  let ?b = "sat_add b (entry_cost e)"
  show ?case
  proof (cases "m < ?b \<and> out \<noteq> []")
    case True
    then show ?thesis by (intro exI [of _ 0]) (simp add: Let_def)
  next
    case False
    obtain k where "k \<le> length es" "budget_loop m ?b (out @ [e]) es = (out @ [e]) @ take k es"
      using Cons [of ?b "out @ [e]"] by blast
    with False show ?thesis by (intro exI [of _ "Suc k"]) (auto simp: Let_def)
  qed
qed simp

lemma budget_loop_unbounded: "budget_loop u64_max b out es = out @ es"
  by (induction es arbitrary: b out) (auto simp: Let_def sat_add_def)

subsection \<open>What the core relies on\<close>

text \<open>
  \<open>base\<close> is the compaction boundary, \<open>base_term\<close> the term recorded there and \<open>ents\<close> the
  entries above it: the trait's documentation says what each method answers in those terms.
\<close>

locale log_storage_laws =
  fixes S :: "'s log_storage"
    and st_ok :: "'s \<Rightarrow> bool"
    and base :: "'s \<Rightarrow> index"
    and base_term :: "'s \<Rightarrow> rterm"
    and ents :: "'s \<Rightarrow> entry list"
  assumes first_index_law: "st_ok s \<Longrightarrow> st_first_index S s = Ok (Suc (base s))"
    and last_index_law: "st_ok s \<Longrightarrow> st_last_index S s = Ok (base s + length (ents s))"
    and term_at_base: "st_ok s \<Longrightarrow> st_term S s (base s) = Ok (base_term s)"
    and term_below_base: "st_ok s \<Longrightarrow> i < base s \<Longrightarrow> \<exists>c. st_term S s i = Err (Compacted c)"
    and term_of_entry: "st_ok s \<Longrightarrow> k < length (ents s) \<Longrightarrow>
      st_term S s (Suc (base s + k)) = Ok (ent_term (ents s ! k))"
    and term_above: "st_ok s \<Longrightarrow> base s + length (ents s) < i \<Longrightarrow>
      st_term S s i = Err (Unavailable i)"
    and entries_law: "st_ok s \<Longrightarrow> base s < low \<Longrightarrow> low < high \<Longrightarrow>
      high \<le> Suc (base s + length (ents s)) \<Longrightarrow>
      \<exists>k > 0. st_entries S s low high m = Ok (take k (take (high - low) (drop (low - Suc (base s)) (ents s))))"
    and entries_unbounded: "st_ok s \<Longrightarrow> base s < low \<Longrightarrow> low < high \<Longrightarrow>
      high \<le> Suc (base s + length (ents s)) \<Longrightarrow>
      st_entries S s low high u64_max = Ok (take (high - low) (drop (low - Suc (base s)) (ents s)))"
    and entries_below: "st_ok s \<Longrightarrow> low \<le> base s \<Longrightarrow> \<exists>c. st_entries S s low high m = Err (Compacted c)"
    and contiguous_law: "st_ok s \<Longrightarrow> contiguous (Suc (base s)) (ents s)"
    and bounded_law: "st_ok s \<Longrightarrow> base s + length (ents s) < u64_max"

subsection \<open>The in-memory log keeps them\<close>

definition mem_ok :: "mem_storage \<Rightarrow> bool" where
  "mem_ok m \<longleftrightarrow> contiguous (Suc (compacted_index m)) (ms_entries m)
     \<and> compacted_index m + length (ms_entries m) < u64_max"

lemma mem_last_eq: "mem_ok m \<Longrightarrow> mem_last m = compacted_index m + length (ms_entries m)"
  by (simp add: mem_last_def mem_ok_def u64_simps)

lemma mem_ok_Suc_last: "mem_ok m \<Longrightarrow> u64_add (mem_last m) 1 = Suc (mem_last m)"
  by (simp add: mem_last_eq mem_ok_def u64_simps)

lemma mem_entries_eq:
  assumes "mem_ok m" "compacted_index m < low" "low < high"
    "high \<le> Suc (compacted_index m + length (ms_entries m))"
  shows "mem_entries m low high b =
    Ok (budget_loop b 0 [] (take (high - low) (drop (low - Suc (compacted_index m)) (ms_entries m))))"
proof -
  have "high - compacted_index m - 1 - (low - compacted_index m - 1) = high - low"
    using assms by simp
  with assms mem_ok_Suc_last [OF assms(1)] mem_last_eq [OF assms(1)] show ?thesis
    by (simp add: mem_entries_def Let_def)
qed

interpretation mem: log_storage_laws mem_log_storage mem_ok compacted_index compacted_term ms_entries
proof unfold_locales
  fix s i assume ok: "mem_ok s"
  show "st_first_index mem_log_storage s = Ok (Suc (compacted_index s))"
    using ok by (simp add: mem_log_storage_def mem_first_index_def mem_ok_def u64_simps)
  show "st_last_index mem_log_storage s = Ok (compacted_index s + length (ms_entries s))"
    using ok by (simp add: mem_log_storage_def mem_last_index_def mem_last_eq)
  show "st_term mem_log_storage s (compacted_index s) = Ok (compacted_term s)"
    by (simp add: mem_log_storage_def mem_term_def)
  show "\<exists>c. st_term mem_log_storage s i = Err (Compacted c)" if "i < compacted_index s"
    using that by (simp add: mem_log_storage_def mem_term_def)
  show "st_term mem_log_storage s (Suc (compacted_index s + k)) = Ok (ent_term (ms_entries s ! k))"
    if "k < length (ms_entries s)" for k
    using that ok by (simp add: mem_log_storage_def mem_term_def mem_last_eq)
  show "st_term mem_log_storage s i = Err (Unavailable i)"
    if "compacted_index s + length (ms_entries s) < i"
    using that ok by (simp add: mem_log_storage_def mem_term_def mem_last_eq)
  show "contiguous (Suc (compacted_index s)) (ms_entries s)"
    and "compacted_index s + length (ms_entries s) < u64_max"
    using ok by (simp_all add: mem_ok_def)
next
  fix s low high m
  assume ok: "mem_ok s" "compacted_index s < low" "low < high"
    "high \<le> Suc (compacted_index s + length (ms_entries s))"
  let ?w = "take (high - low) (drop (low - Suc (compacted_index s)) (ms_entries s))"
  have ne: "?w \<noteq> []" using ok by auto
  obtain k where "budget_loop m 0 [] ?w = take k ?w" "0 < k"
    using budget_loop_prefix [of ?w m 0 "[]"] ne by auto
  then show "\<exists>k > 0. st_entries mem_log_storage s low high m = Ok (take k ?w)"
    using mem_entries_eq [OF ok] by (auto simp: mem_log_storage_def)
  show "st_entries mem_log_storage s low high u64_max = Ok ?w"
    using mem_entries_eq [OF ok] by (simp add: mem_log_storage_def budget_loop_unbounded)
next
  fix s low high m
  assume "mem_ok s" "low \<le> compacted_index s"
  then show "\<exists>c. st_entries mem_log_storage s low high m = Err (Compacted c)"
    by (simp add: mem_log_storage_def mem_entries_def)
qed

subsection \<open>The writes a driver performs\<close>

lemma mem_append_eq:
  assumes ok: "mem_ok m" and c: "contiguous f es" and ne: "es \<noteq> []"
    and f: "compacted_index m < f" "f \<le> Suc (compacted_index m + length (ms_entries m))"
  shows "mem_append m es =
    (m\<lparr>ms_entries := take (f - Suc (compacted_index m)) (ms_entries m) @ es\<rparr>, Ok ())"
proof -
  obtain e rest where es: "es = e # rest" and e: "ent_index e = f"
    using c ne by (cases es) auto
  have "f \<le> ent_index (last es)" using contiguous_last [OF c ne] by simp
  then have "\<not> ent_index (last es) \<le> compacted_index m" using f by simp
  with e f es mem_ok_Suc_last [OF ok] mem_last_eq [OF ok] show ?thesis
    by (simp add: mem_append_def Let_def u64_simps)
qed

lemma mem_append_ok:
  assumes "mem_ok m" "contiguous f es" "compacted_index m < f"
    "f \<le> Suc (compacted_index m + length (ms_entries m))" "f + length es \<le> u64_max"
  shows "mem_ok (m\<lparr>ms_entries := take (f - Suc (compacted_index m)) (ms_entries m) @ es\<rparr>)"
  using assms by (auto simp: mem_ok_def compacted_index_def contiguous_take)

text \<open>What the driver appends is what the core reads back: after a contiguous batch that
  starts no further than one past the end, the in-memory log holds its old entries below the batch
  and the batch, drops everything the batch replaces, and stays well formed.\<close>

theorem mem_append_spec:
  assumes "mem_ok m" "contiguous f es" "es \<noteq> []" "compacted_index m < f"
    "f \<le> Suc (mem_last m)" "f + length es \<le> u64_max"
  shows "\<exists>m'. mem_append m es = (m', Ok ()) \<and> mem_ok m'
    \<and> compacted_index m' = compacted_index m
    \<and> mem_last m' = f + length es - 1
    \<and> (\<forall>k < length es. mem_term m' (f + k) = Ok (ent_term (es ! k)))
    \<and> (\<forall>i. compacted_index m \<le> i \<longrightarrow> i < f \<longrightarrow> mem_term m' i = mem_term m i)"
proof -
  let ?m' = "m\<lparr>ms_entries := take (f - Suc (compacted_index m)) (ms_entries m) @ es\<rparr>"
  note last = mem_last_eq [OF assms(1)]
  have ci: "compacted_index ?m' = compacted_index m" and ct: "compacted_term ?m' = compacted_term m"
    by (simp_all add: compacted_index_def compacted_term_def)
  have app: "mem_append m es = (?m', Ok ())"
    using assms last by (intro mem_append_eq) auto
  have ok: "mem_ok ?m'" using assms last by (intro mem_append_ok) auto
  have last': "mem_last ?m' = f + length es - 1"
    using assms(3-5) last by (simp add: mem_last_eq [OF ok] ci)
  have new: "mem_term ?m' (f + k) = Ok (ent_term (es ! k))" if "k < length es" for k
    using that assms(3-5) last by (simp add: mem_term_def ci last' Let_def nth_append) arith
  have old: "mem_term ?m' i = mem_term m i" if "compacted_index m \<le> i" "i < f" for i
    using that assms(3-5) last by (auto simp: mem_term_def ci ct last' Let_def nth_append)
  from app ok ci last' new old show ?thesis by blast
qed

theorem mem_append_spec_witness:
  "\<exists>m'. mem_append (mem_new\<lparr>ms_entries := [entry_empty 1 1, entry_empty 1 2]\<rparr>) [entry_empty 2 2] = (m', Ok ())
     \<and> mem_last m' = 2 \<and> mem_term m' 2 = Ok 2"
proof -
  let ?m = "mem_new\<lparr>ms_entries := [entry_empty 1 1, entry_empty 1 2]\<rparr>"
  have ok: "mem_ok ?m"
    by (simp add: mem_ok_def mem_new_def compacted_index_def entry_empty_def entry_normal_def u64_max_def)
  have last: "mem_last ?m = 2" by (simp add: mem_last_def compacted_index_def mem_new_def u64_add_def u64_max_def)
  have base: "compacted_index ?m = 0" by (simp add: compacted_index_def mem_new_def)
  have one: "contiguous 2 [entry_empty 2 2]" by (simp add: entry_empty_def entry_normal_def)
  from mem_append_spec [OF ok one, unfolded last base]
  obtain m' where m': "mem_append ?m [entry_empty 2 2] = (m', Ok ())" "mem_last m' = 2"
    "\<forall>k < length [entry_empty 2 2]. mem_term m' (2 + k) = Ok (ent_term ([entry_empty 2 2] ! k))"
    by (auto simp: u64_max_def)
  from m'(3) have "mem_term m' 2 = Ok 2" by (simp add: entry_empty_def entry_normal_def)
  with m' show ?thesis by blast
qed

end
