(* ===== verification/RaftLog.thy ===== *)
theory RaftLog
  imports RaftStorage
begin

text \<open>
  The log as the core sees it (\<^verbatim>\<open>crates/esker-raft/src/log.rs\<close>): a durable prefix in a
  storage, a tail that is decided but not yet written, and possibly a snapshot that replaces the
  prefix. Every method of \<^verbatim>\<open>RaftLog<S>\<close> takes the storage's methods \<open>S\<close> as its first
  argument. A method that mutates the log returns the new log, and where it can fail also the
  result, so that what a failing call leaves behind is part of the model.
\<close>

subsection \<open>State and operations\<close>

record append_outcome =
  ao_last :: index
  ao_spliced_from :: "index option"
  ao_truncated :: bool

record 's raft_log =
  lg_store :: 's
  lg_unstable :: "entry list"
  lg_unstable_offset :: index
  lg_unstable_snapshot :: "snapshot option"
  lg_committed :: index
  lg_applied :: index

definition log_new :: "'s log_storage \<Rightarrow> 's \<Rightarrow> index \<Rightarrow> 's raft_log rresult" where
  "log_new S store applied =
     (case st_last_index S store of Err e \<Rightarrow> Err e | Ok lst \<Rightarrow>
      case st_initial_state S store of Err e \<Rightarrow> Err e | Ok initial \<Rightarrow>
      case st_first_index S store of Err e \<Rightarrow> Err e | Ok first \<Rightarrow>
      Ok \<lparr>lg_store = store, lg_unstable = [], lg_unstable_offset = u64_add lst 1,
          lg_unstable_snapshot = None,
          lg_committed = max (hs_commit (is_hard_state initial)) (first - 1),
          lg_applied = max applied (first - 1)\<rparr>)"

definition log_first_index :: "'s log_storage \<Rightarrow> 's raft_log \<Rightarrow> index rresult" where
  "log_first_index S l =
     (case lg_unstable_snapshot l of
        Some s \<Rightarrow> Ok (u64_add (sm_index (snap_meta s)) 1)
      | None \<Rightarrow> st_first_index S (lg_store l))"

definition log_last_index :: "'s log_storage \<Rightarrow> 's raft_log \<Rightarrow> index rresult" where
  "log_last_index S l =
     (if lg_unstable l \<noteq> [] then Ok (ent_index (last (lg_unstable l)))
      else case lg_unstable_snapshot l of
        Some s \<Rightarrow> Ok (sm_index (snap_meta s))
      | None \<Rightarrow> st_last_index S (lg_store l))"

definition log_term :: "'s log_storage \<Rightarrow> 's raft_log \<Rightarrow> index \<Rightarrow> rterm rresult" where
  "log_term S l i =
     (if lg_unstable_offset l \<le> i then
        (let at = offset (i - lg_unstable_offset l) in
         if at < length (lg_unstable l) then Ok (ent_term (lg_unstable l ! at))
         else Err (Unavailable i))
      else case lg_unstable_snapshot l of
        Some s \<Rightarrow>
          if i = sm_index (snap_meta s) then Ok (sm_term (snap_meta s))
          else if i < sm_index (snap_meta s) then Err (Compacted (sm_index (snap_meta s)))
          else st_term S (lg_store l) i
      | None \<Rightarrow> st_term S (lg_store l) i)"

definition log_last_term :: "'s log_storage \<Rightarrow> 's raft_log \<Rightarrow> rterm" where
  "log_last_term S l =
     unwrap_or 0 (case log_last_index S l of Err e \<Rightarrow> Err e | Ok i \<Rightarrow> log_term S l i)"

definition log_is_up_to_date :: "'s log_storage \<Rightarrow> 's raft_log \<Rightarrow> index \<Rightarrow> rterm \<Rightarrow> bool" where
  "log_is_up_to_date S l last_index last_term \<longleftrightarrow>
     (let own_term = log_last_term S l in
      own_term < last_term
      \<or> (last_term = own_term \<and> unwrap_or 0 (log_last_index S l) \<le> last_index))"

definition log_matches :: "'s log_storage \<Rightarrow> 's raft_log \<Rightarrow> index \<Rightarrow> rterm \<Rightarrow> bool" where
  "log_matches S l i t \<longleftrightarrow> is_ok_and (\<lambda>own. own = t) (log_term S l i)"

definition log_truncate_and_append :: "'s raft_log \<Rightarrow> entry list \<Rightarrow> 's raft_log" where
  "log_truncate_and_append l es =
     (case es of [] \<Rightarrow> l
      | e # _ \<Rightarrow>
        let first = ent_index e in
        if u64_add (lg_unstable_offset l) (length (lg_unstable l)) \<le> first then
          l\<lparr>lg_unstable_offset := (if lg_unstable l = [] then first else lg_unstable_offset l),
            lg_unstable := lg_unstable l @ es\<rparr>
        else if first \<le> lg_unstable_offset l then
          l\<lparr>lg_unstable_offset := first, lg_unstable := es\<rparr>
        else
          l\<lparr>lg_unstable := take (offset (first - lg_unstable_offset l)) (lg_unstable l) @ es\<rparr>)"

text \<open>\<^verbatim>\<open>RaftLog::append\<close>: the debug assertion is compiled out of the release build.\<close>

definition log_append :: "'s log_storage \<Rightarrow> 's raft_log \<Rightarrow> entry list \<Rightarrow> 's raft_log \<times> index rresult" where
  "log_append S l es =
     (if es = [] then (l, log_last_index S l)
      else let l' = log_truncate_and_append l es in (l', log_last_index S l'))"

definition log_commit_to :: "'s log_storage \<Rightarrow> 's raft_log \<Rightarrow> index \<Rightarrow> 's raft_log \<times> unit rresult" where
  "log_commit_to S l i =
     (if i \<le> lg_committed l then (l, Ok ())
      else case log_last_index S l of
        Err e \<Rightarrow> (l, Err e)
      | Ok lst \<Rightarrow>
        if lst < i then (l, Err (Unavailable i)) else (l\<lparr>lg_committed := i\<rparr>, Ok ()))"

fun find_conflict_loop ::
  "'s log_storage \<Rightarrow> 's raft_log \<Rightarrow> index \<Rightarrow> nat \<Rightarrow> entry list \<Rightarrow> (nat \<times> index) option" where
  "find_conflict_loop S l lst at [] = None"
| "find_conflict_loop S l lst at (e # es) =
     (if lst < ent_index e then Some (at, ent_index e)
      else case log_term S l (ent_index e) of
        Ok t \<Rightarrow> if t = ent_term e then find_conflict_loop S l lst (Suc at) es
               else Some (at, ent_index e)
      | Err err \<Rightarrow> if is_compacted err then find_conflict_loop S l lst (Suc at) es
                  else Some (at, ent_index e))"

definition log_find_conflict ::
  "'s log_storage \<Rightarrow> 's raft_log \<Rightarrow> entry list \<Rightarrow> (nat \<times> index) option rresult" where
  "log_find_conflict S l es =
     (case log_last_index S l of Err e \<Rightarrow> Err e
      | Ok lst \<Rightarrow> Ok (find_conflict_loop S l lst 0 es))"

definition log_maybe_append ::
  "'s log_storage \<Rightarrow> 's raft_log \<Rightarrow> index \<Rightarrow> rterm \<Rightarrow> index \<Rightarrow> entry list
     \<Rightarrow> 's raft_log \<times> append_outcome option rresult" where
  "log_maybe_append S l prev_index prev_term committed es =
     (if \<not> log_matches S l prev_index prev_term then (l, Ok None)
      else
        let last_new = (if es = [] then prev_index else ent_index (last es));
            finish = (\<lambda>l spliced trunc.
              case log_commit_to S l (min committed last_new) of
                (l', Err e) \<Rightarrow> (l', Err e)
              | (l', Ok _) \<Rightarrow> (l', Ok (Some \<lparr>ao_last = last_new, ao_spliced_from = spliced,
                                               ao_truncated = trunc\<rparr>)))
        in case log_find_conflict S l es of
             Err e \<Rightarrow> (l, Err e)
           | Ok None \<Rightarrow> finish l None False
           | Ok (Some (at, conflict)) \<Rightarrow>
               if conflict \<le> lg_committed l
               then (l, Err (Storage (AppendConflictsCommitted conflict (lg_committed l))))
               else case log_last_index S l of
                 Err e \<Rightarrow> (l, Err e)
               | Ok lst \<Rightarrow>
                 finish (log_truncate_and_append l (drop at es)) (Some conflict) (conflict \<le> lst))"

fun slice_loop ::
  "u64 \<Rightarrow> index \<Rightarrow> entry list \<Rightarrow> u64 \<Rightarrow> entry list \<Rightarrow> index list \<Rightarrow> entry list rresult" where
  "slice_loop max_bytes off unstable budget out [] = Ok out"
| "slice_loop max_bytes off unstable budget out (i # is) =
     (let at = offset (i - off) in
      if length unstable \<le> at then Err (Unavailable i)
      else
        let b = sat_add budget (entry_cost (unstable ! at)) in
        if max_bytes < b \<and> out \<noteq> [] then Ok out
        else slice_loop max_bytes off unstable b (out @ [unstable ! at]) is)"

definition log_slice ::
  "'s log_storage \<Rightarrow> 's raft_log \<Rightarrow> index \<Rightarrow> index \<Rightarrow> u64 \<Rightarrow> entry list rresult" where
  "log_slice S l low high max_bytes =
     (if high \<le> low then Ok []
      else
        let rest = (\<lambda>budget out.
              slice_loop max_bytes (lg_unstable_offset l) (lg_unstable l) budget out
                [max low (lg_unstable_offset l)..<high])
        in if low < lg_unstable_offset l then
             let stable_high = min high (lg_unstable_offset l) in
             case st_entries S (lg_store l) low stable_high max_bytes of
               Err e \<Rightarrow> Err e
             | Ok out \<Rightarrow>
               if length out \<noteq> stable_high - low then Ok out
               else rest (foldl u64_add 0 (map entry_cost out)) out
           else rest 0 [])"

definition log_next_committed :: "'s log_storage \<Rightarrow> 's raft_log \<Rightarrow> u64 \<Rightarrow> entry list rresult" where
  "log_next_committed S l max_bytes =
     (if lg_committed l \<le> lg_applied l then Ok []
      else log_slice S l (u64_add (lg_applied l) 1) (u64_add (lg_committed l) 1) max_bytes)"

definition log_stable_to :: "'s log_storage \<Rightarrow> 's raft_log \<Rightarrow> index \<Rightarrow> rterm \<Rightarrow> 's raft_log" where
  "log_stable_to S l i t =
     (if \<not> is_ok_and (\<lambda>own. own = t) (log_term S l i) then l
      else if i < lg_unstable_offset l then l
      else
        let consumed = offset (u64_sub (u64_add i 1) (lg_unstable_offset l)) in
        if length (lg_unstable l) \<le> consumed
        then l\<lparr>lg_unstable := [], lg_unstable_offset := u64_add i 1\<rparr>
        else l\<lparr>lg_unstable := drop consumed (lg_unstable l), lg_unstable_offset := u64_add i 1\<rparr>)"

definition log_stable_snapshot_to :: "'s raft_log \<Rightarrow> index \<Rightarrow> 's raft_log" where
  "log_stable_snapshot_to l i =
     (case lg_unstable_snapshot l of
        None \<Rightarrow> l
      | Some s \<Rightarrow> if sm_index (snap_meta s) = i then l\<lparr>lg_unstable_snapshot := None\<rparr> else l)"

definition log_applied_to :: "'s raft_log \<Rightarrow> index \<Rightarrow> 's raft_log" where
  "log_applied_to l i = l\<lparr>lg_applied := min (max (lg_applied l) i) (lg_committed l)\<rparr>"

definition log_should_restore :: "'s log_storage \<Rightarrow> 's raft_log \<Rightarrow> snapshot \<Rightarrow> bool" where
  "log_should_restore S l s =
     (if sm_index (snap_meta s) = u64_max then False
      else if sm_index (snap_meta s) \<le> lg_committed l then False
      else \<not> log_matches S l (sm_index (snap_meta s)) (sm_term (snap_meta s)))"

definition log_restore :: "'s raft_log \<Rightarrow> snapshot \<Rightarrow> 's raft_log" where
  "log_restore l s =
     l\<lparr>lg_committed := sm_index (snap_meta s),
       lg_applied := max (lg_applied l) (sm_index (snap_meta s)),
       lg_unstable := [],
       lg_unstable_offset := sat_add (sm_index (snap_meta s)) 1,
       lg_unstable_snapshot := Some s\<rparr>"

definition log_snapshot :: "'s log_storage \<Rightarrow> 's raft_log \<Rightarrow> snapshot rresult" where
  "log_snapshot S l =
     (case lg_unstable_snapshot l of
        Some s \<Rightarrow> Ok s
      | None \<Rightarrow> st_snapshot S (lg_store l))"

subsection \<open>The log it stands for\<close>

text \<open>
  The boundary the log starts after, the term recorded there, and the entries above it. The three
  functions read the storage through \<open>bs\<close>, \<open>bt\<close> and \<open>en\<close>, which an implementation of the trait
  provides.
\<close>

definition log_base :: "('s \<Rightarrow> index) \<Rightarrow> 's raft_log \<Rightarrow> index" where
  "log_base bs l = (case lg_unstable_snapshot l of Some s \<Rightarrow> sm_index (snap_meta s) | None \<Rightarrow> bs (lg_store l))"

definition log_base_term :: "('s \<Rightarrow> rterm) \<Rightarrow> 's raft_log \<Rightarrow> rterm" where
  "log_base_term bt l = (case lg_unstable_snapshot l of Some s \<Rightarrow> sm_term (snap_meta s) | None \<Rightarrow> bt (lg_store l))"

definition log_ents :: "('s \<Rightarrow> index) \<Rightarrow> ('s \<Rightarrow> entry list) \<Rightarrow> 's raft_log \<Rightarrow> entry list" where
  "log_ents bs en l =
     (case lg_unstable_snapshot l of
        Some _ \<Rightarrow> lg_unstable l
      | None \<Rightarrow> take (lg_unstable_offset l - Suc (bs (lg_store l))) (en (lg_store l)) @ lg_unstable l)"

text \<open>The invariant the module's documentation states.\<close>

definition log_shape_ok :: "('s \<Rightarrow> bool) \<Rightarrow> ('s \<Rightarrow> index) \<Rightarrow> ('s \<Rightarrow> entry list) \<Rightarrow> 's raft_log \<Rightarrow> bool" where
  "log_shape_ok ok bs en l \<longleftrightarrow>
     ok (lg_store l)
     \<and> contiguous (lg_unstable_offset l) (lg_unstable l)
     \<and> (case lg_unstable_snapshot l of
          Some s \<Rightarrow> lg_unstable_offset l = Suc (sm_index (snap_meta s))
        | None \<Rightarrow> bs (lg_store l) < lg_unstable_offset l
            \<and> lg_unstable_offset l \<le> Suc (bs (lg_store l) + length (en (lg_store l)))
            \<and> (lg_unstable l = [] \<longrightarrow>
                lg_unstable_offset l = Suc (bs (lg_store l) + length (en (lg_store l)))))
     \<and> log_base bs l + length (log_ents bs en l) < u64_max"

definition log_ok :: "('s \<Rightarrow> bool) \<Rightarrow> ('s \<Rightarrow> index) \<Rightarrow> ('s \<Rightarrow> entry list) \<Rightarrow> 's raft_log \<Rightarrow> bool" where
  "log_ok ok bs en l \<longleftrightarrow> log_shape_ok ok bs en l
     \<and> log_base bs l \<le> lg_committed l
     \<and> lg_committed l \<le> log_base bs l + length (log_ents bs en l)
     \<and> lg_applied l \<le> lg_committed l"

subsection \<open>What the operations do to it\<close>

lemma truncate_and_append_fields [simp]:
  "lg_store (log_truncate_and_append l es) = lg_store l"
  "lg_unstable_snapshot (log_truncate_and_append l es) = lg_unstable_snapshot l"
  "lg_committed (log_truncate_and_append l es) = lg_committed l"
  "lg_applied (log_truncate_and_append l es) = lg_applied l"
  by (auto simp: log_truncate_and_append_def Let_def split: list.splits)

lemma slice_loop_budget:
  "off \<le> i \<Longrightarrow> h - off \<le> length un \<Longrightarrow>
    slice_loop m off un b out [i..<h] = Ok (budget_loop m b out (take (h - i) (drop (i - off) un)))"
proof (induction "h - i" arbitrary: i b out)
  case (Suc k)
  then have u: "[i..<h] = i # [Suc i..<h]" and at: "i - off < length un" by (auto simp: upt_conv_Cons)
  have d: "take (h - i) (drop (i - off) un) = un ! (i - off) # take (h - Suc i) (drop (Suc i - off) un)"
    using Suc.prems at diff_Suc_1 [of k] unfolding Suc.hyps(2) [symmetric]
    by (simp add: Cons_nth_drop_Suc [symmetric] Suc_diff_le Suc.hyps(2) [symmetric] del: drop_Suc) (metis Suc.hyps(2) diff_Suc_1 diff_Suc_eq_diff_pred diff_commute)
  from Suc show ?case using at by (simp add: u d Let_def)
qed simp

lemma budget_loop_nonempty: "out \<noteq> [] \<or> es \<noteq> [] \<Longrightarrow> budget_loop m b out es \<noteq> []"
  using budget_loop_prefix [of es m b out] by auto

context log_storage_laws
begin

abbreviation shape where "shape \<equiv> log_shape_ok st_ok base ents"
abbreviation lok where "lok \<equiv> log_ok st_ok base ents"
abbreviation lb where "lb \<equiv> log_base base"
abbreviation lbt where "lbt \<equiv> log_base_term base_term"
abbreviation le where "le \<equiv> log_ents base ents"

lemma shape_store: "shape l \<Longrightarrow> st_ok (lg_store l)"
  by (simp add: log_shape_ok_def)

lemma shape_bound: "shape l \<Longrightarrow> lb l + length (le l) < u64_max"
  by (simp add: log_shape_ok_def)

lemma shape_contiguous:
  "shape l \<Longrightarrow> contiguous (Suc (lb l)) (le l)"
  using contiguous_law [of "lg_store l"] contiguous_take
  by (auto simp: log_shape_ok_def log_base_def log_ents_def split: option.splits)

lemma shape_offset:
  assumes "shape l"
  shows "lb l < lg_unstable_offset l"
    and "lg_unstable_offset l + length (lg_unstable l) = Suc (lb l + length (le l))"
    and "lg_unstable l = drop (lg_unstable_offset l - Suc (lb l)) (le l)"
  using assms by (auto simp: log_shape_ok_def log_base_def log_ents_def split: option.splits)

lemma log_first_index_eq:
  assumes "shape l"
  shows "log_first_index S l = Ok (Suc (lb l))"
  using assms shape_bound [OF assms] first_index_law [OF shape_store [OF assms]]
  by (auto simp: log_first_index_def log_base_def u64_simps split: option.splits)

lemma log_last_index_eq:
  assumes "shape l"
  shows "log_last_index S l = Ok (lb l + length (le l))"
proof (cases "lg_unstable l = []")
  case True
  with assms last_index_law [OF shape_store [OF assms]] show ?thesis
    by (auto simp: log_last_index_def log_shape_ok_def log_base_def log_ents_def split: option.splits)
next
  case False
  have "contiguous (lg_unstable_offset l) (lg_unstable l)" using assms by (simp add: log_shape_ok_def)
  from contiguous_last [OF this False] shape_offset(2) [OF assms] False show ?thesis
    by (cases "lg_unstable l") (auto simp: log_last_index_def)
qed

lemma log_term_base:
  assumes "shape l"
  shows "log_term S l (lb l) = Ok (lbt l)"
  using assms term_at_base [OF shape_store [OF assms]]
  by (auto simp: log_term_def log_shape_ok_def log_base_def log_base_term_def split: option.splits)

lemma log_term_below:
  assumes "shape l" "i < lb l"
  shows "\<exists>c. log_term S l i = Err (Compacted c)"
  using assms term_below_base [OF shape_store [OF assms(1)]]
  by (auto simp: log_term_def log_shape_ok_def log_base_def split: option.splits)

lemma log_term_above:
  assumes "shape l" "lb l + length (le l) < i"
  shows "log_term S l i = Err (Unavailable i)"
  using shape_offset(2) [OF assms(1)] assms(2) by (simp add: log_term_def Let_def)

lemma log_term_entry:
  assumes ok: "shape l" and k: "k < length (le l)"
  shows "log_term S l (Suc (lb l + k)) = Ok (ent_term (le l ! k))"
proof (cases "lg_unstable_offset l \<le> Suc (lb l + k)")
  case True
  let ?o = "lg_unstable_offset l - Suc (lb l)"
  have le: "?o \<le> k" using True by arith
  have "Suc (lb l + k) - lg_unstable_offset l = k - ?o"
    using True shape_offset(1) [OF ok] by arith
  moreover have "k - ?o < length (lg_unstable l)"
    using shape_offset(2) [OF ok] k le shape_offset(1) [OF ok] by arith
  moreover have "lg_unstable l ! (k - ?o) = le l ! k"
    using shape_offset(3) [OF ok] le k by simp
  ultimately show ?thesis using True by (simp add: log_term_def Let_def)
next
  case False
  then have none: "lg_unstable_snapshot l = None"
    using ok by (auto simp: log_shape_ok_def log_base_def split: option.splits)
  with False have b: "lb l = base (lg_store l)"
    and lt: "k < lg_unstable_offset l - Suc (base (lg_store l))" by (auto simp: log_base_def)
  have "k < length (ents (lg_store l))"
    using ok none lt by (auto simp: log_shape_ok_def)
  from term_of_entry [OF shape_store [OF ok] this] False none b lt this show ?thesis
    by (simp add: log_term_def log_ents_def nth_append)
qed

lemma log_matches_iff:
  assumes ok: "shape l"
  shows "log_matches S l i t \<longleftrightarrow>
    (i = lb l \<and> t = lbt l)
    \<or> (\<exists>k < length (le l). i = Suc (lb l + k) \<and> t = ent_term (le l ! k))"
proof -
  consider "i < lb l" | "i = lb l"
    | k where "i = Suc (lb l + k)" "k < length (le l)"
    | "lb l + length (le l) < i"
    by (metis less_imp_Suc_add linorder_neqE_nat not_less_eq add_less_cancel_left add_Suc_right)
  then show ?thesis
  proof cases
    case 1 with log_term_below [OF ok 1] show ?thesis by (auto simp: log_matches_def)
  next
    case 2 with log_term_base [OF ok] show ?thesis by (auto simp: log_matches_def)
  next
    case 3 with log_term_entry [OF ok 3(2)] show ?thesis by (auto simp: log_matches_def)
  next
    case 4 with log_term_above [OF ok 4] show ?thesis by (auto simp: log_matches_def)
  qed
qed

lemma okD:
  assumes "lok l"
  shows "shape l" "lb l \<le> lg_committed l" "lg_committed l \<le> lb l + length (le l)"
    "lg_applied l \<le> lg_committed l"
  using assms by (auto simp: log_ok_def)

text \<open>The splice replaces everything from its first entry on.\<close>

lemma truncate_and_append_base [simp]:
  "lb (log_truncate_and_append l es) = lb l" "lbt (log_truncate_and_append l es) = lbt l"
  by (simp_all add: log_base_def log_base_term_def split: option.split)

lemma truncate_and_append_eq:
  assumes ok: "shape l" and c: "contiguous f es" and ne: "es \<noteq> []"
    and f: "lb l < f" "f \<le> Suc (lb l + length (le l))" and bound: "f + length es \<le> u64_max"
  shows "le (log_truncate_and_append l es) = take (f - Suc (lb l)) (le l) @ es
    \<and> shape (log_truncate_and_append l es)"
proof -
  let ?l' = "log_truncate_and_append l es"
  let ?o = "lg_unstable_offset l" and ?u = "lg_unstable l"
  obtain e rest where es: "es = e # rest" and e: "ent_index e = f" using c ne by (cases es) auto
  have fin: "?o + length ?u = Suc (lb l + length (le l))" by (rule shape_offset(2) [OF ok])
  have sum: "u64_add ?o (length ?u) = ?o + length ?u"
    using fin shape_bound [OF ok] by (simp add: u64_simps)
  have cu: "contiguous ?o ?u" using ok by (simp add: log_shape_ok_def)
  have lo: "lb l < ?o" by (rule shape_offset(1) [OF ok])
  have pre: "length (le l) = (?o - Suc (lb l)) + length ?u" using fin lo by arith
  have drop: "drop (?o - Suc (lb l)) (le l) = ?u" using shape_offset(3) [OF ok] by simp
  have snap: "?o = Suc (lb l)" if "lg_unstable_snapshot l = Some s" for s
    using ok that by (auto simp: log_shape_ok_def log_base_def)
  have head: "take (?o - Suc (lb l)) (le l) =
      (case lg_unstable_snapshot l of Some _ \<Rightarrow> [] | None \<Rightarrow> take (?o - Suc (lb l)) (ents (lg_store l)))"
    using ok by (auto simp: log_shape_ok_def log_ents_def log_base_def min_def split: option.splits)
  have main: "le ?l' = take (f - Suc (lb l)) (le l) @ es
    \<and> contiguous (lg_unstable_offset ?l') (lg_unstable ?l')
    \<and> lg_unstable_offset ?l' \<le> ?o \<and> lb l < lg_unstable_offset ?l' \<and> lg_unstable ?l' \<noteq> []"
  proof -
    consider (ext) "f = ?o + length ?u" | (repl) "f < ?o + length ?u" "f \<le> ?o"
      | (mid) "f < ?o + length ?u" "?o < f"
      using f(2) fin by linarith
    then show ?thesis
    proof cases
      case ext
      then have l': "?l' = l\<lparr>lg_unstable_offset := ?o, lg_unstable := ?u @ es\<rparr>"
        using es e sum by (auto simp: log_truncate_and_append_def Let_def)
      from ext fin have "take (f - Suc (lb l)) (le l) = le l" by simp
      with l' c cu ext lo ne show ?thesis
        by (auto simp: log_ents_def split: option.splits)
    next
      case repl
      then have l': "?l' = l\<lparr>lg_unstable_offset := f, lg_unstable := es\<rparr>"
        using es e sum by (auto simp: log_truncate_and_append_def Let_def)
      have "take (f - Suc (lb l)) (le l) = take (f - Suc (lb l)) (take (?o - Suc (lb l)) (le l))"
        using repl by (simp add: min_def)
      with l' c repl f(1) ne head snap show ?thesis
        by (cases "lg_unstable_snapshot l") (auto simp: log_ents_def log_base_def min_def)
    next
      case mid
      then have l': "?l' = l\<lparr>lg_unstable := take (f - ?o) ?u @ es\<rparr>"
        using es e sum by (auto simp: log_truncate_and_append_def Let_def)
      have "take (f - Suc (lb l)) (le l) =
          take (?o - Suc (lb l)) (le l) @ take (f - ?o) (drop (?o - Suc (lb l)) (le l))"
        using mid lo by (metis (no_types) Nat.add_diff_assoc2 Suc_leI le_add_diff_inverse less_imp_le_nat take_add)
      with drop have "take (f - Suc (lb l)) (le l) = take (?o - Suc (lb l)) (le l) @ take (f - ?o) ?u"
        by simp
      moreover have "contiguous ?o (take (f - ?o) ?u @ es)"
        using mid c cu by (auto simp: contiguous_take min_def)
      ultimately show ?thesis using l' lo ne head
        by (cases "lg_unstable_snapshot l") (auto simp: log_ents_def log_base_def)
    qed
  qed
  have len: "lb l + length (le ?l') < u64_max"
    using main f bound ne by (cases es) (auto simp: min_def)
  have "shape ?l'"
    using ok main len by (auto simp: log_shape_ok_def log_base_def split: option.splits)
  with main show ?thesis by simp
qed

text \<open>The conflict search stops at the first entry the log lacks or holds with another term.\<close>

lemma find_conflict_loop_spec:
  assumes "shape l" "contiguous i es" "lb l < i" "i \<le> Suc (lb l + length (le l))"
  shows "\<exists>n \<le> length es. i + n \<le> Suc (lb l + length (le l))
    \<and> map ent_term (take n (drop (i - Suc (lb l)) (le l))) = map ent_term (take n es)
    \<and> find_conflict_loop S l (lb l + length (le l)) at es =
        (if n = length es then None else Some (at + n, i + n))
    \<and> (n < length es \<longrightarrow> i + n \<le> lb l + length (le l) \<longrightarrow>
        ent_term (le l ! (i + n - Suc (lb l))) \<noteq> ent_term (es ! n))"
  using assms(2-)
proof (induction es arbitrary: i at)
  case (Cons e es)
  let ?last = "lb l + length (le l)"
  define k where "k = i - Suc (lb l)"
  have i: "i = Suc (lb l + k)" "ent_index e = i" using Cons.prems by (auto simp: k_def)
  show ?case
  proof (cases "i \<le> ?last \<and> ent_term (le l ! k) = ent_term e")
    case False
    have "find_conflict_loop S l ?last at (e # es) = Some (at, i)"
      using False i log_term_entry [OF assms(1), of k] by (auto split: if_splits)
    with False i Cons.prems show ?thesis by (intro exI [of _ 0]) auto
  next
    case True
    with i have k: "k < length (le l)" and t: "log_term S l i = Ok (ent_term e)"
      using log_term_entry [OF assms(1), of k] by auto
    have c: "contiguous (Suc i) es" "lb l < Suc i" "Suc i \<le> Suc ?last" using Cons.prems True by auto
    obtain n where n: "n \<le> length es" "Suc i + n \<le> Suc ?last"
      "map ent_term (take n (drop (Suc i - Suc (lb l)) (le l))) = map ent_term (take n es)"
      "find_conflict_loop S l ?last (Suc at) es = (if n = length es then None else Some (Suc at + n, Suc i + n))"
      "n < length es \<longrightarrow> Suc i + n \<le> ?last \<longrightarrow> ent_term (le l ! (Suc i + n - Suc (lb l))) \<noteq> ent_term (es ! n)"
      using Cons.IH [OF c, of "Suc at"] by blast
    have d: "drop k (le l) = le l ! k # drop (Suc k) (le l)" using k by (simp add: Cons_nth_drop_Suc)
    show ?thesis
      using n True i t d by (intro exI [of _ "Suc n"]) auto
  qed
qed simp

lemma commit_to_eq:
  assumes "shape l" "i \<le> lb l + length (le l)"
  shows "log_commit_to S l i = (l\<lparr>lg_committed := max (lg_committed l) i\<rparr>, Ok ())"
  using assms log_last_index_eq [OF assms(1)] by (auto simp: log_commit_to_def max_def)

lemma commit_to_fields [simp]:
  "lb (l\<lparr>lg_committed := c\<rparr>) = lb l" "lbt (l\<lparr>lg_committed := c\<rparr>) = lbt l" "le (l\<lparr>lg_committed := c\<rparr>) = le l"
  "shape (l\<lparr>lg_committed := c\<rparr>) = shape l"
  by (simp_all add: log_base_def log_base_term_def log_ents_def log_shape_ok_def split: option.split)

lemma matches_bounds: "shape l \<Longrightarrow> log_matches S l i t \<Longrightarrow> lb l \<le> i \<and> i \<le> lb l + length (le l)"
  by (auto simp: log_matches_iff)

lemma maybe_append_cases:
  assumes ok: "lok l" and c: "contiguous (Suc prev) es" and bound: "prev + length es < u64_max"
    and m: "log_matches S l prev pt"
  obtains
    (agree) "prev + length es \<le> lb l + length (le l)"
      "map ent_term (take (length es) (drop (prev - lb l) (le l))) = map ent_term es"
      "log_maybe_append S l prev pt lc es =
        (l\<lparr>lg_committed := max (lg_committed l) (min lc (prev + length es))\<rparr>,
         Ok (Some \<lparr>ao_last = prev + length es, ao_spliced_from = None, ao_truncated = False\<rparr>))"
  | (refused) n where "n < length es" "Suc (prev + n) \<le> lg_committed l"
      "ent_term (le l ! (prev + n - lb l)) \<noteq> ent_term (es ! n)"
      "log_maybe_append S l prev pt lc es =
        (l, Err (Storage (AppendConflictsCommitted (Suc (prev + n)) (lg_committed l))))"
  | (splice) n l' where "n < length es" "lg_committed l \<le> prev + n" "prev + n \<le> lb l + length (le l)"
      "map ent_term (take n (drop (prev - lb l) (le l))) = map ent_term (take n es)"
      "Suc (prev + n) \<le> lb l + length (le l) \<longrightarrow> ent_term (le l ! (prev + n - lb l)) \<noteq> ent_term (es ! n)"
      "l' = (log_truncate_and_append l (drop n es))
        \<lparr>lg_committed := max (lg_committed l) (min lc (prev + length es))\<rparr>"
      "log_maybe_append S l prev pt lc es =
        (l', Ok (Some \<lparr>ao_last = prev + length es, ao_spliced_from = Some (Suc (prev + n)),
                  ao_truncated = (Suc (prev + n) \<le> lb l + length (le l))\<rparr>))"
      "lok l'" "le l' = take (prev + n - lb l) (le l) @ drop n es"
proof -
  note sh = okD(1) [OF ok] and pb = matches_bounds [OF okD(1) [OF ok] m]
  let ?last = "lb l + length (le l)"
  have last_new: "(if es = [] then prev else ent_index (last es)) = prev + length es"
    using contiguous_last [OF c] by (cases "es = []") auto
  have "lb l < Suc prev" "Suc prev \<le> Suc ?last" using pb by simp_all
  from find_conflict_loop_spec [OF sh c this, of 0]
  obtain n where n: "n \<le> length es" "prev + n \<le> ?last"
      "map ent_term (take n (drop (prev - lb l) (le l))) = map ent_term (take n es)"
      "find_conflict_loop S l ?last 0 es = (if n = length es then None else Some (n, Suc (prev + n)))"
      "n < length es \<longrightarrow> Suc (prev + n) \<le> ?last \<longrightarrow> ent_term (le l ! (prev + n - lb l)) \<noteq> ent_term (es ! n)"
    by (simp only: diff_Suc_Suc add_Suc Suc_le_mono add_0) blast
  have fc: "log_find_conflict S l es = Ok (if n = length es then None else Some (n, Suc (prev + n)))"
    using n(4) log_last_index_eq [OF sh] by (simp add: log_find_conflict_def)
  show ?thesis
  proof (cases "n = length es")
    case True
    with n have le: "prev + length es \<le> ?last" by simp
    have "log_maybe_append S l prev pt lc es =
        (l\<lparr>lg_committed := max (lg_committed l) (min lc (prev + length es))\<rparr>,
         Ok (Some \<lparr>ao_last = prev + length es, ao_spliced_from = None, ao_truncated = False\<rparr>))"
      using m fc True last_new commit_to_eq [OF sh, of "min lc (prev + length es)"] le
      by (simp add: log_maybe_append_def Let_def)
    with n True le show ?thesis by (intro agree) auto
  next
    case False
    with n have lt: "n < length es" by simp
    show ?thesis
    proof (cases "Suc (prev + n) \<le> lg_committed l")
      case True
      then have "Suc (prev + n) \<le> ?last" using okD(3) [OF ok] by simp
      with True lt n(5) m fc False last_new show ?thesis
        by (intro refused [of n]) (auto simp: log_maybe_append_def Let_def)
    next
      case unc: False
      let ?t = "log_truncate_and_append l (drop n es)"
      have cd: "contiguous (Suc (prev + n)) (drop n es)" using contiguous_drop [OF c, of n] lt by simp
      have eq: "le ?t = take (prev + n - lb l) (le l) @ drop n es" and sh': "shape ?t"
        using truncate_and_append_eq [OF sh cd] lt n(2) pb bound by auto
      have len: "lb ?t + length (le ?t) = prev + length es" using eq lt n(2) pb by auto
      have "log_commit_to S ?t (min lc (prev + length es)) =
          (?t\<lparr>lg_committed := max (lg_committed l) (min lc (prev + length es))\<rparr>, Ok ())"
        using commit_to_eq [OF sh', of "min lc (prev + length es)"] len by simp
      then have app: "log_maybe_append S l prev pt lc es =
        (?t\<lparr>lg_committed := max (lg_committed l) (min lc (prev + length es))\<rparr>,
          Ok (Some \<lparr>ao_last = prev + length es, ao_spliced_from = Some (Suc (prev + n)),
                  ao_truncated = (Suc (prev + n) \<le> ?last)\<rparr>))"
        using m fc False last_new unc log_last_index_eq [OF sh]
        by (simp add: log_maybe_append_def Let_def)
      have ok': "lok (?t\<lparr>lg_committed := max (lg_committed l) (min lc (prev + length es))\<rparr>)"
        using sh' okD [OF ok] len unc lt by (auto simp: log_ok_def)
      show ?thesis using lt unc n(5) eq by (intro splice [OF lt _ n(2,3) _ refl app ok']) auto
    qed
  qed
qed


text \<open>A slice is a non-empty prefix of the range asked for, and all of it under an unbounded budget.\<close>

lemma slice_stable_part:
  assumes ok: "shape l" and r: "lb l < low" "low < high" "high \<le> Suc (lb l + length (le l))"
    and lt: "low < lg_unstable_offset l" and v: "v = take (min high (lg_unstable_offset l) - low) (drop (low - Suc (lb l)) (le l))"
  shows "\<exists>k > 0. st_entries S (lg_store l) low (min high (lg_unstable_offset l)) b = Ok (take k v)
    \<and> (b = u64_max \<longrightarrow> take k v = v)"
proof -
  let ?sh = "min high (lg_unstable_offset l)"
  have none: "lg_unstable_snapshot l = None"
    using ok lt r by (auto simp: log_shape_ok_def log_base_def split: option.splits)
  have b: "base (lg_store l) = lb l" by (simp add: log_base_def none)
  have len: "lg_unstable_offset l \<le> Suc (lb l + length (ents (lg_store l)))"
    using ok none b by (simp add: log_shape_ok_def)
  have sh: "base (lg_store l) < low" "low < ?sh" "?sh \<le> Suc (base (lg_store l) + length (ents (lg_store l)))"
    using r lt len b by auto
  have "v = take (?sh - low) (drop (low - Suc (lb l)) (ents (lg_store l)))"
    using b none r lt len by (simp add: v log_ents_def drop_take min_def)
  with entries_unbounded [OF shape_store [OF ok] sh] entries_law [OF shape_store [OF ok] sh, of b] sh(2) b
  show ?thesis
    by (cases "b = u64_max") (auto intro!: exI [of _ "?sh - low"])
qed

lemma slice_gen:
  assumes ok: "shape l" and r: "lb l < low" "low < high" "high \<le> Suc (lb l + length (le l))"
    and w: "w = take (high - low) (drop (low - Suc (lb l)) (le l))"
  shows "\<exists>k > 0. log_slice S l low high b = Ok (take k w) \<and> (b = u64_max \<longrightarrow> take k w = w)"
proof -
  define off where "off = lg_unstable_offset l"
  have un: "lg_unstable l = drop (off - Suc (lb l)) (le l)" and off: "lb l < off"
    and hi: "high - off \<le> length (lg_unstable l)"
    using shape_offset [OF ok] r by (auto simp: off_def)
  have wne: "w \<noteq> []" and lw: "length w = high - low" using r by (auto simp: w)
  have loop: "slice_loop b off (lg_unstable l) c out [i..<high] =
      Ok (budget_loop b c out (take (high - i) (drop (i - Suc (lb l)) (le l))))" if "off \<le> i" for c out i
    using slice_loop_budget [of off i high "lg_unstable l"] hi off that
    by (simp add: un add.commute)
  show ?thesis
  proof (cases "low < off")
    case False
    then have "log_slice S l low high b = Ok (budget_loop b 0 [] w)"
      using r loop [of low 0 "[]"] by (simp add: log_slice_def max_def w flip: off_def)
    with wne budget_loop_prefix [of w b 0 "[]"] budget_loop_unbounded [of 0 "[]" w]
    show ?thesis by auto
  next
    case True
    define v u where "v = take (min high off - low) w" and "u = drop (min high off - low) w"
    have wvu: "w = v @ u" and lv: "length v = min high off - low" "v \<noteq> []"
      using lw r True wne by (auto simp: v_def u_def)
    have "v = take (min high off - low) (drop (low - Suc (lb l)) (le l))"
      by (simp add: v_def w min_def)
    from slice_stable_part [OF ok r True [unfolded off_def] this [unfolded off_def], of b]
    obtain k where k: "k > 0" "st_entries S (lg_store l) low (min high off) b = Ok (take k v)"
      "b = u64_max \<longrightarrow> take k v = v" by (auto simp: off_def)
    have u: "u = take (high - off) (drop (off - Suc (lb l)) (le l))"
      using True r(1) by (auto simp: u_def w drop_take min_def)
    show ?thesis
    proof (cases "length (take k v) = min high off - low")
      case False
      then have kv: "k < length v" using lv by auto
      have "log_slice S l low high b = Ok (take k v)"
        using r True k(2) False by (simp add: log_slice_def Let_def flip: off_def)
      with kv k show ?thesis by (intro exI [of _ k]) (auto simp: wvu)
    next
      case full: True
      then have tk: "take k v = v" using lv by auto
      have "log_slice S l low high b = Ok (budget_loop b (foldl u64_add 0 (map entry_cost v)) v u)"
        using r True k(2) full tk loop [of off] by (simp add: log_slice_def Let_def u max_def flip: off_def)
      moreover obtain j where "budget_loop b (foldl u64_add 0 (map entry_cost v)) v u = v @ take j u"
        using budget_loop_prefix [of u b _ v] by blast
      ultimately show ?thesis
        using budget_loop_unbounded [of "foldl u64_add 0 (map entry_cost v)" v u] lv(2)
        by (intro exI [of _ "length v + j"]) (auto simp: wvu, metis length_take min.cobounded2)
    qed
  qed
qed

lemma next_committed_eq:
  assumes ok: "lok l" and lt: "lg_applied l < lg_committed l" and ab: "lb l \<le> lg_applied l"
  shows "\<exists>k > 0. log_next_committed S l b =
      Ok (take k (take (lg_committed l - lg_applied l) (drop (lg_applied l - lb l) (le l))))"
proof -
  note d = okD [OF ok] and bd = shape_bound [OF okD(1) [OF ok]]
  have "log_next_committed S l b = log_slice S l (Suc (lg_applied l)) (Suc (lg_committed l)) b"
    using lt d bd by (simp add: log_next_committed_def u64_simps)
  with slice_gen [OF d(1), of "Suc (lg_applied l)" "Suc (lg_committed l)" _ b] lt d ab show ?thesis
    by auto
qed

text \<open>Entries the storage already holds may leave the unstable tail without changing the log.\<close>

lemma stable_to_keeps:
  assumes ok: "lok l" and none: "lg_unstable_snapshot l = None"
    and durable: "ents (lg_store l) = le l" and i: "i \<le> lb l + length (le l)"
  shows "lok (log_stable_to S l i t) \<and> le (log_stable_to S l i t) = le l \<and> lb (log_stable_to S l i t) = lb l
    \<and> lg_committed (log_stable_to S l i t) = lg_committed l \<and> lg_applied (log_stable_to S l i t) = lg_applied l"
proof (cases "is_ok_and (\<lambda>own. own = t) (log_term S l i) \<and> lg_unstable_offset l \<le> i")
  case False
  with ok show ?thesis by (auto simp: log_stable_to_def)
next
  case True
  note sh = okD(1) [OF ok] and so = shape_offset [OF okD(1) [OF ok]]
  have b: "base (lg_store l) = lb l" by (simp add: log_base_def none)
  define n where "n = Suc i - lg_unstable_offset l"
  let ?l' = "l\<lparr>lg_unstable := drop n (lg_unstable l), lg_unstable_offset := Suc i\<rparr>"
  have wrap: "u64_add i 1 = Suc i" "u64_sub (Suc i) (lg_unstable_offset l) = n"
    using i True shape_bound [OF sh] by (simp_all add: u64_simps n_def)
  have eq: "log_stable_to S l i t = ?l'"
    using True by (simp add: log_stable_to_def Let_def wrap [unfolded One_nat_def])
  have n: "n \<le> length (lg_unstable l)" using i so by (simp add: n_def)
  have un: "drop n (lg_unstable l) = drop (i - lb l) (le l)"
    using so True by (simp add: n_def) 
  have lb': "lb ?l' = lb l" by (simp add: log_base_def none)
  have le': "le ?l' = le l"
    using durable un b by (simp add: log_ents_def none) 
  have c: "contiguous (Suc i) (drop n (lg_unstable l))"
    using contiguous_drop [of "lg_unstable_offset l" "lg_unstable l" n] sh n True
    by (simp add: log_shape_ok_def n_def)
  have "shape ?l'"
    using sh c i so b durable True n unfolding log_shape_ok_def lb' le'
    by (auto simp: none n_def)
  with eq lb' le' okD [OF ok] show ?thesis by (simp add: log_ok_def)
qed

lemma applied_to_ok: "lok l \<Longrightarrow> lok (log_applied_to l i) \<and> lg_applied l \<le> lg_applied (log_applied_to l i)"
  by (auto simp: log_ok_def log_applied_to_def log_shape_ok_def log_base_def log_ents_def split: option.splits)

lemma restore_ok:
  assumes "lok l" "log_should_restore S l s" "sm_index (snap_meta s) \<le> u64_max"
  shows "lok (log_restore l s) \<and> lb (log_restore l s) = sm_index (snap_meta s)
    \<and> le (log_restore l s) = [] \<and> lg_committed l < lg_committed (log_restore l s)
    \<and> lg_applied (log_restore l s) = lg_committed (log_restore l s)"
proof -
  have "lg_committed l < sm_index (snap_meta s)" "sm_index (snap_meta s) \<noteq> u64_max"
    using assms(2) by (auto simp: log_should_restore_def split: if_splits)
  with assms(3) have "lg_committed l < sm_index (snap_meta s)" "sm_index (snap_meta s) < u64_max" by auto
  then show ?thesis using assms(1)
    by (auto simp: log_ok_def log_restore_def log_shape_ok_def log_base_def log_ents_def sat_add_def)
qed

text \<open>Logs that share their boundary and a prefix answer the consistency check alike on it.\<close>

lemma matches_prefix:
  assumes "shape l" "shape l'" "lb l' = lb l" "lbt l' = lbt l"
    "take n (le l') = take n (le l)" "n \<le> length (le l)" "n \<le> length (le l')" "i \<le> lb l + n"
  shows "log_matches S l' i t \<longleftrightarrow> log_matches S l i t"
proof -
  have "le l' ! k = le l ! k" if "i = Suc (lb l + k)" for k
    using assms(5,8) that by (metis Suc_le_eq add_le_cancel_left add_Suc_right nth_take)
  then show ?thesis
    using assms(3-4,6-8) by (auto simp: log_matches_iff [OF assms(1)] log_matches_iff [OF assms(2)])
qed

lemma maybe_append_installs:
  assumes ok: "lok l" and c: "contiguous (Suc prev) es" and bound: "prev + length es < u64_max"
    and m: "log_matches S l prev pt"
    and app: "log_maybe_append S l prev pt lc es = (l', Ok (Some out))"
  shows "lok l'" "lg_committed l' = max (lg_committed l) (min lc (prev + length es))"
    "ao_last out = prev + length es"
    "k < length es \<Longrightarrow> log_matches S l' (Suc (prev + k)) (ent_term (es ! k))"
    "i \<le> max prev (lg_committed l) \<Longrightarrow> log_matches S l' i t \<longleftrightarrow> log_matches S l i t"
    "lb l' = lb l" "lg_applied l' = lg_applied l"
    "prev + length es \<le> lb l + length (le l) \<Longrightarrow>
       (\<forall>k < length es. log_matches S l (Suc (prev + k)) (ent_term (es ! k))) \<Longrightarrow> le l' = le l"
proof -
  note pb = matches_bounds [OF okD(1) [OF ok] m] and d = okD [OF ok]
  have main: "lok l' \<and> lg_committed l' = max (lg_committed l) (min lc (prev + length es))
    \<and> ao_last out = prev + length es
    \<and> (k < length es \<longrightarrow> log_matches S l' (Suc (prev + k)) (ent_term (es ! k)))
    \<and> (i \<le> max prev (lg_committed l) \<longrightarrow> (log_matches S l' i t \<longleftrightarrow> log_matches S l i t))
    \<and> lb l' = lb l \<and> lg_applied l' = lg_applied l
    \<and> (prev + length es \<le> lb l + length (le l) \<longrightarrow>
       (\<forall>k < length es. log_matches S l (Suc (prev + k)) (ent_term (es ! k))) \<longrightarrow> le l' = le l)"
    using ok c bound m
  proof (cases rule: maybe_append_cases [where lc = lc])
    case agree
    then have l': "l' = l\<lparr>lg_committed := max (lg_committed l) (min lc (prev + length es))\<rparr>"
      and out: "ao_last out = prev + length es" using app by auto
    have ok': "lok l'" using d agree(1) by (auto simp: l' log_ok_def)
    have "ent_term (le l ! (prev - lb l + k)) = ent_term (es ! k)" if "k < length es"
      using arg_cong [OF agree(2), of "\<lambda>xs. xs ! k"] that agree(1) pb by auto
    then have "k < length es \<longrightarrow> log_matches S l' (Suc (prev + k)) (ent_term (es ! k))"
      using agree(1) pb okD(1) [OF ok']
      by (auto simp: log_matches_iff l' intro!: exI [of _ "prev - lb l + k"])
    moreover have "log_matches S l' i t \<longleftrightarrow> log_matches S l i t"
      using d(1) okD(1) [OF ok'] by (simp add: log_matches_iff l')
    ultimately show ?thesis using ok' out by (simp add: l')
  next
    case refused
    with app show ?thesis by simp
  next
    case (splice n l'')
    with app have l': "l'' = l'" and out: "ao_last out = prev + length es" by auto
    note sp = splice [unfolded l']
    have lbt: "lb l' = lb l" "lbt l' = lbt l" by (simp_all add: sp(6))
    have cm: "lg_committed l' = max (lg_committed l) (min lc (prev + length es))"
      "lg_applied l' = lg_applied l" by (simp_all add: sp(6))
    have len: "length (take (prev + n - lb l) (le l)) = prev + n - lb l" using sp(3) by simp
    have "log_matches S l' (Suc (prev + k)) (ent_term (es ! k))" if k: "k < length es"
    proof -
      have "ent_term (le l' ! (prev - lb l + k)) = ent_term (es ! k)"
      proof (cases "k < n")
        case True
        with arg_cong [OF sp(4), of "\<lambda>xs. xs ! k"] sp(1,3) pb k show ?thesis
          by (auto simp: sp(9) nth_append)
      next
        case False
        with sp(1,3) pb k show ?thesis by (auto simp: sp(9) nth_append)
      qed
      with k sp(1,3) pb show ?thesis
        by (auto simp: log_matches_iff [OF okD(1) [OF sp(8)]] lbt sp(9) intro!: exI [of _ "prev - lb l + k"])
    qed
    moreover have "log_matches S l' i t \<longleftrightarrow> log_matches S l i t" if "i \<le> max prev (lg_committed l)"
      using that sp(2,3) pb by (intro matches_prefix [OF d(1) okD(1) [OF sp(8)] lbt, of "prev + n - lb l"])
        (auto simp: sp(9))
    moreover have False if "prev + length es \<le> lb l + length (le l)"
      "\<forall>k < length es. log_matches S l (Suc (prev + k)) (ent_term (es ! k))"
    proof -
      have "Suc (prev + n) \<le> lb l + length (le l)" using that(1) sp(1) by simp
      with sp(5) have "ent_term (le l ! (prev + n - lb l)) \<noteq> ent_term (es ! n)" by simp
      moreover have "log_matches S l (Suc (prev + n)) (ent_term (es ! n))" using that(2) sp(1) by blast
      ultimately show False using pb by (auto simp: log_matches_iff [OF d(1)])
    qed
    ultimately show ?thesis using sp(8) cm out lbt by blast
  qed
  from main show "lok l'" "lg_committed l' = max (lg_committed l) (min lc (prev + length es))"
    "ao_last out = prev + length es"
    "k < length es \<Longrightarrow> log_matches S l' (Suc (prev + k)) (ent_term (es ! k))"
    "i \<le> max prev (lg_committed l) \<Longrightarrow> log_matches S l' i t \<longleftrightarrow> log_matches S l i t"
    "lb l' = lb l" "lg_applied l' = lg_applied l"
    "prev + length es \<le> lb l + length (le l) \<Longrightarrow>
       (\<forall>k < length es. log_matches S l (Suc (prev + k)) (ent_term (es ! k))) \<Longrightarrow> le l' = le l"
    by blast+
qed

end

subsection \<open>The properties, on the in-memory storage\<close>

abbreviation mem_log_ok :: "mem_storage raft_log \<Rightarrow> bool" where
  "mem_log_ok \<equiv> log_ok mem_ok compacted_index ms_entries"

abbreviation mem_log_base :: "mem_storage raft_log \<Rightarrow> index" where
  "mem_log_base \<equiv> log_base compacted_index"

abbreviation mem_log_ents :: "mem_storage raft_log \<Rightarrow> entry list" where
  "mem_log_ents \<equiv> log_ents compacted_index ms_entries"

lemmas log_eval = log_maybe_append_def log_find_conflict_def log_commit_to_def log_last_index_def
  log_matches_def log_term_def log_truncate_and_append_def log_ok_def log_shape_ok_def log_base_def
  log_ents_def mem_log_storage_def mem_term_def mem_last_def mem_last_index_def mem_ok_def mem_new_def
  compacted_index_def compacted_term_def entry_empty_def entry_normal_def u64_add_def u64_max_def Let_def

text \<open>C9. The follower's append (\<^verbatim>\<open>RaftLog::maybe_append\<close>), when its consistency check passes:
  the outcome names the last index of the batch; afterwards every entry of the batch is in the log;
  nothing at or below \<^verbatim>\<open>prev_index\<close> or at or below the commit index has changed; the commit
  index is the old one or the leader's clamped to the end of the batch, whichever is higher; the
  log's invariant holds; and a batch the log already holds leaves its entries as they were, so a
  duplicated or reordered append never shortens the log.\<close>

theorem maybe_append_installs_batch:
  fixes l :: "mem_storage raft_log"
  assumes "mem_log_ok l" "contiguous (Suc prev) es" "prev + length es < u64_max"
    and "log_matches mem_log_storage l prev pt"
    and "log_maybe_append mem_log_storage l prev pt lc es = (l', Ok (Some out))"
  shows "mem_log_ok l' \<and> ao_last out = prev + length es
    \<and> lg_committed l' = max (lg_committed l) (min lc (prev + length es))
    \<and> lg_applied l' = lg_applied l
    \<and> (\<forall>k < length es. log_matches mem_log_storage l' (Suc (prev + k)) (ent_term (es ! k)))
    \<and> (\<forall>i t. i \<le> max prev (lg_committed l) \<longrightarrow>
         log_matches mem_log_storage l' i t = log_matches mem_log_storage l i t)
    \<and> (prev + length es \<le> mem_log_base l + length (mem_log_ents l) \<longrightarrow>
         (\<forall>k < length es. log_matches mem_log_storage l (Suc (prev + k)) (ent_term (es ! k))) \<longrightarrow>
         mem_log_ents l' = mem_log_ents l)"
  using mem.maybe_append_installs [OF assms] by blast

definition demo_log :: "mem_storage raft_log" where
  "demo_log = \<lparr>lg_store = mem_new\<lparr>ms_entries := [entry_empty 1 1, entry_empty 1 2]\<rparr>,
     lg_unstable = [entry_empty 2 3], lg_unstable_offset = 3, lg_unstable_snapshot = None,
     lg_committed = 1, lg_applied = 1\<rparr>"

lemma demo_log_ok: "mem_log_ok demo_log"
  by (simp add: demo_log_def log_eval)

theorem maybe_append_installs_batch_witness:
  "\<exists>l' out. log_maybe_append mem_log_storage demo_log 1 1 2 [entry_empty 3 2] = (l', Ok (Some out))
     \<and> mem_log_ok l' \<and> lg_committed l' = 2 \<and> log_matches mem_log_storage l' 2 3"
proof -
  have m: "log_matches mem_log_storage demo_log 1 1" by (simp add: demo_log_def log_eval)
  have c: "contiguous (Suc 1) [entry_empty 3 2]" by (simp add: entry_empty_def entry_normal_def)
  obtain l' out where app: "log_maybe_append mem_log_storage demo_log 1 1 2 [entry_empty 3 2] = (l', Ok (Some out))"
    by (simp add: demo_log_def log_eval)
  have "lg_committed demo_log = 1" by (simp add: demo_log_def)
  with maybe_append_installs_batch [OF demo_log_ok c _ m app] app show ?thesis
    by (auto simp: u64_max_def entry_empty_def entry_normal_def numeral_2_eq_2)
qed

text \<open>C21. The same call fails in one case only: when the batch contradicts an entry that is
  already committed. It then reports the first such index, and the log is exactly as it was.\<close>

theorem maybe_append_fails_only_on_committed:
  fixes l :: "mem_storage raft_log"
  assumes "mem_log_ok l" "contiguous (Suc prev) es" "prev + length es < u64_max"
    and "log_maybe_append mem_log_storage l prev pt lc es = (l', r)"
  shows "(\<not> log_matches mem_log_storage l prev pt \<longrightarrow> l' = l \<and> r = Ok None)
    \<and> (log_matches mem_log_storage l prev pt \<longrightarrow>
        (\<exists>out. r = Ok (Some out))
        \<or> (\<exists>k < length es. l' = l \<and> Suc (prev + k) \<le> lg_committed l
             \<and> r = Err (Storage (AppendConflictsCommitted (Suc (prev + k)) (lg_committed l)))
             \<and> \<not> log_matches mem_log_storage l (Suc (prev + k)) (ent_term (es ! k))))"
proof (cases "log_matches mem_log_storage l prev pt")
  case False
  with assms(4) show ?thesis by (simp add: log_maybe_append_def)
next
  case True
  note pb = mem.matches_bounds [OF mem.okD(1) [OF assms(1)] True]
  from assms(1-3) True show ?thesis
  proof (cases rule: mem.maybe_append_cases [where lc = lc])
    case (refused n)
    then have "\<not> log_matches mem_log_storage l (Suc (prev + n)) (ent_term (es ! n))"
      using pb by (auto simp: mem.log_matches_iff [OF mem.okD(1) [OF assms(1)]])
    with refused assms(4) True show ?thesis by auto
  qed (use assms(4) True in auto)
qed

theorem maybe_append_fails_only_on_committed_witness:
  "log_maybe_append mem_log_storage demo_log 0 0 2 [entry_empty 3 1]
     = (demo_log, Err (Storage (AppendConflictsCommitted 1 1)))
   \<and> \<not> log_matches mem_log_storage demo_log 1 3"
proof -
  have c: "contiguous (Suc 0) [entry_empty 3 1]" by (simp add: entry_empty_def entry_normal_def)
  have app: "log_maybe_append mem_log_storage demo_log 0 0 2 [entry_empty 3 1]
     = (demo_log, Err (Storage (AppendConflictsCommitted 1 1)))" by (simp add: demo_log_def log_eval)
  have "log_matches mem_log_storage demo_log 0 0" by (simp add: demo_log_def log_eval)
  with maybe_append_fails_only_on_committed [OF demo_log_ok c _ app] app show ?thesis
    by (auto simp: u64_max_def entry_empty_def entry_normal_def)
qed

text \<open>C22. \<^verbatim>\<open>RaftLog::next_committed\<close> hands out committed entries that have not been applied, in
  order, without a gap: a non-empty prefix of exactly the range above the applied index, which
  starts at the applied index plus one. A byte budget may shorten it but never empties it.\<close>

theorem next_committed_in_order:
  fixes l :: "mem_storage raft_log"
  assumes "mem_log_ok l" "lg_applied l < lg_committed l" "mem_log_base l \<le> lg_applied l"
  shows "\<exists>es. log_next_committed mem_log_storage l budget = Ok es \<and> es \<noteq> []
    \<and> contiguous (Suc (lg_applied l)) es \<and> lg_applied l + length es \<le> lg_committed l
    \<and> (\<forall>k < length es. log_term mem_log_storage l (Suc (lg_applied l) + k) = Ok (ent_term (es ! k)))"
proof -
  note d = mem.okD [OF assms(1)]
  obtain k where k: "k > 0" "log_next_committed mem_log_storage l budget =
      Ok (take k (take (lg_committed l - lg_applied l) (drop (lg_applied l - mem_log_base l) (mem_log_ents l))))"
    using mem.next_committed_eq [OF assms] by blast
  let ?es = "take k (take (lg_committed l - lg_applied l) (drop (lg_applied l - mem_log_base l) (mem_log_ents l)))"
  have "contiguous (Suc (lg_applied l)) (drop (lg_applied l - mem_log_base l) (mem_log_ents l))"
    using contiguous_drop [OF mem.shape_contiguous [OF d(1)], of "lg_applied l - mem_log_base l"] assms d by simp
  then have "contiguous (Suc (lg_applied l)) ?es" by (intro contiguous_take)
  moreover have "?es \<noteq> []" using k(1) assms d by auto
  moreover have "lg_applied l + length ?es \<le> lg_committed l" using assms(2) by auto
  moreover have "log_term mem_log_storage l (Suc (lg_applied l) + j) = Ok (ent_term (?es ! j))" if "j < length ?es" for j
    using mem.log_term_entry [OF d(1), of "lg_applied l - mem_log_base l + j"] that assms(2-3) d(3) by auto
  ultimately show ?thesis using k(2) by blast
qed

theorem next_committed_in_order_witness:
  "\<exists>es. log_next_committed mem_log_storage (demo_log\<lparr>lg_committed := 3\<rparr>) 0 = Ok es \<and> es \<noteq> []
     \<and> contiguous 2 es"
proof -
  have ok: "mem_log_ok (demo_log\<lparr>lg_committed := 3\<rparr>)" by (simp add: demo_log_def log_eval)
  have "lg_applied (demo_log\<lparr>lg_committed := 3\<rparr>) = 1" "mem_log_base (demo_log\<lparr>lg_committed := 3\<rparr>) = 0"
    by (simp_all add: demo_log_def log_base_def compacted_index_def mem_new_def)
  with next_committed_in_order [OF ok, of 0] show ?thesis by (auto simp: numeral_2_eq_2)
qed


text \<open>C19. Persisting the tail does not change the log. When a driver has appended the whole
  unstable tail to the storage and reports the last index it wrote with its term,
  \<^verbatim>\<open>RaftLog::stable_to\<close> empties the tail, and the entries, the boundary and the commit index
  the core sees are what they were.\<close>

theorem persist_then_stable_to:
  fixes l :: "mem_storage raft_log"
  assumes "mem_log_ok l" "lg_unstable_snapshot l = None" "lg_unstable l \<noteq> []"
    and "mem_append (lg_store l) (lg_unstable l) = (m, Ok ())"
    and "l' = log_stable_to mem_log_storage (l\<lparr>lg_store := m\<rparr>)
           (ent_index (last (lg_unstable l))) (ent_term (last (lg_unstable l)))"
  shows "mem_log_ok l' \<and> mem_log_ents l' = mem_log_ents l \<and> mem_log_base l' = mem_log_base l
    \<and> lg_committed l' = lg_committed l \<and> lg_applied l' = lg_applied l
    \<and> lg_unstable l' = [] \<and> ms_entries (lg_store l') = mem_log_ents l"
proof -
  note d = mem.okD [OF assms(1)]
  note so = mem.shape_offset [OF d(1)]
  let ?m = "lg_store l" and ?o = "lg_unstable_offset l"
  let ?l1 = "l\<lparr>lg_store := m\<rparr>" and ?last = "last (lg_unstable l)"
  have sh: "mem_ok ?m" "contiguous ?o (lg_unstable l)" "compacted_index ?m < ?o"
    "?o \<le> Suc (compacted_index ?m + length (ms_entries ?m))"
    using d(1) assms(2) by (simp_all add: log_shape_ok_def)
  have m: "m = ?m\<lparr>ms_entries := take (?o - Suc (compacted_index ?m)) (ms_entries ?m) @ lg_unstable l\<rparr>"
    using mem_append_eq [OF sh(1,2) assms(3) sh(3,4)] assms(4) by simp
  have base: "mem_log_base l = compacted_index ?m" "compacted_index m = compacted_index ?m"
    by (simp_all add: log_base_def assms(2) m compacted_index_def)
  have bnd: "?o + length (lg_unstable l) \<le> u64_max" using so(2) mem.shape_bound [OF d(1)] by simp
  have mok: "mem_ok m" using mem_append_ok [OF sh(1,2,3,4) bnd] by (simp add: m)
  have dur: "ms_entries m = mem_log_ents l" by (simp add: m log_ents_def assms(2))
  have l1: "mem_log_ents ?l1 = mem_log_ents l" "mem_log_base ?l1 = mem_log_base l"
    using base(2) sh(3,4) by (auto simp: log_ents_def log_base_def assms(2) m)
  have "log_shape_ok mem_ok compacted_index ms_entries ?l1"
    using d(1) mok l1 base sh(3) so(2) dur mem.shape_bound [OF d(1)] unfolding log_shape_ok_def l1
    by (auto simp: assms(2,3))
  then have ok1: "mem_log_ok ?l1" using d l1 by (simp add: log_ok_def)
  have li: "ent_index ?last = mem_log_base l + length (mem_log_ents l)"
    using contiguous_last [OF sh(2) assms(3)] so(2) assms(3) by (cases "lg_unstable l") auto
  have keep: "mem_log_ok l' \<and> mem_log_ents l' = mem_log_ents l \<and> mem_log_base l' = mem_log_base l
      \<and> lg_committed l' = lg_committed l \<and> lg_applied l' = lg_applied l"
    using mem.stable_to_keeps [OF ok1, of "ent_index ?last" "ent_term ?last"] assms(2) dur l1 li
    by (simp add: assms(5))
  have ne: "0 < length (lg_unstable l)" using assms(3) by simp
  then have oi: "?o \<le> ent_index ?last" "ent_index ?last = Suc (mem_log_base l + (length (mem_log_ents l) - 1))"
    using li so(1,2) by linarith+
  have lt: "length (mem_log_ents l) - 1 < length (mem_log_ents l)" using ne so(1,2) by linarith
  have "mem_log_ents l ! (length (mem_log_ents l) - 1) = ?last"
    using so(3) assms(3) by (metis last_conv_nth last_drop drop_Nil drop_eq_Nil not_le)
  then have tm: "log_term mem_log_storage ?l1 (ent_index ?last) = Ok (ent_term ?last)"
    using mem.log_term_entry [OF mem.okD(1) [OF ok1], of "length (mem_log_ents l) - 1"] lt
    unfolding l1 oi(2) by simp
  have c: "u64_add (ent_index ?last) 1 = Suc (ent_index ?last)"
    "u64_sub (Suc (ent_index ?last)) ?o = length (lg_unstable l)"
    using li so(2) oi mem.shape_bound [OF d(1)] by (simp_all add: u64_simps)
  have "lg_unstable l' = []" "lg_store l' = m"
    using tm oi c by (simp_all add: assms(5) log_stable_to_def Let_def)
  with keep dur show ?thesis by simp
qed

theorem persist_then_stable_to_witness:
  "\<exists>m. mem_append (lg_store demo_log) (lg_unstable demo_log) = (m, Ok ())
     \<and> lg_unstable (log_stable_to mem_log_storage (demo_log\<lparr>lg_store := m\<rparr>) 3 2) = []"
proof -
  have "lg_unstable_snapshot demo_log = None" "lg_unstable demo_log \<noteq> []"
    "ent_index (last (lg_unstable demo_log)) = 3" "ent_term (last (lg_unstable demo_log)) = 2"
    by (simp_all add: demo_log_def log_eval)
  moreover obtain m where m: "mem_append (lg_store demo_log) (lg_unstable demo_log) = (m, Ok ())"
    by (simp add: demo_log_def mem_append_def u64_sub_def log_eval)
  ultimately show ?thesis
    using persist_then_stable_to [OF demo_log_ok _ _ m refl] m by auto
qed

text \<open>C23. Installing a snapshot the log accepts (\<^verbatim>\<open>RaftLog::should_restore\<close> then
  \<^verbatim>\<open>RaftLog::restore\<close>) moves the commit index forward, never back, replaces the whole log by
  the snapshot's boundary, marks everything up to it applied and keeps the log's invariant.\<close>

theorem restore_moves_forward:
  fixes l :: "mem_storage raft_log"
  assumes "mem_log_ok l" "log_should_restore mem_log_storage l s" "sm_index (snap_meta s) \<le> u64_max"
  shows "mem_log_ok (log_restore l s)
    \<and> mem_log_base (log_restore l s) = sm_index (snap_meta s) \<and> mem_log_ents (log_restore l s) = []
    \<and> lg_committed l < lg_committed (log_restore l s)
    \<and> lg_applied (log_restore l s) = lg_committed (log_restore l s)
    \<and> log_term mem_log_storage (log_restore l s) (sm_index (snap_meta s)) = Ok (sm_term (snap_meta s))"
proof -
  note r = mem.restore_ok [OF assms]
  have "log_base_term compacted_term (log_restore l s) = sm_term (snap_meta s)"
    by (simp add: log_base_term_def log_restore_def)
  with mem.log_term_base [OF mem.okD(1), of "log_restore l s"] r show ?thesis by simp
qed

theorem restore_moves_forward_witness:
  "let s = \<lparr>snap_meta = \<lparr>sm_index = 9, sm_term = 4, sm_conf = conf_from_voters [1]\<rparr>, snap_data = []\<rparr> in
   mem_log_ok (log_restore demo_log s) \<and> lg_committed (log_restore demo_log s) = 9"
proof -
  let ?s = "\<lparr>snap_meta = \<lparr>sm_index = 9, sm_term = 4, sm_conf = conf_from_voters [1]\<rparr>, snap_data = []\<rparr>"
  have "log_should_restore mem_log_storage demo_log ?s"
    by (simp add: log_should_restore_def demo_log_def log_eval)
  moreover have "lg_committed (log_restore demo_log ?s) = 9" by (simp add: log_restore_def)
  ultimately show ?thesis
    using restore_moves_forward [OF demo_log_ok, of ?s] by (simp add: u64_max_def)
qed

end
