(* ===== verification/RaftConf.thy ===== *)
theory RaftConf
  imports RaftTypes
begin

text \<open>
  The membership stack (\<^verbatim>\<open>ConfTracker\<close> in \<^verbatim>\<open>crates/esker-raft/src/conf.rs\<close>). A change is in
  force from the moment its entry is appended, so the tracker keeps what it takes to undo it. Its
  specification is a plain history: the changes of the log above the base, in order. Every
  operation of the tracker is shown to be the obvious operation on that history.
\<close>

subsection \<open>State and operations\<close>

record conf_tracker =
  ct_base :: conf_state
  ct_base_index :: index
  ct_appended :: "(index \<times> conf_state) list"

definition ct_new :: "conf_state \<Rightarrow> index \<Rightarrow> conf_tracker" where
  "ct_new base i = \<lparr>ct_base = base, ct_base_index = i, ct_appended = []\<rparr>"

definition ct_current :: "conf_tracker \<Rightarrow> conf_state" where
  "ct_current t = (if ct_appended t = [] then ct_base t else snd (last (ct_appended t)))"

definition ct_append :: "conf_tracker \<Rightarrow> index \<Rightarrow> conf_change \<Rightarrow> conf_tracker" where
  "ct_append t i ch =
     (let nxt = fst (conf_change_apply_to ch (ct_current t))
      in t\<lparr>ct_appended := filter (\<lambda>(at, _). at < i) (ct_appended t) @ [(i, nxt)]\<rparr>)"

definition ct_truncate_from :: "conf_tracker \<Rightarrow> index \<Rightarrow> conf_tracker \<times> bool" where
  "ct_truncate_from t i =
     (let before = ct_current t;
          t' = t\<lparr>ct_appended := filter (\<lambda>(at, _). at < i) (ct_appended t)\<rparr>
      in (t', ct_current t' \<noteq> before))"

fun ct_commit_loop :: "conf_state \<Rightarrow> index \<Rightarrow> (index \<times> conf_state) list \<Rightarrow> index \<Rightarrow> conf_tracker" where
  "ct_commit_loop base bi [] i = \<lparr>ct_base = base, ct_base_index = bi, ct_appended = []\<rparr>"
| "ct_commit_loop base bi ((at, conf) # rest) i =
     (if i < at then \<lparr>ct_base = base, ct_base_index = bi, ct_appended = (at, conf) # rest\<rparr>
      else ct_commit_loop conf at rest i)"

definition ct_commit_to :: "conf_tracker \<Rightarrow> index \<Rightarrow> conf_tracker" where
  "ct_commit_to t i = ct_commit_loop (ct_base t) (ct_base_index t) (ct_appended t) i"

definition ct_pending :: "conf_tracker \<Rightarrow> index option" where
  "ct_pending t = (case ct_appended t of [] \<Rightarrow> None | (at, _) # _ \<Rightarrow> Some at)"

definition ct_reset :: "conf_tracker \<Rightarrow> conf_state \<Rightarrow> index \<Rightarrow> conf_tracker" where
  "ct_reset t conf i = t\<lparr>ct_base := conf, ct_base_index := i, ct_appended := []\<rparr>"

subsection \<open>The history it stands for\<close>

text \<open>A history is the list of changes above the base with the index of each; \<open>conf_trace\<close> is the
  configuration after each of them.\<close>

type_synonym history = "(index \<times> conf_change) list"

definition conf_apply :: "conf_change \<Rightarrow> conf_state \<Rightarrow> conf_state" where
  "conf_apply ch c = fst (conf_change_apply_to ch c)"

primrec conf_trace :: "conf_state \<Rightarrow> history \<Rightarrow> (index \<times> conf_state) list" where
  "conf_trace c [] = []"
| "conf_trace c (x # h) = (fst x, conf_apply (snd x) c) # conf_trace (conf_apply (snd x) c) h"

definition conf_after :: "conf_state \<Rightarrow> history \<Rightarrow> conf_state" where
  "conf_after c h = foldl (\<lambda>c x. conf_apply (snd x) c) c h"

definition mirrors :: "conf_tracker \<Rightarrow> history \<Rightarrow> bool" where
  "mirrors t h \<longleftrightarrow> ct_appended t = conf_trace (ct_base t) h \<and> sorted_wrt (<) (ct_base_index t # map fst h)"

lemma conf_after_simps [simp]:
  "conf_after c [] = c" "conf_after c (x # h) = conf_after (conf_apply (snd x) c) h"
  "conf_after c (h @ h') = conf_after (conf_after c h) h'"
  by (simp_all add: conf_after_def)

lemma conf_trace_append: "conf_trace c (h @ h') = conf_trace c h @ conf_trace (conf_after c h) h'"
  by (induction h arbitrary: c) simp_all

lemma map_fst_conf_trace [simp]: "map fst (conf_trace c h) = map fst h"
  by (induction h arbitrary: c) simp_all

lemma conf_trace_Nil_iff [simp]: "conf_trace c h = [] \<longleftrightarrow> h = []"
  by (cases h) simp_all

lemma last_conf_trace: "h \<noteq> [] \<Longrightarrow> snd (last (conf_trace c h)) = conf_after c h"
  by (induction h arbitrary: c) auto

lemma filter_fst_empty: "filter (\<lambda>(at, _). at < i) xs = [] \<longleftrightarrow> (\<forall>k \<in> set (map fst xs). \<not> k < i)"
  by (force simp: filter_empty_conv)

text \<open>In a history with ascending indices the part below an index is a prefix.\<close>

lemma conf_trace_filter:
  "sorted_wrt (<) (map fst h) \<Longrightarrow>
    filter (\<lambda>(at, _). at < i) (conf_trace c h) = conf_trace c (filter (\<lambda>(at, _). at < i) h)"
proof (induction h arbitrary: c)
  case (Cons x h)
  show ?case
  proof (cases "fst x < i")
    case False
    with Cons.prems have none: "\<forall>k \<in> set (map fst h). \<not> k < i" by auto
    then have "filter (\<lambda>(at, _). at < i) h = []" unfolding filter_fst_empty .
    moreover have "filter (\<lambda>(at, _). at < i) (conf_trace c' h) = []" for c'
      unfolding filter_fst_empty map_fst_conf_trace by (rule none)
    ultimately show ?thesis using False by (cases x) simp
  next
    case True
    with Cons show ?thesis by (cases x) simp
  qed
qed simp

lemma filter_less_prefix:
  fixes h :: "('a::linorder \<times> 'b) list"
  shows "sorted_wrt (<) (map fst h) \<Longrightarrow>
    h = filter (\<lambda>(at, _). at < i) h @ filter (\<lambda>(at, _). i \<le> at) h"
proof (induction h)
  case (Cons x h)
  have "filter (\<lambda>(at, _). at < i) h = []" if "i \<le> fst x"
  proof -
    have "\<forall>k \<in> set (map fst h). fst x < k" using Cons.prems by simp
    with that show ?thesis unfolding filter_fst_empty by fastforce
  qed
  with Cons show ?case by (cases x) (auto simp: not_le)
qed simp

lemma mirrors_current: "mirrors t h \<Longrightarrow> ct_current t = conf_after (ct_base t) h"
  by (auto simp: mirrors_def ct_current_def last_conf_trace)

lemma mirrors_new: "mirrors (ct_new base i) []" and mirrors_reset: "mirrors (ct_reset t conf i) []"
  by (simp_all add: mirrors_def ct_new_def ct_reset_def)

lemma mirrors_append:
  assumes "mirrors t h" "\<forall>x \<in> set h. fst x < i" "ct_base_index t < i"
  shows "mirrors (ct_append t i ch) (h @ [(i, ch)])"
proof -
  have "filter (\<lambda>(at, _). at < i) h = h" using assms(2) by (auto simp: filter_id_conv)
  then have "filter (\<lambda>(at, _). at < i) (conf_trace (ct_base t) h) = conf_trace (ct_base t) h"
    using assms(1) conf_trace_filter [of h i] by (simp add: mirrors_def)
  with assms mirrors_current [OF assms(1)] show ?thesis
    by (auto simp: mirrors_def ct_append_def Let_def conf_trace_append conf_apply_def sorted_wrt_append)
qed

lemma mirrors_truncate:
  assumes "mirrors t h"
  shows "mirrors (fst (ct_truncate_from t i)) (filter (\<lambda>(at, _). at < i) h)"
  using assms conf_trace_filter [of h i]
  by (auto simp: mirrors_def ct_truncate_from_def Let_def sorted_wrt_map sorted_wrt_filter)

lemma ct_commit_loop_mirrors:
  "sorted_wrt (<) (bi # map fst h) \<Longrightarrow>
   let t' = ct_commit_loop base bi (conf_trace base h) i in
     mirrors t' (filter (\<lambda>(at, _). i < at) h)
     \<and> ct_base t' = conf_after base (filter (\<lambda>(at, _). at \<le> i) h)"
proof (induction h arbitrary: base bi)
  case (Cons x h)
  show ?case
  proof (cases "i < fst x")
    case True
    with Cons.prems have "\<forall>y \<in> set h. i < fst y" by auto
    then have "filter (\<lambda>(at, _). i < at) h = h" "filter (\<lambda>(at, _). at \<le> i) h = []"
      by (auto simp: filter_id_conv filter_empty_conv)
    with True Cons.prems show ?thesis
      by (cases x) (simp add: mirrors_def Let_def)
  next
    case False
    with Cons.prems Cons.IH [of "fst x" "conf_apply (snd x) base"] show ?thesis
      by (cases x) (simp add: Let_def)
  qed
qed (simp add: mirrors_def Let_def)

lemma mirrors_commit:
  assumes "mirrors t h"
  shows "mirrors (ct_commit_to t i) (filter (\<lambda>(at, _). i < at) h)"
    "ct_base (ct_commit_to t i) = conf_after (ct_base t) (filter (\<lambda>(at, _). at \<le> i) h)"
  using ct_commit_loop_mirrors [of "ct_base_index t" h "ct_base t" i] assms
  by (simp_all add: ct_commit_to_def mirrors_def Let_def)

lemma filter_le_prefix:
  "sorted_wrt (<) (map fst h) \<Longrightarrow>
    h = filter (\<lambda>(at, _). at \<le> i) h @ filter (\<lambda>(at, _). i < at) h" for i :: nat
  using filter_less_prefix [of h "Suc i"] by (simp add: less_Suc_eq_le Suc_le_eq)

lemma ct_commit_current:
  assumes "mirrors t h"
  shows "ct_current (ct_commit_to t i) = ct_current t"
proof -
  have "sorted_wrt (<) (map fst h)" using assms by (simp add: mirrors_def)
  from filter_le_prefix [OF this, of i]
  have "conf_after (ct_base t) h =
      conf_after (conf_after (ct_base t) (filter (\<lambda>(at, _). at \<le> i) h)) (filter (\<lambda>(at, _). i < at) h)"
    by (metis conf_after_simps(3))
  with mirrors_commit [OF assms, of i] show ?thesis
    by (simp add: mirrors_current [OF assms] mirrors_current [OF mirrors_commit(1) [OF assms]])
qed

lemma ct_pending_iff: "mirrors t h \<Longrightarrow> ct_pending t = (case h of [] \<Rightarrow> None | x # _ \<Rightarrow> Some (fst x))"
  by (cases h) (auto simp: mirrors_def ct_pending_def)

subsection \<open>Properties\<close>

text \<open>C24. The membership stack implements the history of the log's configuration changes. In terms
  of that history: appending a change at a new index adds it, truncating from an index drops
  exactly the changes at or above it and reports whether the configuration moved, committing to an
  index folds exactly the changes at or below it into the base without changing the configuration
  in force, and the pending change is the oldest one not yet folded.\<close>

theorem conf_tracker_refines_history:
  assumes "mirrors t h"
  shows "ct_current t = conf_after (ct_base t) h
    \<and> (ct_base_index t < i \<and> (\<forall>x \<in> set h. fst x < i) \<longrightarrow> mirrors (ct_append t i ch) (h @ [(i, ch)]))
    \<and> mirrors (fst (ct_truncate_from t i)) (filter (\<lambda>(at, _). at < i) h)
    \<and> (snd (ct_truncate_from t i) \<longleftrightarrow>
         conf_after (ct_base t) (filter (\<lambda>(at, _). at < i) h) \<noteq> conf_after (ct_base t) h)
    \<and> mirrors (ct_commit_to t i) (filter (\<lambda>(at, _). i < at) h)
    \<and> ct_current (ct_commit_to t i) = ct_current t
    \<and> (ct_pending t = None \<longleftrightarrow> h = [])"
proof -
  have "snd (ct_truncate_from t i) \<longleftrightarrow>
      conf_after (ct_base t) (filter (\<lambda>(at, _). at < i) h) \<noteq> conf_after (ct_base t) h"
    using mirrors_current [OF mirrors_truncate [OF assms, of i]] mirrors_current [OF assms]
    by (simp add: ct_truncate_from_def Let_def)
  moreover have "ct_pending t = None \<longleftrightarrow> h = []"
    using ct_pending_iff [OF assms] by (simp split: list.splits)
  ultimately show ?thesis
    using mirrors_current [OF assms] mirrors_append [OF assms] mirrors_truncate [OF assms]
      mirrors_commit(1) [OF assms] ct_commit_current [OF assms] by blast
qed

theorem conf_tracker_refines_history_witness:
  "let t = ct_append (ct_new (conf_from_voters [1, 2, 3]) 0) 5 (conf_change_new AddVoter 4) in
   mirrors t [(5, conf_change_new AddVoter 4)] \<and> mirrors (fst (ct_truncate_from t 5)) []"
proof -
  let ?t = "ct_new (conf_from_voters [1, 2, 3]) 0" and ?ch = "conf_change_new AddVoter 4"
  have m: "mirrors (ct_append ?t 5 ?ch) ([] @ [(5, ?ch)])"
    using conf_tracker_refines_history [of ?t "[]" 5 ?ch] mirrors_new by (simp add: ct_new_def)
  with conf_tracker_refines_history [of "ct_append ?t 5 ?ch" "[(5, ?ch)]" 5 ?ch] show ?thesis by simp
qed

end
