(* ===== verification/RaftProgress.thy ===== *)
theory RaftProgress
  imports RaftTypes
begin

text \<open>
  What the leader believes about each follower (\<^verbatim>\<open>crates/esker-raft/src/progress.rs\<close>): the
  bounded window of messages in flight, the probe / replicate / snapshot state machine of one
  peer, and the map of peers, a vector sorted by node id.
\<close>

subsection \<open>The window of messages in flight\<close>

datatype progress_state = Probe | Replicate | SnapshotState

record inflights =
  inf_window :: "index list"
  inf_capacity :: nat

definition inflights_new :: "nat \<Rightarrow> inflights" where
  "inflights_new capacity = \<lparr>inf_window = [], inf_capacity = max capacity 1\<rparr>"

definition inflights_is_full :: "inflights \<Rightarrow> bool" where
  "inflights_is_full f \<longleftrightarrow> inf_capacity f \<le> length (inf_window f)"

definition inflights_add :: "inflights \<Rightarrow> index \<Rightarrow> inflights" where
  "inflights_add f lst =
     (if inflights_is_full f then f else f\<lparr>inf_window := inf_window f @ [lst]\<rparr>)"

definition inflights_free_to :: "inflights \<Rightarrow> index \<Rightarrow> inflights" where
  "inflights_free_to f acked = f\<lparr>inf_window := dropWhile (\<lambda>lst. lst \<le> acked) (inf_window f)\<rparr>"

definition inflights_reset :: "inflights \<Rightarrow> inflights" where
  "inflights_reset f = f\<lparr>inf_window := []\<rparr>"

subsection \<open>One peer\<close>

record progress =
  pr_matched :: index
  pr_next :: index
  pr_state :: progress_state
  pr_recent_active :: bool
  pr_probe_sent :: bool
  pr_pending_snapshot :: index
  pr_snapshot_elapsed :: u64
  pr_is_learner :: bool
  pr_inflights :: inflights

definition progress_new :: "index \<Rightarrow> nat \<Rightarrow> bool \<Rightarrow> progress" where
  "progress_new nxt max_inflight is_learner =
     \<lparr>pr_matched = 0, pr_next = nxt, pr_state = Probe, pr_recent_active = False,
      pr_probe_sent = False, pr_pending_snapshot = 0, pr_snapshot_elapsed = 0,
      pr_is_learner = is_learner, pr_inflights = inflights_new max_inflight\<rparr>"

definition become_probe :: "progress \<Rightarrow> progress" where
  "become_probe p =
     p\<lparr>pr_next := (if pr_state p = SnapshotState
                   then sat_add (max (pr_matched p) (pr_pending_snapshot p)) 1
                   else sat_add (pr_matched p) 1),
       pr_state := Probe, pr_pending_snapshot := 0, pr_snapshot_elapsed := 0,
       pr_probe_sent := False, pr_inflights := inflights_reset (pr_inflights p)\<rparr>"

definition become_replicate :: "progress \<Rightarrow> progress" where
  "become_replicate p =
     p\<lparr>pr_state := Replicate, pr_next := sat_add (pr_matched p) 1, pr_pending_snapshot := 0,
       pr_snapshot_elapsed := 0, pr_probe_sent := False,
       pr_inflights := inflights_reset (pr_inflights p)\<rparr>"

definition become_snapshot :: "progress \<Rightarrow> index \<Rightarrow> progress" where
  "become_snapshot p i =
     p\<lparr>pr_state := SnapshotState, pr_pending_snapshot := i, pr_snapshot_elapsed := 0,
       pr_probe_sent := False, pr_inflights := inflights_reset (pr_inflights p)\<rparr>"

definition abort_snapshot :: "progress \<Rightarrow> progress" where
  "abort_snapshot p = become_probe (p\<lparr>pr_pending_snapshot := 0\<rparr>)"

definition snapshot_is_moot :: "progress \<Rightarrow> bool" where
  "snapshot_is_moot p \<longleftrightarrow> pr_state p = SnapshotState \<and> pr_pending_snapshot p \<le> pr_matched p"

definition snapshot_tick :: "progress \<Rightarrow> u64 \<Rightarrow> progress \<times> bool" where
  "snapshot_tick p limit =
     (if pr_state p \<noteq> SnapshotState then (p, False)
      else let e = sat_add (pr_snapshot_elapsed p) 1
           in (p\<lparr>pr_snapshot_elapsed := e\<rparr>, limit \<le> e))"

definition maybe_update :: "progress \<Rightarrow> index \<Rightarrow> progress \<times> bool" where
  "maybe_update p acked =
     (let advanced = pr_matched p < acked;
          p1 = (if advanced then p\<lparr>pr_matched := acked, pr_probe_sent := False\<rparr> else p);
          p2 = p1\<lparr>pr_next := max (pr_next p1) (sat_add acked 1)\<rparr>;
          p3 = (if snapshot_is_moot p2 then become_probe p2 else p2)
      in (p3, advanced))"

definition maybe_decr_to :: "progress \<Rightarrow> index \<Rightarrow> progress \<times> bool" where
  "maybe_decr_to p probe =
     (let candidate = max probe (sat_add (pr_matched p) 1) in
      if pr_state p = SnapshotState then (become_probe p, True)
      else if pr_state p = Replicate then
        (if probe \<le> pr_matched p then (p, False)
         else ((become_probe p)\<lparr>pr_next := candidate\<rparr>, True))
      else if pr_next p \<le> candidate then (p, False)
      else (p\<lparr>pr_next := candidate, pr_probe_sent := False\<rparr>, True))"

definition is_paused :: "progress \<Rightarrow> bool" where
  "is_paused p =
     (case pr_state p of
        Probe \<Rightarrow> pr_probe_sent p
      | Replicate \<Rightarrow> inflights_is_full (pr_inflights p)
      | SnapshotState \<Rightarrow> True)"

subsection \<open>The map of peers\<close>

type_synonym progress_map = "(node_id \<times> progress) list"

definition pm_index_of :: "progress_map \<Rightarrow> node_id \<Rightarrow> nat option" where
  "pm_index_of m n = (case binary_search_by_key n fst m of Ok i \<Rightarrow> Some i | Err _ \<Rightarrow> None)"

definition pm_get :: "progress_map \<Rightarrow> node_id \<Rightarrow> progress option" where
  "pm_get m n = map_option (\<lambda>i. snd (m ! i)) (pm_index_of m n)"

text \<open>Writing through the reference \<^verbatim>\<open>get_mut\<close> returns: the peer's entry becomes \<open>f\<close> of it, and
  an unknown peer leaves the map as it is.\<close>

definition pm_modify :: "progress_map \<Rightarrow> node_id \<Rightarrow> (progress \<Rightarrow> progress) \<Rightarrow> progress_map" where
  "pm_modify m n f =
     (case pm_index_of m n of None \<Rightarrow> m | Some i \<Rightarrow> m[i := (fst (m ! i), f (snd (m ! i)))])"

definition pm_insert :: "progress_map \<Rightarrow> node_id \<Rightarrow> progress \<Rightarrow> progress_map" where
  "pm_insert m n p =
     (case pm_index_of m n of
        Some i \<Rightarrow> m[i := (fst (m ! i), p)]
      | None \<Rightarrow> insert_at (partition_point (\<lambda>x. fst x < n) m) (n, p) m)"

definition pm_remove :: "progress_map \<Rightarrow> node_id \<Rightarrow> progress_map" where
  "pm_remove m n = (case pm_index_of m n of Some i \<Rightarrow> remove_at i m | None \<Rightarrow> m)"

definition pm_contains :: "progress_map \<Rightarrow> node_id \<Rightarrow> bool" where
  "pm_contains m n \<longleftrightarrow> pm_index_of m n \<noteq> None"

text \<open>A pass with \<^verbatim>\<open>iter_mut\<close>, in id order.\<close>

definition pm_iter_mut :: "(node_id \<Rightarrow> progress \<Rightarrow> progress) \<Rightarrow> progress_map \<Rightarrow> progress_map" where
  "pm_iter_mut f m = map (\<lambda>(n, p). (n, f n p)) m"

definition pm_ids :: "progress_map \<Rightarrow> node_id list" where
  "pm_ids m = map fst m"

subsection \<open>The map as a finite map\<close>

text \<open>What the core relies on of the map of peers.\<close>

locale peer_map =
  fixes get :: "'m \<Rightarrow> node_id \<Rightarrow> 'v option"
    and insert_peer :: "'m \<Rightarrow> node_id \<Rightarrow> 'v \<Rightarrow> 'm"
    and remove_peer :: "'m \<Rightarrow> node_id \<Rightarrow> 'm"
    and modify :: "'m \<Rightarrow> node_id \<Rightarrow> ('v \<Rightarrow> 'v) \<Rightarrow> 'm"
    and ids :: "'m \<Rightarrow> node_id list"
    and ok :: "'m \<Rightarrow> bool"
  assumes insert_ok: "ok m \<Longrightarrow> ok (insert_peer m n v)"
    and remove_ok: "ok m \<Longrightarrow> ok (remove_peer m n)"
    and modify_ok: "ok m \<Longrightarrow> ok (modify m n f)"
    and get_insert: "ok m \<Longrightarrow> get (insert_peer m n v) k = (if k = n then Some v else get m k)"
    and get_remove: "ok m \<Longrightarrow> get (remove_peer m n) k = (if k = n then None else get m k)"
    and get_modify: "ok m \<Longrightarrow> get (modify m n f) k = (if k = n then map_option f (get m k) else get m k)"
    and ids_iff: "ok m \<Longrightarrow> k \<in> set (ids m) \<longleftrightarrow> get m k \<noteq> None"
begin

text \<open>A pass that inserts a value for each id of a list, and one that removes the ids of a list
  that fail a test.\<close>

definition insert_all :: "(node_id \<Rightarrow> 'v) \<Rightarrow> node_id list \<Rightarrow> 'm \<Rightarrow> 'm" where
  "insert_all v ns m = foldl (\<lambda>m n. insert_peer m n (v n)) m ns"

definition retain_ids :: "(node_id \<Rightarrow> bool) \<Rightarrow> node_id list \<Rightarrow> 'm \<Rightarrow> 'm" where
  "retain_ids p ns m = foldl (\<lambda>m n. if p n then m else remove_peer m n) m ns"

lemma insert_all_ok: "ok m \<Longrightarrow> ok (insert_all v ns m)"
  by (induction ns arbitrary: m) (simp_all add: insert_all_def insert_ok)

lemma get_insert_all:
  "ok m \<Longrightarrow> get (insert_all v ns m) k = (if k \<in> set ns then Some (v k) else get m k)"
  by (induction ns arbitrary: m) (auto simp: insert_all_def insert_ok get_insert)

lemma retain_ids_ok: "ok m \<Longrightarrow> ok (retain_ids p ns m)"
  by (induction ns arbitrary: m) (simp_all add: retain_ids_def remove_ok)

lemma get_retain_ids:
  "ok m \<Longrightarrow> get (retain_ids p ns m) k = (if k \<in> set ns \<and> \<not> p k then None else get m k)"
  by (induction ns arbitrary: m) (auto simp: retain_ids_def remove_ok get_remove)

lemma retain_own_ids:
  "ok m \<Longrightarrow> get (retain_ids p (ids m) m) k = (if p k then get m k else None)"
  by (auto simp: get_retain_ids ids_iff)

end

abbreviation pm_ok :: "progress_map \<Rightarrow> bool" where
  "pm_ok \<equiv> sorted_by fst"

lemma pm_index_of_Some: "pm_ok m \<Longrightarrow> pm_index_of m n = Some i \<Longrightarrow> i < length m \<and> fst (m ! i) = n"
  by (auto simp: pm_index_of_def split: result.splits dest: binary_search_by_key_OkD)

lemma pm_index_of_None:
  assumes "pm_ok m"
  shows "pm_index_of m n = None \<longleftrightarrow> n \<notin> set (map fst m)"
  using binary_search_by_key_is_ok [OF assms, of n]
  by (auto simp: pm_index_of_def is_ok_iff split: result.splits)

lemma pm_get_map_of:
  assumes "pm_ok m"
  shows "pm_get m n = map_of m n"
proof (cases "pm_index_of m n")
  case None
  with pm_index_of_None [OF assms] show ?thesis
    by (auto simp: pm_get_def map_of_eq_None_iff [symmetric] dest: sym)
next
  case (Some i)
  with pm_index_of_Some [OF assms Some] have "(n, snd (m ! i)) \<in> set m"
    by (metis nth_mem prod.collapse)
  with Some map_of_is_SomeI [OF sorted_by_distinct [OF assms]] show ?thesis
    by (simp add: pm_get_def)
qed

lemma map_fst_update: "i < length m \<Longrightarrow> map fst (m[i := (fst (m ! i), v)]) = map fst m"
  by (simp add: map_update) (metis list_update_id nth_map)

lemma map_of_update:
  assumes "pm_ok m" "i < length m"
  shows "map_of (m[i := (fst (m ! i), v)]) k = (if k = fst (m ! i) then Some v else map_of m k)"
proof -
  have m: "m = take i m @ m ! i # drop (Suc i) m" using assms(2) by (rule id_take_nth_drop)
  have "distinct (map fst (take i m @ m ! i # drop (Suc i) m))"
    using sorted_by_distinct [OF assms(1)] m by simp
  then have "map_of (take i m) (fst (m ! i)) = None" by (auto simp: map_of_eq_None_iff)
  then have "map_of (take i m @ (fst (m ! i), v) # drop (Suc i) m) k
      = (if k = fst (m ! i) then Some v else map_of (take i m @ m ! i # drop (Suc i) m) k)"
    by (cases "m ! i") (auto simp: map_add_def split: option.split)
  with m assms(2) show ?thesis by (simp add: upd_conv_take_nth_drop)
qed

lemma pm_insert_position:
  assumes ok: "pm_ok m" and none: "pm_index_of m n = None"
  shows "binary_search_by_key n fst m = Err (partition_point (\<lambda>x. fst x < n) m)"
proof -
  obtain j where j: "binary_search_by_key n fst m = Err j"
    using none by (auto simp: pm_index_of_def split: result.splits)
  have le: "fst (m ! a) \<le> fst (m ! b)" if "a \<le> b" "b < length m" for a b
    using that sorted_by_nth_less [OF ok, of a b] by (cases "a = b") auto
  let ?f = "\<lambda>x. if fst x < n then Less else Greater"
  have "case binary_search_by ?f m of
      Ok i \<Rightarrow> i < length m \<and> ?f (m ! i) = Equal
    | Err i \<Rightarrow> i \<le> length m \<and> (\<forall>j < i. ?f (m ! j) = Less)
        \<and> (\<forall>j. i \<le> j \<longrightarrow> j < length m \<longrightarrow> ?f (m ! j) = Greater)"
    by (rule binary_search_by_cases) (auto split: if_splits dest: le)
  then obtain i where i: "binary_search_by ?f m = Err i" "i \<le> length m"
    "\<And>k. k < i \<Longrightarrow> fst (m ! k) < n" "\<And>k. i \<le> k \<Longrightarrow> k < length m \<Longrightarrow> \<not> fst (m ! k) < n"
    by (auto split: result.splits if_splits)
  have "j \<le> length m" "\<And>k. k < j \<Longrightarrow> fst (m ! k) < n" "\<And>k. j \<le> k \<Longrightarrow> k < length m \<Longrightarrow> n < fst (m ! k)"
    using binary_search_by_key_cases [OF ok, of n] j by auto
  with i have "i = j" by (metis less_asym less_le_trans linorder_neqE_nat order_refl)
  with i j show ?thesis by (simp add: partition_point_def)
qed

lemma remove_at_eq:
  assumes "pm_ok m" "i < length m"
  shows "pm_ok (remove_at i m)"
    and "map_of (remove_at i m) k = (if k = fst (m ! i) then None else map_of m k)"
proof -
  have m: "m = take i m @ m ! i # drop (Suc i) m" using assms(2) by (rule id_take_nth_drop)
  have so: "pm_ok (take i m @ m ! i # drop (Suc i) m)" using assms(1) m by simp
  then show "pm_ok (remove_at i m)" by (auto simp: remove_at_def sorted_wrt_append)
  from sorted_by_distinct [OF so]
  have "map_of (take i m) (fst (m ! i)) = None" "map_of (drop (Suc i) m) (fst (m ! i)) = None"
    by (auto simp: map_of_eq_None_iff)
  then have "map_of (take i m @ drop (Suc i) m) k
      = (if k = fst (m ! i) then None else map_of (take i m @ m ! i # drop (Suc i) m) k)"
    by (cases "m ! i") (auto simp: map_add_def split: option.split)
  with m show "map_of (remove_at i m) k = (if k = fst (m ! i) then None else map_of m k)"
    by (simp add: remove_at_def)
qed

lemma insert_at_eq:
  assumes ok: "pm_ok m" and none: "pm_index_of m n = None"
  defines "at \<equiv> partition_point (\<lambda>x. fst x < n) m"
  shows "pm_ok (insert_at at (n, v) m)"
    and "map_of (insert_at at (n, v) m) k = (if k = n then Some v else map_of m k)"
proof -
  have bs: "binary_search_by_key (fst (n, v)) fst m = Err at"
    using pm_insert_position [OF ok none] by (simp add: at_def)
  show so: "pm_ok (insert_at at (n, v) m)" by (rule sorted_by_insert_at [OF ok bs])
  have "map_of (take at m) n = None"
    using sorted_by_distinct [OF so] by (auto simp: insert_at_def map_of_eq_None_iff)
  moreover have "map_of m k = (map_of (drop at m) ++ map_of (take at m)) k"
    by (metis append_take_drop_id map_of_append)
  ultimately show "map_of (insert_at at (n, v) m) k = (if k = n then Some v else map_of m k)"
    by (auto simp: insert_at_def map_add_def split: option.split)
qed

lemma pm_insert_eq:
  assumes "pm_ok m"
  shows "pm_ok (pm_insert m n v)" and "map_of (pm_insert m n v) k = (if k = n then Some v else map_of m k)"
  using pm_index_of_Some [OF assms, of n] insert_at_eq [OF assms, of n v]
    map_fst_update [of _ m] map_of_update [OF assms] assms
  by (auto simp: pm_insert_def split: option.splits)

interpretation peers: peer_map pm_get pm_insert pm_remove pm_modify pm_ids pm_ok
proof unfold_locales
  fix m n k and v :: progress and f :: "progress \<Rightarrow> progress"
  assume ok: "pm_ok m"
  show ins: "pm_ok (pm_insert m n v)" by (rule pm_insert_eq(1) [OF ok])
  show "pm_get (pm_insert m n v) k = (if k = n then Some v else pm_get m k)"
    using pm_insert_eq(2) [OF ok] by (simp add: pm_get_map_of [OF ok] pm_get_map_of [OF ins])
  show rm: "pm_ok (pm_remove m n)"
    using remove_at_eq(1) [OF ok] pm_index_of_Some [OF ok] ok by (auto simp: pm_remove_def split: option.split)
  have "map_of (pm_remove m n) k = (if k = n then None else map_of m k)"
  proof (cases "pm_index_of m n")
    case None
    then have "map_of m n = None" using pm_index_of_None [OF ok] by (simp add: map_of_eq_None_iff)
    with None show ?thesis by (auto simp: pm_remove_def)
  next
    case (Some i)
    with pm_index_of_Some [OF ok Some] remove_at_eq(2) [OF ok, of i k] show ?thesis
      by (simp add: pm_remove_def)
  qed
  then show "pm_get (pm_remove m n) k = (if k = n then None else pm_get m k)"
    by (simp add: pm_get_map_of [OF ok] pm_get_map_of [OF rm])
  show md: "pm_ok (pm_modify m n f)"
  proof (cases "pm_index_of m n")
    case (Some i)
    with pm_index_of_Some [OF ok Some] map_fst_update [of i m] ok show ?thesis
      by (simp add: pm_modify_def)
  qed (use ok in \<open>simp add: pm_modify_def\<close>)
  have "map_of (pm_modify m n f) k = (if k = n then map_option f (map_of m k) else map_of m k)"
  proof (cases "pm_index_of m n")
    case None
    then have "map_of m n = None" using pm_index_of_None [OF ok] by (simp add: map_of_eq_None_iff)
    with None show ?thesis by (auto simp: pm_modify_def)
  next
    case (Some i)
    have "map_of m n = Some (snd (m ! i))"
      using pm_get_map_of [OF ok, of n] Some by (simp add: pm_get_def)
    with Some pm_index_of_Some [OF ok Some] map_of_update [OF ok, of i] show ?thesis
      by (simp add: pm_modify_def)
  qed
  then show "pm_get (pm_modify m n f) k = (if k = n then map_option f (pm_get m k) else pm_get m k)"
    by (simp add: pm_get_map_of [OF ok] pm_get_map_of [OF md])
  show "k \<in> set (pm_ids m) \<longleftrightarrow> pm_get m k \<noteq> None"
    by (simp add: pm_get_map_of [OF ok] pm_ids_def map_of_eq_None_iff)
qed

subsection \<open>The invariant of one peer\<close>

definition progress_ok :: "progress \<Rightarrow> bool" where
  "progress_ok p \<longleftrightarrow> pr_matched p < pr_next p \<and> pr_next p \<le> u64_max
     \<and> 0 < inf_capacity (pr_inflights p)
     \<and> length (inf_window (pr_inflights p)) \<le> inf_capacity (pr_inflights p)
     \<and> (pr_state p \<noteq> SnapshotState \<longrightarrow> pr_pending_snapshot p = 0 \<and> pr_snapshot_elapsed p = 0)"

lemmas progress_defs = become_probe_def become_replicate_def become_snapshot_def abort_snapshot_def
  inflights_reset_def inflights_new_def sat_add_def

lemma progress_new_ok: "0 < nxt \<Longrightarrow> nxt \<le> u64_max \<Longrightarrow> progress_ok (progress_new nxt c b)"
  by (simp add: progress_ok_def progress_new_def inflights_new_def)

lemma become_probe_ok:
  "progress_ok p \<Longrightarrow> (pr_state p = SnapshotState \<Longrightarrow> pr_pending_snapshot p < u64_max) \<Longrightarrow> progress_ok (become_probe p)"
  by (auto simp: progress_ok_def progress_defs min_def max_def)

lemma become_replicate_ok:
  "progress_ok p \<Longrightarrow> progress_ok (become_replicate p)"
  by (auto simp: progress_ok_def progress_defs min_def)

lemma become_snapshot_ok: "progress_ok p \<Longrightarrow> progress_ok (become_snapshot p i)"
  by (auto simp: progress_ok_def progress_defs)

lemma abort_snapshot_ok: "progress_ok p \<Longrightarrow> progress_ok (abort_snapshot p)"
  by (auto simp: progress_ok_def progress_defs min_def)

lemma snapshot_tick_ok: "progress_ok p \<Longrightarrow> progress_ok (fst (snapshot_tick p l))"
  by (auto simp: progress_ok_def snapshot_tick_def Let_def)

lemma inflights_add_ok:
  "progress_ok p \<Longrightarrow> progress_ok (p\<lparr>pr_inflights := inflights_add (pr_inflights p) i\<rparr>)"
  by (auto simp: progress_ok_def inflights_add_def inflights_is_full_def)

lemma inflights_free_ok:
  "progress_ok p \<Longrightarrow> progress_ok (p\<lparr>pr_inflights := inflights_free_to (pr_inflights p) i\<rparr>)"
  using length_dropWhile_le [of _ "inf_window (pr_inflights p)"]
  by (auto simp: progress_ok_def inflights_free_to_def intro: order_trans)

lemma maybe_update_ok:
  "progress_ok p \<Longrightarrow> acked < u64_max \<Longrightarrow> progress_ok (fst (maybe_update p acked))"
  by (auto simp: maybe_update_def Let_def progress_ok_def snapshot_is_moot_def progress_defs max_def min_def)

lemma maybe_update_matched: "pr_matched (fst (maybe_update p acked)) = max (pr_matched p) acked"
  by (auto simp: maybe_update_def Let_def snapshot_is_moot_def become_probe_def max_def)

lemma maybe_decr_ok:
  "progress_ok p \<Longrightarrow> probe \<le> u64_max \<Longrightarrow> (pr_state p = SnapshotState \<Longrightarrow> pr_pending_snapshot p < u64_max) \<Longrightarrow>
   progress_ok (fst (maybe_decr_to p probe))"
  by (auto simp: maybe_decr_to_def Let_def progress_ok_def progress_defs max_def min_def)



text \<open>One tick of \<^verbatim>\<open>expire_pending_snapshots\<close> for one peer.\<close>

definition expire_tick :: "u64 \<Rightarrow> progress \<Rightarrow> progress" where
  "expire_tick limit p =
     (case snapshot_tick p limit of (p', expired) \<Rightarrow> if expired then abort_snapshot p' else p')"

lemma expire_tick_other: "pr_state p \<noteq> SnapshotState \<Longrightarrow> (expire_tick l ^^ n) p = p"
  by (induction n) (simp_all add: expire_tick_def snapshot_tick_def)

lemma expire_ticks:
  assumes "pr_state p = SnapshotState" "limit \<le> u64_max" "limit - pr_snapshot_elapsed p \<le> n" "0 < n"
  shows "(expire_tick limit ^^ n) p = abort_snapshot p"
  using assms
proof (induction n arbitrary: p)
  case (Suc n)
  let ?e = "sat_add (pr_snapshot_elapsed p) 1"
  show ?case
  proof (cases "limit \<le> ?e")
    case True
    have "expire_tick limit p = abort_snapshot p"
      using True Suc.prems(1) by (simp add: expire_tick_def snapshot_tick_def abort_snapshot_def become_probe_def)
    then show ?thesis
      by (simp add: funpow_Suc_right expire_tick_other abort_snapshot_def become_probe_def del: funpow.simps)
  next
    case False
    let ?p = "p\<lparr>pr_snapshot_elapsed := ?e\<rparr>"
    have "expire_tick limit p = ?p"
      using False Suc.prems(1) by (simp add: expire_tick_def snapshot_tick_def Let_def)
    moreover have "(expire_tick limit ^^ n) ?p = abort_snapshot ?p"
      using False Suc.prems by (intro Suc.IH) (auto simp: sat_add_def)
    ultimately show ?thesis
      by (simp add: funpow_Suc_right abort_snapshot_def become_probe_def del: funpow.simps)
  qed
qed simp

text \<open>C27. No follower is stranded by a snapshot nobody reports on: whatever the peer's state, after
  as many leader ticks as the limit it is not waiting for a snapshot; a peer that was waiting is
  back to probing, unpaused, from one past what it is known to hold.\<close>

theorem snapshot_wait_ends:
  assumes "0 < limit" "limit \<le> u64_max"
  shows "pr_state ((expire_tick limit ^^ limit) p) \<noteq> SnapshotState
    \<and> (pr_state p = SnapshotState \<longrightarrow>
        (let q = (expire_tick limit ^^ limit) p in
         pr_state q = Probe \<and> \<not> is_paused q \<and> pr_next q = sat_add (pr_matched p) 1
         \<and> pr_matched q = pr_matched p))"
proof (cases "pr_state p = SnapshotState")
  case True
  with expire_ticks [OF True assms(2), of limit] assms show ?thesis
    by (auto simp: abort_snapshot_def become_probe_def is_paused_def Let_def max_def)
qed (simp add: expire_tick_other)

theorem snapshot_wait_ends_witness:
  "let p = become_snapshot (progress_new 8 256 False) 7 in
   pr_state ((expire_tick 100 ^^ 100) p) = Probe"
proof -
  have "pr_state (become_snapshot (progress_new 8 256 False) 7) = SnapshotState"
    by (simp add: become_snapshot_def)
  with snapshot_wait_ends [of 100 "become_snapshot (progress_new 8 256 False) 7"] show ?thesis
    by (simp add: u64_max_def Let_def)
qed

end
