(* ===== verification/RaftReadOnly.thy ===== *)
theory RaftReadOnly
  imports RaftTypes
begin

text \<open>
  The leader's outstanding read rounds (\<^verbatim>\<open>ReadOnly\<close> in \<^verbatim>\<open>crates/esker-raft/src/readonly.rs\<close>):
  each round collects the peers that confirmed the leader after the read arrived.
\<close>

subsection \<open>State and operations\<close>

record read_round =
  rr_index :: index
  rr_ctx :: bytes
  rr_acks :: "node_id list"
  rr_from :: "node_id option"

definition round_ack :: "read_round \<Rightarrow> node_id \<Rightarrow> read_round \<times> nat" where
  "round_ack r n =
     (let r' = (case binary_search n (rr_acks r) of
                  Err at \<Rightarrow> r\<lparr>rr_acks := insert_at at n (rr_acks r)\<rparr>
                | Ok _ \<Rightarrow> r)
      in (r', length (rr_acks r')))"

record read_only =
  ro_pending :: "read_round list"
  ro_postponed :: "(bytes \<times> node_id option) list"

definition ro_new :: read_only where
  "ro_new = \<lparr>ro_pending = [], ro_postponed = []\<rparr>"

definition ro_add_request ::
  "read_only \<Rightarrow> index \<Rightarrow> bytes \<Rightarrow> node_id option \<Rightarrow> node_id \<Rightarrow> read_only" where
  "ro_add_request ro i ctx from leader =
     (if \<exists>r \<in> set (ro_pending ro). rr_ctx r = ctx then ro
      else let r = \<lparr>rr_index = i, rr_ctx = ctx, rr_acks = [], rr_from = from\<rparr>
           in ro\<lparr>ro_pending := ro_pending ro @ [fst (round_ack r leader)]\<rparr>)"

fun ack_first :: "bytes \<Rightarrow> node_id \<Rightarrow> read_round list \<Rightarrow> read_round list \<times> nat option" where
  "ack_first ctx n [] = ([], None)"
| "ack_first ctx n (r # rs) =
     (if rr_ctx r = ctx then (let (r', c) = round_ack r n in (r' # rs, Some c))
      else let (rs', c) = ack_first ctx n rs in (r # rs', c))"

definition ro_record_ack :: "read_only \<Rightarrow> bytes \<Rightarrow> node_id \<Rightarrow> read_only \<times> nat option" where
  "ro_record_ack ro ctx n =
     (let (rs, c) = ack_first ctx n (ro_pending ro) in (ro\<lparr>ro_pending := rs\<rparr>, c))"

fun position :: "('a \<Rightarrow> bool) \<Rightarrow> 'a list \<Rightarrow> nat option" where
  "position p [] = None"
| "position p (x # xs) = (if p x then Some 0 else map_option Suc (position p xs))"

definition ro_advance :: "read_only \<Rightarrow> bytes \<Rightarrow> read_only \<times> read_round list" where
  "ro_advance ro ctx =
     (case position (\<lambda>r. rr_ctx r = ctx) (ro_pending ro) of
        None \<Rightarrow> (ro, [])
      | Some at \<Rightarrow> (ro\<lparr>ro_pending := drop (Suc at) (ro_pending ro)\<rparr>, take (Suc at) (ro_pending ro)))"

definition ro_last_pending_ctx :: "read_only \<Rightarrow> bytes option" where
  "ro_last_pending_ctx ro =
     (if ro_pending ro = [] then None else Some (rr_ctx (last (ro_pending ro))))"

definition ro_postpone :: "read_only \<Rightarrow> bytes \<Rightarrow> node_id option \<Rightarrow> read_only" where
  "ro_postpone ro ctx from =
     (if \<exists>x \<in> set (ro_postponed ro). fst x = ctx then ro
      else ro\<lparr>ro_postponed := ro_postponed ro @ [(ctx, from)]\<rparr>)"

definition ro_take_postponed :: "read_only \<Rightarrow> read_only \<times> (bytes \<times> node_id option) list" where
  "ro_take_postponed ro = (ro\<lparr>ro_postponed := []\<rparr>, ro_postponed ro)"

definition ro_reset :: "read_only \<Rightarrow> read_only" where
  "ro_reset ro = ro\<lparr>ro_pending := [], ro_postponed := []\<rparr>"

end
