(* ===== verification/RaftCore.thy ===== *)
theory RaftCore
  imports RaftLog RaftConf RaftProgress RaftReadOnly Rng
begin

text \<open>
  The Raft state machine (\<^verbatim>\<open>crates/esker-raft/src\<close>: \<^verbatim>\<open>config.rs\<close>, \<^verbatim>\<open>core.rs\<close>, \<^verbatim>\<open>conf.rs\<close>,
  \<^verbatim>\<open>replication.rs\<close>, \<^verbatim>\<open>snapshot.rs\<close>, \<^verbatim>\<open>readonly.rs\<close>, \<^verbatim>\<open>transfer.rs\<close>, \<^verbatim>\<open>election.rs\<close>). One
  definition per method of \<^verbatim>\<open>Raft<S>\<close>; \<open>S\<close> is the storage's methods. A method that mutates the
  node returns the new node, beside its result where it can fail, so the state an early return
  leaves behind is part of the model. The definitions follow the call graph, callees first.
\<close>

subsection \<open>Configuration\<close>

record config =
  cfg_id :: node_id
  cfg_voters :: "node_id list"
  cfg_learners :: "node_id list"
  cfg_election_tick :: "u64 \<times> u64"
  cfg_heartbeat_tick :: u64
  cfg_max_inflight_msgs :: nat
  cfg_max_size_per_msg :: u64
  cfg_pre_vote :: bool
  cfg_check_quorum :: bool
  cfg_applied :: index
  cfg_rng :: pcg32

definition MAX_SIZE_PER_MSG :: u64 where "MAX_SIZE_PER_MSG = 1024 * 1024"
definition ELECTION_TIMEOUT_MIN_TICKS :: u64 where "ELECTION_TIMEOUT_MIN_TICKS = 10"
definition ELECTION_TIMEOUT_MAX_TICKS :: u64 where "ELECTION_TIMEOUT_MAX_TICKS = 20"
definition HEARTBEAT_TICKS :: u64 where "HEARTBEAT_TICKS = 2"
definition MAX_INFLIGHT_MSGS :: nat where "MAX_INFLIGHT_MSGS = 256"
definition SNAPSHOT_TIMEOUT_TICKS :: u64 where "SNAPSHOT_TIMEOUT_TICKS = 100"

definition config_new :: "node_id \<Rightarrow> node_id list \<Rightarrow> 64 word \<Rightarrow> config" where
  "config_new n vs seed =
     \<lparr>cfg_id = n, cfg_voters = vs, cfg_learners = [],
      cfg_election_tick = (ELECTION_TIMEOUT_MIN_TICKS, ELECTION_TIMEOUT_MAX_TICKS),
      cfg_heartbeat_tick = HEARTBEAT_TICKS, cfg_max_inflight_msgs = MAX_INFLIGHT_MSGS,
      cfg_max_size_per_msg = MAX_SIZE_PER_MSG, cfg_pre_vote = True, cfg_check_quorum = True,
      cfg_applied = 0, cfg_rng = pcg_new seed (of_nat n)\<rparr>"

definition config_conf_state :: "config \<Rightarrow> conf_state" where
  "config_conf_state c = conf_normalize \<lparr>voters = cfg_voters c, learners = cfg_learners c\<rparr>"

definition config_validate :: "config \<Rightarrow> unit rresult" where
  "config_validate c =
     (if cfg_id c = 0 then Err (InvalidConfig NodeIdZero)
      else case cfg_election_tick c of (low, high) \<Rightarrow>
        if low = 0 \<or> high < low then Err (InvalidConfig (ElectionTickInverted low high))
        else if cfg_heartbeat_tick c = 0 then Err (InvalidConfig HeartbeatTickZero)
        else if low \<le> cfg_heartbeat_tick c
        then Err (InvalidConfig (ElectionBelowHeartbeat low (cfg_heartbeat_tick c)))
        else if cfg_max_inflight_msgs c = 0 then Err (InvalidConfig MaxInflightZero)
        else if cfg_max_size_per_msg c = 0 then Err (InvalidConfig MaxSizeZero)
        else Ok ())"

subsection \<open>The node\<close>

datatype role = Follower | PreCandidate | Candidate | Leader

record status =
  sta_id :: node_id
  sta_term :: rterm
  sta_voted_for :: "node_id option"
  sta_role :: role
  sta_leader :: "node_id option"
  sta_commit :: index
  sta_applied :: index
  sta_last_index :: index
  sta_conf :: conf_state

record 's raft =
  rf_id :: node_id
  rf_term :: rterm
  rf_vote :: "node_id option"
  rf_role :: role
  rf_leader :: "node_id option"
  rf_log :: "'s raft_log"
  rf_progress :: progress_map
  rf_conf :: conf_tracker
  rf_votes :: "(node_id \<times> bool) list"
  rf_messages :: "message list"
  rf_read_states :: "read_state list"
  rf_read_only :: read_only
  rf_election_elapsed :: u64
  rf_heartbeat_elapsed :: u64
  rf_randomized_election_timeout :: u64
  rf_counters :: counters
  rf_election_tick :: "u64 \<times> u64"
  rf_heartbeat_tick :: u64
  rf_max_inflight_msgs :: nat
  rf_max_size_per_msg :: u64
  rf_pre_vote :: bool
  rf_check_quorum :: bool
  rf_rng :: pcg32
  rf_lead_transferee :: "node_id option"
  rf_own_term_index :: index

definition raft_hard_state :: "'s raft \<Rightarrow> hard_state" where
  "raft_hard_state r =
     \<lparr>hs_term = rf_term r, hs_voted_for = rf_vote r, hs_commit = lg_committed (rf_log r)\<rparr>"

definition raft_status :: "'s log_storage \<Rightarrow> 's raft \<Rightarrow> status" where
  "raft_status S r =
     \<lparr>sta_id = rf_id r, sta_term = rf_term r, sta_voted_for = rf_vote r, sta_role = rf_role r,
      sta_leader = rf_leader r, sta_commit = lg_committed (rf_log r),
      sta_applied = lg_applied (rf_log r), sta_last_index = unwrap_or 0 (log_last_index S (rf_log r)),
      sta_conf = ct_current (rf_conf r)\<rparr>"

definition reset_election_timeout :: "'s raft \<Rightarrow> 's raft" where
  "reset_election_timeout r =
     (case rf_election_tick r of (low, high) \<Rightarrow>
      case range_inclusive (rf_rng r) low high of (g, t) \<Rightarrow>
        r\<lparr>rf_randomized_election_timeout := t, rf_rng := g\<rparr>)"

definition rebuild_peer :: "conf_state \<Rightarrow> index \<Rightarrow> nat \<Rightarrow> progress_map \<Rightarrow> node_id \<Rightarrow> progress_map" where
  "rebuild_peer conf nxt inflight m n =
     (let is_l = conf_is_learner conf n in
      case pm_get m n of
        Some _ \<Rightarrow> pm_modify m n (\<lambda>p.
          (if pr_is_learner p \<and> \<not> is_l then p\<lparr>pr_recent_active := True\<rparr> else p)\<lparr>pr_is_learner := is_l\<rparr>)
      | None \<Rightarrow> pm_insert m n ((progress_new nxt inflight is_l)\<lparr>pr_recent_active := \<not> is_l\<rparr>))"

definition rebuild_progress :: "'s log_storage \<Rightarrow> 's raft \<Rightarrow> 's raft \<times> unit rresult" where
  "rebuild_progress S r =
     try_read r (log_last_index S (rf_log r)) (\<lambda>lst.
       let nxt = sat_add lst 1;
           conf = ct_current (rf_conf r);
           m1 = foldl (rebuild_peer conf nxt (rf_max_inflight_msgs r)) (rf_progress r) (conf_members conf);
           m2 = foldl (\<lambda>m n. if \<not> conf_contains conf n then pm_remove m n else m) m1 (pm_ids m1)
       in (r\<lparr>rf_progress := m2\<rparr>, Ok ()))"

definition raft_is_voter :: "'s raft \<Rightarrow> node_id \<Rightarrow> bool" where
  "raft_is_voter r n = conf_is_voter (ct_current (rf_conf r)) n"

definition raft_send :: "'s raft \<Rightarrow> message \<Rightarrow> 's raft" where
  "raft_send r m = r\<lparr>rf_messages := rf_messages r @ [m]\<rparr>"

definition raft_reset :: "'s raft \<Rightarrow> rterm \<Rightarrow> 's raft" where
  "raft_reset r t =
     (let r1 = (if rf_term r \<noteq> t then r\<lparr>rf_term := t, rf_vote := None\<rparr> else r);
          r2 = reset_election_timeout
                 (r1\<lparr>rf_leader := None, rf_election_elapsed := 0, rf_heartbeat_elapsed := 0\<rparr>)
      in r2\<lparr>rf_votes := [], rf_read_only := ro_reset (rf_read_only r2), rf_lead_transferee := None\<rparr>)"

definition become_follower :: "'s raft \<Rightarrow> rterm \<Rightarrow> node_id option \<Rightarrow> 's raft" where
  "become_follower r t leader = (raft_reset r t)\<lparr>rf_role := Follower, rf_leader := leader\<rparr>"

subsection \<open>Sending\<close>

definition send_snapshot :: "'s log_storage \<Rightarrow> 's raft \<Rightarrow> node_id \<Rightarrow> 's raft \<times> unit rresult" where
  "send_snapshot S r to =
     (case log_snapshot S (rf_log r) of
        Ok sn \<Rightarrow>
          if snapshot_is_empty sn
          then (r\<lparr>rf_progress := pm_modify (rf_progress r) to become_probe\<rparr>, Ok ())
          else
            let r1 = raft_send r (InstallSnapshot (rf_id r) to (rf_term r) sn)
            in (r1\<lparr>rf_progress :=
                  pm_modify (rf_progress r1) to (\<lambda>p. become_snapshot p (sm_index (snap_meta sn)))\<rparr>, Ok ())
      | Err e \<Rightarrow> if e = SnapshotTemporarilyUnavailable then (r, Ok ()) else (r, Err e))"

definition note_sent :: "index \<Rightarrow> bool \<Rightarrow> progress \<Rightarrow> progress" where
  "note_sent last_sent carries_entries p =
     (case pr_state p of
        Replicate \<Rightarrow>
          let p1 = p\<lparr>pr_next := u64_add last_sent 1\<rparr>
          in if carries_entries
             then p1\<lparr>pr_inflights := inflights_add (pr_inflights p1) last_sent\<rparr> else p1
      | Probe \<Rightarrow> p\<lparr>pr_probe_sent := True\<rparr>
      | SnapshotState \<Rightarrow> p)"

definition send_append :: "'s log_storage \<Rightarrow> 's raft \<Rightarrow> node_id \<Rightarrow> 's raft \<times> unit rresult" where
  "send_append S r to =
     (case pm_get (rf_progress r) to of
        None \<Rightarrow> (r, Ok ())
      | Some p \<Rightarrow>
        if is_paused p then (r, Ok ())
        else
          let nxt = max (pr_next p) 1; prev_index = nxt - 1 in
          try_read r (log_last_index S (rf_log r)) (\<lambda>lst.
            case (log_term S (rf_log r) prev_index,
                  log_slice S (rf_log r) nxt (sat_add lst 1) (rf_max_size_per_msg r)) of
              (Ok prev_term, Ok es) \<Rightarrow>
                let last_sent = (if es = [] then prev_index else ent_index (last es));
                    r1 = raft_send r (AppendEntries (rf_id r) to (rf_term r) prev_index prev_term es
                           (lg_committed (rf_log r)) [])
                in (r1\<lparr>rf_progress := pm_modify (rf_progress r1) to (note_sent last_sent (es \<noteq> []))\<rparr>, Ok ())
            | _ \<Rightarrow> send_snapshot S r to))"

definition bcast_append :: "'s log_storage \<Rightarrow> 's raft \<Rightarrow> 's raft \<times> unit rresult" where
  "bcast_append S r =
     try_for (\<lambda>r peer. if peer = rf_id r then (r, Ok ()) else send_append S r peer)
       (pm_ids (rf_progress r)) r"

definition send_heartbeat ::
  "'s log_storage \<Rightarrow> 's raft \<Rightarrow> node_id \<Rightarrow> bytes \<Rightarrow> 's raft \<times> unit rresult" where
  "send_heartbeat S r to ctx =
     (case pm_get (rf_progress r) to of
        None \<Rightarrow> (r, Ok ())
      | Some p \<Rightarrow>
        let anchor = pr_matched p in
        case log_term S (rf_log r) anchor of
          Err _ \<Rightarrow>
            let r1 = r\<lparr>rf_progress := pm_modify (rf_progress r) to
                        (\<lambda>p. if pr_state p = Probe then p\<lparr>pr_probe_sent := False\<rparr> else p)\<rparr>
            in send_append S r1 to
        | Ok anchor_term \<Rightarrow>
            (raft_send r (AppendEntries (rf_id r) to (rf_term r) anchor anchor_term []
               (min (lg_committed (rf_log r)) anchor) ctx), Ok ()))"

definition bcast_heartbeat :: "'s log_storage \<Rightarrow> 's raft \<Rightarrow> bytes \<Rightarrow> 's raft \<times> unit rresult" where
  "bcast_heartbeat S r ctx =
     try_for (\<lambda>r peer. if peer = rf_id r then (r, Ok ()) else send_heartbeat S r peer ctx)
       (pm_ids (rf_progress r)) r"

subsection \<open>Linearizable reads\<close>

definition has_committed_in_current_term :: "'s log_storage \<Rightarrow> 's raft \<Rightarrow> bool" where
  "has_committed_in_current_term S r =
     is_ok_and (\<lambda>t. t = rf_term r) (log_term S (rf_log r) (lg_committed (rf_log r)))"

definition answer_read :: "'s raft \<Rightarrow> index \<Rightarrow> bytes \<Rightarrow> node_id option \<Rightarrow> 's raft" where
  "answer_read r i ctx from =
     (case from of
        None \<Rightarrow> r\<lparr>rf_read_states := rf_read_states r @ [\<lparr>rs_index = i, rs_ctx = ctx\<rparr>]\<rparr>
      | Some follower \<Rightarrow> raft_send r (ReadIndexResponse (rf_id r) follower (rf_term r) i ctx))"

definition read_index ::
  "'s log_storage \<Rightarrow> 's raft \<Rightarrow> bytes \<Rightarrow> node_id option \<Rightarrow> 's raft \<times> unit rresult" where
  "read_index S r ctx from =
     (if rf_role r \<noteq> Leader then
        (case rf_leader r of
           None \<Rightarrow> (r, Ok ())
         | Some leader \<Rightarrow> (raft_send r (ReadIndex (rf_id r) leader (rf_term r) ctx), Ok ()))
      else if \<not> has_committed_in_current_term S r then
        (r\<lparr>rf_read_only := ro_postpone (rf_read_only r) ctx from\<rparr>, Ok ())
      else
        let i = lg_committed (rf_log r) in
        if conf_quorum (ct_current (rf_conf r)) = 1 \<and> raft_is_voter r (rf_id r)
        then (answer_read r i ctx from, Ok ())
        else bcast_heartbeat S
               (r\<lparr>rf_read_only := ro_add_request (rf_read_only r) i ctx from (rf_id r)\<rparr>) ctx)"

definition record_read_ack :: "'s raft \<Rightarrow> node_id \<Rightarrow> bytes \<Rightarrow> 's raft" where
  "record_read_ack r from ctx =
     (if ctx = [] \<or> rf_role r \<noteq> Leader \<or> \<not> raft_is_voter r from then r
      else case ro_record_ack (rf_read_only r) ctx from of
        (ro, None) \<Rightarrow> r\<lparr>rf_read_only := ro\<rparr>
      | (ro, Some acks) \<Rightarrow>
          let r1 = r\<lparr>rf_read_only := ro\<rparr> in
          if acks < conf_quorum (ct_current (rf_conf r1)) then r1
          else case ro_advance (rf_read_only r1) ctx of (ro', rounds) \<Rightarrow>
            foldl (\<lambda>r round. answer_read r (rr_index round) (rr_ctx round) (rr_from round))
              (r1\<lparr>rf_read_only := ro'\<rparr>) rounds)"

definition handle_read_index_response :: "'s raft \<Rightarrow> index \<Rightarrow> bytes \<Rightarrow> 's raft" where
  "handle_read_index_response r i ctx =
     r\<lparr>rf_read_states := rf_read_states r @ [\<lparr>rs_index = i, rs_ctx = ctx\<rparr>]\<rparr>"

definition flush_postponed_reads :: "'s log_storage \<Rightarrow> 's raft \<Rightarrow> 's raft \<times> unit rresult" where
  "flush_postponed_reads S r =
     (if \<not> has_committed_in_current_term S r then (r, Ok ())
      else case ro_take_postponed (rf_read_only r) of (ro, reads) \<Rightarrow>
        try_for (\<lambda>r (ctx, from). read_index S r ctx from) reads (r\<lparr>rf_read_only := ro\<rparr>))"

subsection \<open>Membership\<close>

fun record_conf_loop :: "'s raft \<Rightarrow> bool \<Rightarrow> entry list \<Rightarrow> 's raft \<times> bool rresult" where
  "record_conf_loop r moved [] = (r, Ok moved)"
| "record_conf_loop r moved (e # es) =
     (case conf_change_decode (ent_data e) of
        Err err \<Rightarrow> (r, Err err)
      | Ok ch \<Rightarrow>
        let before = ct_current (rf_conf r);
            r1 = r\<lparr>rf_conf := ct_append (rf_conf r) (ent_index e) ch\<rparr>
        in record_conf_loop r1 (moved \<or> ct_current (rf_conf r1) \<noteq> before) es)"

definition record_conf_changes :: "'s log_storage \<Rightarrow> 's raft \<Rightarrow> entry list \<Rightarrow> 's raft \<times> unit rresult" where
  "record_conf_changes S r es =
     and_then (record_conf_loop r False (filter (\<lambda>e. ent_kind e = ConfChangeKind) es))
       (\<lambda>r moved. if moved then rebuild_progress S r else (r, Ok ()))"

definition advance_conf_commit :: "'s raft \<Rightarrow> 's raft" where
  "advance_conf_commit r = r\<lparr>rf_conf := ct_commit_to (rf_conf r) (lg_committed (rf_log r))\<rparr>"

definition replay_conf_changes :: "'s log_storage \<Rightarrow> 's raft \<Rightarrow> 's raft \<times> unit rresult" where
  "replay_conf_changes S r =
     try_read r (log_first_index S (rf_log r)) (\<lambda>first.
     try_read r (log_last_index S (rf_log r)) (\<lambda>lst.
       if lst < first then (r, Ok ())
       else try_read r (log_slice S (rf_log r) first (sat_add lst 1) u64_max) (\<lambda>es.
         and_then (record_conf_changes S r es) (\<lambda>r _. (advance_conf_commit r, Ok ())))))"

definition revert_conf_to :: "'s log_storage \<Rightarrow> 's raft \<Rightarrow> index \<Rightarrow> 's raft \<times> unit rresult" where
  "revert_conf_to S r i =
     (case ct_truncate_from (rf_conf r) i of (t, moved) \<Rightarrow>
        let r1 = r\<lparr>rf_conf := t\<rparr> in
        if moved then rebuild_progress S r1 else (r1, Ok ()))"

definition step_down_if_removed :: "'s raft \<Rightarrow> 's raft" where
  "step_down_if_removed r =
     (if rf_role r = Leader \<and> \<not> raft_is_voter r (rf_id r) then become_follower r (rf_term r) None else r)"

subsection \<open>Committing and proposing\<close>

definition maybe_commit :: "'s log_storage \<Rightarrow> 's raft \<Rightarrow> 's raft \<times> bool rresult" where
  "maybe_commit S r =
     (let vs = voters (ct_current (rf_conf r)) in
      if vs = [] then (r, Ok False)
      else
        let quorum = length vs div 2 + 1;
            matched = rev (sort (map (\<lambda>n. case pm_get (rf_progress r) n of
                                         Some p \<Rightarrow> pr_matched p | None \<Rightarrow> 0) vs));
            candidate = matched ! (quorum - 1)
        in if candidate \<le> lg_committed (rf_log r) then (r, Ok False)
           else case log_term S (rf_log r) candidate of
             Err _ \<Rightarrow> (r, Ok False)
           | Ok t \<Rightarrow>
             if t \<noteq> rf_term r then (r, Ok False)
             else case log_commit_to S (rf_log r) candidate of
               (l, Err e) \<Rightarrow> (r\<lparr>rf_log := l\<rparr>, Err e)
             | (l, Ok _) \<Rightarrow>
               and_then (flush_postponed_reads S
                   (step_down_if_removed (advance_conf_commit (r\<lparr>rf_log := l\<rparr>))))
                 (\<lambda>r _. (r, Ok True)))"

definition propose_entry ::
  "'s log_storage \<Rightarrow> 's raft \<Rightarrow> entry_kind \<Rightarrow> bytes \<Rightarrow> 's raft \<times> index rresult" where
  "propose_entry S r kind data =
     try_read r (log_last_index S (rf_log r)) (\<lambda>lst.
       let i = sat_add lst 1;
           e = \<lparr>ent_term = rf_term r, ent_index = i, ent_kind = kind, ent_data = data\<rparr>
       in case log_append S (rf_log r) [e] of (l, res) \<Rightarrow>
         and_then (r\<lparr>rf_log := l\<rparr>, res) (\<lambda>r _.
         and_then (record_conf_changes S r [e]) (\<lambda>r _.
           let r1 = r\<lparr>rf_progress := pm_modify (rf_progress r) (rf_id r) (\<lambda>p. fst (maybe_update p i))\<rparr> in
           and_then (maybe_commit S r1) (\<lambda>r _.
           and_then (bcast_append S r) (\<lambda>r _. (r, Ok i))))))"

definition propose_conf_change ::
  "'s log_storage \<Rightarrow> 's raft \<Rightarrow> conf_change \<Rightarrow> 's raft \<times> index rresult" where
  "propose_conf_change S r ch =
     (if rf_role r \<noteq> Leader then (r, Err NotLeader)
      else case ct_pending (rf_conf r) of
        Some at \<Rightarrow> (r, Err (ConfChangePending at))
      | None \<Rightarrow>
        if lg_committed (rf_log r) < rf_own_term_index r
        then (r, Err (ConfChangePending (rf_own_term_index r)))
        else case rf_lead_transferee r of
          Some target \<Rightarrow> (r, Err (LeadershipTransferInProgress target))
        | None \<Rightarrow>
          if voters (fst (conf_change_apply_to ch (ct_current (rf_conf r)))) = []
          then (r, Err (InvalidConfig RemovesLastVoter))
          else propose_entry S r ConfChangeKind (conf_change_encode ch))"

subsection \<open>Elections\<close>

datatype campaign_kind = PreElection | Election | Transfer

datatype vote_result = Pending | Won | Lost

definition bump_campaigns_pre :: "'s raft \<Rightarrow> 's raft" where
  "bump_campaigns_pre r = r\<lparr>rf_counters := (rf_counters r)
     \<lparr>campaigns_pre := u64_add (campaigns_pre (rf_counters r)) 1\<rparr>\<rparr>"

definition bump_campaigns_real :: "'s raft \<Rightarrow> 's raft" where
  "bump_campaigns_real r = r\<lparr>rf_counters := (rf_counters r)
     \<lparr>campaigns_real := u64_add (campaigns_real (rf_counters r)) 1\<rparr>\<rparr>"

definition bump_requests_sent :: "'s raft \<Rightarrow> 's raft" where
  "bump_requests_sent r = r\<lparr>rf_counters := (rf_counters r)
     \<lparr>vote_requests_sent := u64_add (vote_requests_sent (rf_counters r)) 1\<rparr>\<rparr>"

definition bump_responses_ignored :: "'s raft \<Rightarrow> 's raft" where
  "bump_responses_ignored r = r\<lparr>rf_counters := (rf_counters r)
     \<lparr>vote_responses_ignored := u64_add (vote_responses_ignored (rf_counters r)) 1\<rparr>\<rparr>"

definition become_pre_candidate :: "'s raft \<Rightarrow> 's raft" where
  "become_pre_candidate r =
     reset_election_timeout (r\<lparr>rf_role := PreCandidate, rf_leader := None, rf_votes := []\<rparr>)"

definition become_candidate :: "'s raft \<Rightarrow> 's raft" where
  "become_candidate r =
     (let r1 = raft_reset r (sat_add (rf_term r) 1)
      in r1\<lparr>rf_vote := Some (rf_id r1), rf_role := Candidate\<rparr>)"

definition become_leader :: "'s log_storage \<Rightarrow> 's raft \<Rightarrow> 's raft \<times> unit rresult" where
  "become_leader S r =
     (let r1 = raft_reset r (rf_term r);
          r2 = r1\<lparr>rf_vote := Some (rf_id r1), rf_role := Leader, rf_leader := Some (rf_id r1)\<rparr>
      in try_read r2 (log_last_index S (rf_log r2)) (\<lambda>lst.
           let conf = ct_current (rf_conf r2);
               m = foldl (\<lambda>m n. pm_insert m n
                     (progress_new (u64_add lst 1) (rf_max_inflight_msgs r2) (conf_is_learner conf n)))
                     (rf_progress r2) (conf_members conf);
               r3 = r2\<lparr>rf_progress := m\<rparr>;
               i = sat_add lst 1
           in case log_append S (rf_log r3) [entry_empty (rf_term r3) i] of (l, res) \<Rightarrow>
             and_then (r3\<lparr>rf_log := l\<rparr>, res) (\<lambda>r _.
               let r4 = r\<lparr>rf_own_term_index := i,
                     rf_progress := pm_modify (rf_progress r) (rf_id r)
                       (\<lambda>p. (become_replicate (p\<lparr>pr_matched := i\<rparr>))\<lparr>pr_recent_active := True\<rparr>)\<rparr>
               in and_then (maybe_commit S r4) (\<lambda>r _. bcast_append S r))))"

definition poll :: "'s raft \<Rightarrow> node_id \<Rightarrow> bool \<Rightarrow> 's raft \<times> vote_result" where
  "poll r from granted =
     (let r1 = (case binary_search_by_key from fst (rf_votes r) of
                  Err at \<Rightarrow> r\<lparr>rf_votes := insert_at at (from, granted) (rf_votes r)\<rparr>
                | Ok _ \<Rightarrow> r);
          conf = ct_current (rf_conf r1);
          quorum = conf_quorum conf;
          counted = filter (\<lambda>(n, _). conf_is_voter conf n) (rf_votes r1);
          for_count = length (filter snd counted);
          against_count = length (filter (\<lambda>x. \<not> snd x) counted)
      in (r1, if quorum \<le> for_count then Won
              else if quorum \<le> against_count then Lost else Pending))"

function campaign :: "'s log_storage \<Rightarrow> 's raft \<Rightarrow> campaign_kind \<Rightarrow> 's raft \<times> unit rresult" where
  "campaign S r kind =
     (if rf_role r = Leader then (r, Ok ())
      else if \<not> raft_is_voter r (rf_id r) then (r, Ok ())
      else
        let pre_vote = (kind = PreElection);
            vote_term = sat_add (rf_term r) 1;
            r1 = (if pre_vote then become_pre_candidate (bump_campaigns_pre r)
                  else become_candidate (bump_campaigns_real r));
            (r2, outcome) = poll r1 (rf_id r1) True
        in if outcome = Won
           then (if kind = PreElection then campaign S r2 Election else become_leader S r2)
           else try_read r2 (log_last_index S (rf_log r2)) (\<lambda>last_log_index.
             let last_log_term = log_last_term S (rf_log r2);
                 force = (kind = Transfer)
             in (foldl (\<lambda>r peer. if peer = rf_id r then r
                   else raft_send (bump_requests_sent r)
                     (RequestVote (rf_id r) peer vote_term last_log_index last_log_term pre_vote force))
                   r2 (voters (ct_current (rf_conf r2))), Ok ())))"
  by pat_completeness auto
termination
  by (relation "measure (\<lambda>(S, r, kind). if kind = PreElection then 1 else 0)") auto

declare campaign.simps [simp del]

definition handle_vote_request ::
  "'s log_storage \<Rightarrow> 's raft \<Rightarrow> node_id \<Rightarrow> rterm \<Rightarrow> index \<Rightarrow> rterm \<Rightarrow> bool \<Rightarrow> 's raft" where
  "handle_vote_request S r from t last_log_index last_log_term pre_vote =
     (let can_vote = (rf_vote r = Some from \<or> (rf_vote r = None \<and> rf_leader r = None)
                      \<or> (pre_vote \<and> rf_term r < t));
          granted = (can_vote \<and> raft_is_voter r from
                     \<and> log_is_up_to_date S (rf_log r) last_log_index last_log_term);
          r1 = (if granted \<and> \<not> pre_vote then r\<lparr>rf_vote := Some from, rf_election_elapsed := 0\<rparr> else r);
          c = rf_counters r1;
          c1 = c\<lparr>vote_responses_sent := u64_add (vote_responses_sent c) 1\<rparr>;
          c2 = (if granted then c1\<lparr>vote_responses_granted := u64_add (vote_responses_granted c1) 1\<rparr> else c1)
      in raft_send (r1\<lparr>rf_counters := c2\<rparr>)
           (RequestVoteResponse (rf_id r1) from (if pre_vote then t else rf_term r1) granted pre_vote))"

definition handle_vote_response ::
  "'s log_storage \<Rightarrow> 's raft \<Rightarrow> node_id \<Rightarrow> bool \<Rightarrow> bool \<Rightarrow> 's raft \<times> unit rresult" where
  "handle_vote_response S r from granted pre_vote =
     (if rf_role r = Follower \<or> rf_role r = Leader then (bump_responses_ignored r, Ok ())
      else
        let expected = (rf_role r = PreCandidate) in
        if pre_vote \<noteq> expected then (bump_responses_ignored r, Ok ())
        else case poll r from granted of
          (r1, Pending) \<Rightarrow> (r1, Ok ())
        | (r1, Won) \<Rightarrow> if rf_role r1 = PreCandidate then campaign S r1 Election else become_leader S r1
        | (r1, Lost) \<Rightarrow> (become_follower r1 (rf_term r1) None, Ok ()))"

subsection \<open>Transfer and check-quorum\<close>

definition nudge_transferee :: "'s log_storage \<Rightarrow> 's raft \<Rightarrow> node_id \<Rightarrow> 's raft \<times> unit rresult" where
  "nudge_transferee S r target =
     try_read r (log_last_index S (rf_log r)) (\<lambda>lst.
       let caught_up = (case pm_get (rf_progress r) target of Some p \<Rightarrow> pr_matched p = lst | None \<Rightarrow> False)
       in if caught_up then (raft_send r (TimeoutNow (rf_id r) target (rf_term r)), Ok ())
          else send_append S r target)"

definition transfer_leader :: "'s log_storage \<Rightarrow> 's raft \<Rightarrow> node_id \<Rightarrow> 's raft \<times> unit rresult" where
  "transfer_leader S r target =
     (if rf_role r \<noteq> Leader then (r, Ok ())
      else if target = rf_id r then (r, Ok ())
      else if \<not> raft_is_voter r target then (r, Ok ())
      else if rf_lead_transferee r = Some target then (r, Ok ())
      else nudge_transferee S
             (r\<lparr>rf_lead_transferee := Some target, rf_election_elapsed := 0\<rparr>) target)"

definition maybe_finish_transfer :: "'s log_storage \<Rightarrow> 's raft \<Rightarrow> node_id \<Rightarrow> 's raft \<times> unit rresult" where
  "maybe_finish_transfer S r from =
     (if rf_lead_transferee r = Some from then nudge_transferee S r from else (r, Ok ()))"

definition abort_transfer :: "'s raft \<Rightarrow> 's raft" where
  "abort_transfer r = r\<lparr>rf_lead_transferee := None\<rparr>"

definition handle_timeout_now :: "'s log_storage \<Rightarrow> 's raft \<Rightarrow> node_id \<Rightarrow> 's raft \<times> unit rresult" where
  "handle_timeout_now S r from =
     (if rf_role r = Leader then (r, Ok ())
      else if \<not> raft_is_voter r (rf_id r) then (r, Ok ())
      else campaign S r Transfer)"

definition check_quorum_active :: "'s raft \<Rightarrow> 's raft \<times> bool" where
  "check_quorum_active r =
     (let conf = ct_current (rf_conf r);
          active = length (filter (\<lambda>(n, p). conf_is_voter conf n \<and> (n = rf_id r \<or> pr_recent_active p))
                     (rf_progress r))
      in (r\<lparr>rf_progress := pm_iter_mut (\<lambda>n p. p\<lparr>pr_recent_active := False\<rparr>) (rf_progress r)\<rparr>,
          conf_quorum conf \<le> active))"

subsection \<open>Replication, the follower's side\<close>

function hint_loop :: "'s log_storage \<Rightarrow> 's raft_log \<Rightarrow> index \<Rightarrow> rterm \<Rightarrow> index \<Rightarrow> index" where
  "hint_loop S l first conflict_term i =
     (if first < i \<and> is_ok_and (\<lambda>t. t = conflict_term) (log_term S l (i - 1))
      then hint_loop S l first conflict_term (i - 1) else i)"
  by pat_completeness auto
termination
  by (relation "measure (\<lambda>(S, l, first, t, i). i)") auto

declare hint_loop.simps [simp del]

definition conflict_hint :: "'s log_storage \<Rightarrow> 's raft \<Rightarrow> index \<Rightarrow> (index \<times> rterm) rresult" where
  "conflict_hint S r prev_log_index =
     (case log_last_index S (rf_log r) of Err e \<Rightarrow> Err e
      | Ok lst \<Rightarrow>
        if lst < prev_log_index then Ok (lst, log_last_term S (rf_log r))
        else case log_term S (rf_log r) prev_log_index of
          Err _ \<Rightarrow> Ok (lst, log_last_term S (rf_log r))
        | Ok conflict_term \<Rightarrow>
          case log_first_index S (rf_log r) of Err e \<Rightarrow> Err e
          | Ok first \<Rightarrow>
            Ok (hint_loop S (rf_log r) first conflict_term prev_log_index, conflict_term))"

definition handle_append_entries ::
  "'s log_storage \<Rightarrow> 's raft \<Rightarrow> node_id \<Rightarrow> index \<Rightarrow> rterm \<Rightarrow> entry list \<Rightarrow> index \<Rightarrow> bytes
     \<Rightarrow> 's raft \<times> unit rresult" where
  "handle_append_entries S r0 from prev_log_index prev_log_term es leader_commit ctx =
     (let r = r0\<lparr>rf_leader := Some from, rf_election_elapsed := 0\<rparr>;
          reject = (\<lambda>r. try_read r (conflict_hint S r prev_log_index) (\<lambda>(i, hint_term).
            (raft_send r (AppendEntriesResponse (rf_id r) from (rf_term r) True i hint_term ctx), Ok ())))
      in if prev_log_index < lg_committed (rf_log r) then
           (raft_send r (AppendEntriesResponse (rf_id r) from (rf_term r) False
              (lg_committed (rf_log r)) 0 ctx), Ok ())
         else
           let conf_changes = filter (\<lambda>e. ent_kind e = ConfChangeKind) es in
           case log_maybe_append S (rf_log r) prev_log_index prev_log_term leader_commit es of
             (l, Ok (Some outcome)) \<Rightarrow>
               let r1 = r\<lparr>rf_log := l\<rparr>;
                   moved = (case ao_spliced_from outcome of
                       None \<Rightarrow> (r1, Ok ())
                     | Some from_index \<Rightarrow>
                       and_then (if ao_truncated outcome then revert_conf_to S r1 from_index else (r1, Ok ()))
                         (\<lambda>r _. record_conf_changes S r (filter (\<lambda>e. from_index \<le> ent_index e) conf_changes)))
               in and_then moved (\<lambda>r _.
                    let r2 = advance_conf_commit r
                    in (raft_send r2 (AppendEntriesResponse (rf_id r2) from (rf_term r2) False
                          (ao_last outcome) 0 ctx), Ok ()))
           | (l, Ok None) \<Rightarrow> reject (r\<lparr>rf_log := l\<rparr>)
           | (l, Err _) \<Rightarrow> reject (r\<lparr>rf_log := l\<rparr>))"

subsection \<open>Replication, the leader's side\<close>

fun back_off_loop :: "'s log_storage \<Rightarrow> 's raft_log \<Rightarrow> rterm \<Rightarrow> index \<Rightarrow> index" where
  "back_off_loop S l t 0 = 0"
| "back_off_loop S l t (Suc at) =
     (if is_ok_and (\<lambda>own. t < own) (log_term S l (Suc at)) then back_off_loop S l t at else Suc at)"

definition find_conflict_by_term :: "'s log_storage \<Rightarrow> 's raft \<Rightarrow> index \<Rightarrow> rterm \<Rightarrow> index" where
  "find_conflict_by_term S r i t =
     back_off_loop S (rf_log r) t (min i (unwrap_or 0 (log_last_index S (rf_log r))))"

definition note_acked :: "index \<Rightarrow> progress \<Rightarrow> progress" where
  "note_acked i p0 =
     (let p = fst (maybe_update p0 i) in
      case pr_state p of
        Probe \<Rightarrow> become_replicate p
      | Replicate \<Rightarrow> p\<lparr>pr_inflights := inflights_free_to (pr_inflights p) i\<rparr>
      | SnapshotState \<Rightarrow> become_probe p)"

definition note_rejected :: "index \<Rightarrow> progress \<Rightarrow> progress" where
  "note_rejected probe p = (fst (maybe_decr_to p probe))\<lparr>pr_probe_sent := False\<rparr>"

definition handle_append_response ::
  "'s log_storage \<Rightarrow> 's raft \<Rightarrow> node_id \<Rightarrow> bool \<Rightarrow> index \<Rightarrow> rterm \<Rightarrow> bytes \<Rightarrow> 's raft \<times> unit rresult" where
  "handle_append_response S r0 from reject i0 hint_term ctx =
     (if rf_role r0 \<noteq> Leader \<or> \<not> pm_contains (rf_progress r0) from then (r0, Ok ())
      else try_read r0 (log_last_index S (rf_log r0)) (\<lambda>own_last.
        let i = min i0 own_last;
            r = r0\<lparr>rf_progress := pm_modify (rf_progress r0) from (\<lambda>p. p\<lparr>pr_recent_active := True\<rparr>)\<rparr>
        in if reject then
             let probe = (if 0 < hint_term then sat_add (find_conflict_by_term S r i hint_term) 1
                          else sat_add i 1);
                 r1 = r\<lparr>rf_progress := pm_modify (rf_progress r) from (note_rejected probe)\<rparr>;
                 retry = (case pm_get (rf_progress r1) from of Some p \<Rightarrow> \<not> is_paused p | None \<Rightarrow> False)
             in if retry then send_append S r1 from else (r1, Ok ())
           else
             let advanced = (case pm_get (rf_progress r) from of
                               Some p \<Rightarrow> snd (maybe_update p i) | None \<Rightarrow> False);
                 r1 = r\<lparr>rf_progress := pm_modify (rf_progress r) from (note_acked i)\<rparr>
             in and_then (maybe_finish_transfer S r1 from) (\<lambda>r2 _.
                  try_read r2 (log_last_index S (rf_log r2)) (\<lambda>lst.
                    let committed = (if advanced then maybe_commit S r2 else (r2, Ok False));
                        finish = (\<lambda>r. (record_read_ack r from ctx, Ok ()))
                    in and_then committed (\<lambda>r3 moved.
                         if moved then and_then (bcast_append S r3) (\<lambda>r _. finish r)
                         else if (case pm_get (rf_progress r3) from of
                                    Some p \<Rightarrow> pr_matched p < lst | None \<Rightarrow> False)
                         then and_then (send_append S r3 from) (\<lambda>r _. finish r)
                         else finish r3)))))"

subsection \<open>Snapshots\<close>

definition report_snapshot :: "'s raft \<Rightarrow> node_id \<Rightarrow> snapshot_status \<Rightarrow> 's raft" where
  "report_snapshot r to st =
     (if rf_role r \<noteq> Leader then r
      else r\<lparr>rf_progress := pm_modify (rf_progress r) to (\<lambda>p.
             if pr_state p \<noteq> SnapshotState then p
             else case st of Finished \<Rightarrow> become_probe p | Failed \<Rightarrow> abort_snapshot p)\<rparr>)"

definition expire_pending_snapshots :: "'s raft \<Rightarrow> u64 \<Rightarrow> 's raft" where
  "expire_pending_snapshots r limit =
     r\<lparr>rf_progress := pm_iter_mut (\<lambda>_. expire_tick limit) (rf_progress r)\<rparr>"

definition raft_restore :: "'s log_storage \<Rightarrow> 's raft \<Rightarrow> snapshot \<Rightarrow> 's raft \<times> unit rresult" where
  "raft_restore S r sn =
     rebuild_progress S
       (r\<lparr>rf_log := log_restore (rf_log r) sn,
          rf_conf := ct_reset (rf_conf r) (sm_conf (snap_meta sn)) (sm_index (snap_meta sn))\<rparr>)"

definition handle_install_snapshot ::
  "'s log_storage \<Rightarrow> 's raft \<Rightarrow> node_id \<Rightarrow> snapshot \<Rightarrow> 's raft \<times> unit rresult" where
  "handle_install_snapshot S r0 from sn =
     (let r = r0\<lparr>rf_leader := Some from, rf_election_elapsed := 0\<rparr>;
          answer = (\<lambda>r i. (raft_send r (AppendEntriesResponse (rf_id r) from (rf_term r) False i 0 []), Ok ()))
      in if log_should_restore S (rf_log r) sn
         then and_then (raft_restore S r sn) (\<lambda>r _.
                try_read r (log_last_index S (rf_log r)) (\<lambda>i. answer r i))
         else answer r (lg_committed (rf_log r)))"

subsection \<open>Ticks and messages\<close>

definition tick_election :: "'s log_storage \<Rightarrow> 's raft \<Rightarrow> 's raft" where
  "tick_election S r =
     (let r1 = r\<lparr>rf_election_elapsed := u64_add (rf_election_elapsed r) 1\<rparr> in
      if rf_randomized_election_timeout r1 \<le> rf_election_elapsed r1
      then fst (campaign S (r1\<lparr>rf_election_elapsed := 0\<rparr>) (if rf_pre_vote r1 then PreElection else Election))
      else r1)"

definition tick_heartbeat :: "'s log_storage \<Rightarrow> 's raft \<Rightarrow> 's raft" where
  "tick_heartbeat S r =
     (let r1 = expire_pending_snapshots
                 (r\<lparr>rf_heartbeat_elapsed := u64_add (rf_heartbeat_elapsed r) 1,
                    rf_election_elapsed := u64_add (rf_election_elapsed r) 1\<rparr>) SNAPSHOT_TIMEOUT_TICKS;
          r2 = (if rf_heartbeat_tick r1 \<le> rf_heartbeat_elapsed r1
                then fst (bcast_heartbeat S (r1\<lparr>rf_heartbeat_elapsed := 0\<rparr>)
                       (case ro_last_pending_ctx (rf_read_only r1) of Some c \<Rightarrow> c | None \<Rightarrow> []))
                else r1)
      in if rf_randomized_election_timeout r2 \<le> rf_election_elapsed r2 then
           let r3 = abort_transfer (r2\<lparr>rf_election_elapsed := 0\<rparr>) in
           if rf_check_quorum r3 then
             case check_quorum_active r3 of (r4, active) \<Rightarrow>
               if active then r4
               else
                 let c = rf_counters r4;
                     r5 = r4\<lparr>rf_counters :=
                       c\<lparr>check_quorum_step_downs := u64_add (check_quorum_step_downs c) 1\<rparr>\<rparr>
                 in become_follower r5 (rf_term r5) None
           else r3
         else r2)"

definition raft_tick :: "'s log_storage \<Rightarrow> 's raft \<Rightarrow> 's raft" where
  "raft_tick S r = (if rf_role r = Leader then tick_heartbeat S r else tick_election S r)"

definition vetoed_by_leader_lease :: "'s raft \<Rightarrow> message \<Rightarrow> bool" where
  "vetoed_by_leader_lease r m =
     (case m of
        RequestVote from to t li lt pv force \<Rightarrow>
          \<not> force \<and> rf_check_quorum r \<and> rf_leader r \<noteq> None
          \<and> rf_election_elapsed r < rf_randomized_election_timeout r
      | _ \<Rightarrow> False)"

definition step_higher_term :: "'s raft \<Rightarrow> message \<Rightarrow> 's raft" where
  "step_higher_term r m =
     (case m of
        RequestVote from to t li lt pv force \<Rightarrow> if pv then r else become_follower r t None
      | RequestVoteResponse from to t granted pv \<Rightarrow>
          if pv \<and> granted then r else become_follower r t None
      | AppendEntries from to t pi pt es lc cx \<Rightarrow> become_follower r t (Some from)
      | InstallSnapshot from to t sn \<Rightarrow> become_follower r t (Some from)
      | _ \<Rightarrow> become_follower r (msg_term m) None)"

definition step_lower_term :: "'s log_storage \<Rightarrow> 's raft \<Rightarrow> message \<Rightarrow> 's raft \<times> unit rresult" where
  "step_lower_term S r m =
     (let stale_leader = (\<lambda>from. try_read r (log_last_index S (rf_log r)) (\<lambda>i.
            (raft_send r (AppendEntriesResponse (rf_id r) from (rf_term r) True i
               (log_last_term S (rf_log r)) []), Ok ())))
      in case m of
           AppendEntries from to t pi pt es lc cx \<Rightarrow> stale_leader from
         | InstallSnapshot from to t sn \<Rightarrow> stale_leader from
         | RequestVote from to t li lt pv force \<Rightarrow>
             if pv then (raft_send r (RequestVoteResponse (rf_id r) from (rf_term r) False True), Ok ())
             else (r, Ok ())
         | _ \<Rightarrow> (r, Ok ()))"

definition concede :: "'s raft \<Rightarrow> rterm \<Rightarrow> node_id \<Rightarrow> 's raft" where
  "concede r t from =
     (if rf_role r = Candidate \<or> rf_role r = PreCandidate then become_follower r t (Some from) else r)"

definition step_current_term :: "'s log_storage \<Rightarrow> 's raft \<Rightarrow> message \<Rightarrow> 's raft \<times> unit rresult" where
  "step_current_term S r m =
     (case m of
        RequestVote from to t last_log_index last_log_term pre_vote force \<Rightarrow>
          (handle_vote_request S r from t last_log_index last_log_term pre_vote, Ok ())
      | RequestVoteResponse from to t granted pre_vote \<Rightarrow> handle_vote_response S r from granted pre_vote
      | AppendEntries from to t prev_log_index prev_log_term es leader_commit ctx \<Rightarrow>
          handle_append_entries S (concede r t from) from prev_log_index prev_log_term es leader_commit ctx
      | AppendEntriesResponse from to t reject i hint_term ctx \<Rightarrow>
          handle_append_response S r from reject i hint_term ctx
      | ReadIndex from to t ctx \<Rightarrow> read_index S r ctx (Some from)
      | ReadIndexResponse from to t i ctx \<Rightarrow> (handle_read_index_response r i ctx, Ok ())
      | InstallSnapshot from to t sn \<Rightarrow> handle_install_snapshot S (concede r t from) from sn
      | TimeoutNow from to t \<Rightarrow> handle_timeout_now S r from)"

definition raft_step :: "'s log_storage \<Rightarrow> 's raft \<Rightarrow> message \<Rightarrow> 's raft \<times> unit rresult" where
  "raft_step S r m =
     (if rf_term r < msg_term m then
        if vetoed_by_leader_lease r m then (r, Ok ())
        else step_current_term S (step_higher_term r m) m
      else if msg_term m < rf_term r then step_lower_term S r m
      else step_current_term S r m)"

subsection \<open>Opening a node\<close>

definition raft_new :: "'s log_storage \<Rightarrow> config \<Rightarrow> 's \<Rightarrow> 's raft rresult" where
  "raft_new S c store =
     (case config_validate c of Err e \<Rightarrow> Err e | Ok _ \<Rightarrow>
      case st_initial_state S store of Err e \<Rightarrow> Err e | Ok initial \<Rightarrow>
      let anchor = (case st_snapshot S store of
            Err _ \<Rightarrow> None
          | Ok sn \<Rightarrow> if 0 < sm_index (snap_meta sn) \<and> conf_members (sm_conf (snap_meta sn)) \<noteq> []
                     then Some sn else None)
      in case log_new S store (cfg_applied c) of Err e \<Rightarrow> Err e | Ok l \<Rightarrow>
      let conf_state0 = (if voters (is_conf_state initial) = [] \<and> learners (is_conf_state initial) = []
                         then config_conf_state c else is_conf_state initial);
          based = (case anchor of
            Some sn \<Rightarrow> Ok (sm_conf (snap_meta sn), sm_index (snap_meta sn))
          | None \<Rightarrow> (case log_first_index S l of Err e \<Rightarrow> Err e | Ok first \<Rightarrow> Ok (conf_state0, first - 1)))
      in case based of Err e \<Rightarrow> Err e | Ok (base_conf, base_index) \<Rightarrow>
      let r = \<lparr>rf_id = cfg_id c, rf_term = hs_term (is_hard_state initial),
               rf_vote = hs_voted_for (is_hard_state initial), rf_role = Follower, rf_leader = None,
               rf_log = l, rf_progress = [], rf_conf = ct_new base_conf base_index, rf_votes = [],
               rf_messages = [], rf_read_states = [], rf_read_only = ro_new, rf_election_elapsed = 0,
               rf_heartbeat_elapsed = 0, rf_randomized_election_timeout = fst (cfg_election_tick c),
               rf_counters = counters_default, rf_election_tick = cfg_election_tick c,
               rf_heartbeat_tick = cfg_heartbeat_tick c, rf_max_inflight_msgs = cfg_max_inflight_msgs c,
               rf_max_size_per_msg = cfg_max_size_per_msg c, rf_pre_vote = cfg_pre_vote c,
               rf_check_quorum = cfg_check_quorum c, rf_rng = cfg_rng c, rf_lead_transferee = None,
               rf_own_term_index = 0\<rparr>
      in case and_then (replay_conf_changes S r) (\<lambda>r _. rebuild_progress S r) of
           (r, Ok _) \<Rightarrow> Ok (reset_election_timeout r)
         | (r, Err e) \<Rightarrow> Err e)"

end
