(* ===== verification/RawNode.thy ===== *)
theory RawNode
  imports RaftCore
begin

text \<open>
  The handle a driver holds (\<^verbatim>\<open>crates/esker-raft/src/raw_node.rs\<close>): the node, the last durable
  state handed out, and \<^verbatim>\<open>Ready\<close>, the batch of effects the driver discharges.
\<close>

subsection \<open>State and operations\<close>

record ready =
  rd_hard_state :: "hard_state option"
  rd_entries :: "entry list"
  rd_snapshot :: "snapshot option"
  rd_messages :: "message list"
  rd_committed_entries :: "entry list"
  rd_read_states :: "read_state list"

definition ready_is_empty :: "ready \<Rightarrow> bool" where
  "ready_is_empty d \<longleftrightarrow> rd_hard_state d = None \<and> rd_entries d = [] \<and> rd_snapshot d = None
     \<and> rd_messages d = [] \<and> rd_committed_entries d = [] \<and> rd_read_states d = []"

record 's raw_node =
  rn_raft :: "'s raft"
  rn_prev_hard_state :: hard_state

definition node_new :: "'s log_storage \<Rightarrow> config \<Rightarrow> 's \<Rightarrow> 's raw_node rresult" where
  "node_new S c store =
     (case raft_new S c store of
        Err e \<Rightarrow> Err e
      | Ok r \<Rightarrow> Ok \<lparr>rn_raft = r, rn_prev_hard_state = raft_hard_state r\<rparr>)"

definition node_tick :: "'s log_storage \<Rightarrow> 's raw_node \<Rightarrow> 's raw_node" where
  "node_tick S n = n\<lparr>rn_raft := raft_tick S (rn_raft n)\<rparr>"

definition lift_raft :: "'s raw_node \<Rightarrow> 's raft \<times> 'a rresult \<Rightarrow> 's raw_node \<times> 'a rresult" where
  "lift_raft n x = (n\<lparr>rn_raft := fst x\<rparr>, snd x)"

definition discard :: "'s \<times> ('a, 'e) result \<Rightarrow> 's \<times> (unit, 'e) result" where
  "discard x = (fst x, case snd x of Ok _ \<Rightarrow> Ok () | Err e \<Rightarrow> Err e)"

definition node_step :: "'s log_storage \<Rightarrow> 's raw_node \<Rightarrow> message \<Rightarrow> 's raw_node \<times> unit rresult" where
  "node_step S n m = lift_raft n (raft_step S (rn_raft n) m)"

definition node_propose :: "'s log_storage \<Rightarrow> 's raw_node \<Rightarrow> bytes \<Rightarrow> 's raw_node \<times> unit rresult" where
  "node_propose S n data =
     (if rf_role (rn_raft n) \<noteq> Leader then (n, Err NotLeader)
      else case rf_lead_transferee (rn_raft n) of
        Some target \<Rightarrow> (n, Err (LeadershipTransferInProgress target))
      | None \<Rightarrow> lift_raft n (discard (propose_entry S (rn_raft n) Normal data)))"

definition node_propose_conf_change ::
  "'s log_storage \<Rightarrow> 's raw_node \<Rightarrow> conf_change \<Rightarrow> 's raw_node \<times> unit rresult" where
  "node_propose_conf_change S n ch =
     (if rf_role (rn_raft n) \<noteq> Leader then (n, Err NotLeader)
      else lift_raft n (discard (propose_conf_change S (rn_raft n) ch)))"

definition node_read_index :: "'s log_storage \<Rightarrow> 's raw_node \<Rightarrow> bytes \<Rightarrow> 's raw_node" where
  "node_read_index S n ctx = n\<lparr>rn_raft := fst (read_index S (rn_raft n) ctx None)\<rparr>"

definition node_campaign :: "'s log_storage \<Rightarrow> 's raw_node \<Rightarrow> 's raw_node \<times> unit rresult" where
  "node_campaign S n =
     lift_raft n (campaign S (rn_raft n) (if rf_pre_vote (rn_raft n) then PreElection else Election))"

definition node_transfer_leader :: "'s log_storage \<Rightarrow> 's raw_node \<Rightarrow> node_id \<Rightarrow> 's raw_node" where
  "node_transfer_leader S n target = n\<lparr>rn_raft := fst (transfer_leader S (rn_raft n) target)\<rparr>"

definition node_report_snapshot :: "'s raw_node \<Rightarrow> node_id \<Rightarrow> snapshot_status \<Rightarrow> 's raw_node" where
  "node_report_snapshot n to st = n\<lparr>rn_raft := report_snapshot (rn_raft n) to st\<rparr>"

definition has_ready :: "'s raw_node \<Rightarrow> bool" where
  "has_ready n \<longleftrightarrow> rf_messages (rn_raft n) \<noteq> [] \<or> rf_read_states (rn_raft n) \<noteq> []
     \<or> lg_unstable (rf_log (rn_raft n)) \<noteq> [] \<or> lg_unstable_snapshot (rf_log (rn_raft n)) \<noteq> None
     \<or> hs_differs_from (raft_hard_state (rn_raft n)) (rn_prev_hard_state n)
     \<or> lg_applied (rf_log (rn_raft n)) < lg_committed (rf_log (rn_raft n))"

definition node_ready :: "'s log_storage \<Rightarrow> 's raw_node \<Rightarrow> 's raw_node \<times> ready" where
  "node_ready S n =
     (let r = rn_raft n; hs = raft_hard_state r in
      (n\<lparr>rn_raft := r\<lparr>rf_messages := [], rf_read_states := []\<rparr>\<rparr>,
       \<lparr>rd_hard_state = (if hs_differs_from hs (rn_prev_hard_state n) then Some hs else None),
        rd_entries = lg_unstable (rf_log r),
        rd_snapshot = lg_unstable_snapshot (rf_log r),
        rd_messages = rf_messages r,
        rd_committed_entries = unwrap_or [] (log_next_committed S (rf_log r) (rf_max_size_per_msg r)),
        rd_read_states = rf_read_states r\<rparr>))"

definition node_advance :: "'s log_storage \<Rightarrow> 's raw_node \<Rightarrow> ready \<Rightarrow> 's raw_node" where
  "node_advance S n d =
     (let n1 = (case rd_hard_state d of None \<Rightarrow> n | Some hs \<Rightarrow> n\<lparr>rn_prev_hard_state := hs\<rparr>);
          r0 = rn_raft n1;
          r1 = (case rd_snapshot d of
                  None \<Rightarrow> r0
                | Some s \<Rightarrow> r0\<lparr>rf_log := log_stable_snapshot_to (rf_log r0) (sm_index (snap_meta s))\<rparr>);
          r2 = (if rd_entries d = [] then r1
                else let e = last (rd_entries d)
                     in r1\<lparr>rf_log := log_stable_to S (rf_log r1) (ent_index e) (ent_term e)\<rparr>);
          r3 = (if rd_committed_entries d = [] then r2
                else let i = ent_index (last (rd_committed_entries d))
                     in r2\<lparr>rf_log := log_applied_to (rf_log r2) i,
                           rf_conf := ct_commit_to (rf_conf r2) i\<rparr>)
      in n1\<lparr>rn_raft := r3\<rparr>)"

definition node_log_entries :: "'s log_storage \<Rightarrow> 's raw_node \<Rightarrow> index \<Rightarrow> index \<Rightarrow> entry list rresult" where
  "node_log_entries S n low high = log_slice S (rf_log (rn_raft n)) low high u64_max"

definition node_snapshot_boundary :: "'s log_storage \<Rightarrow> 's raw_node \<Rightarrow> (index \<times> rterm) rresult" where
  "node_snapshot_boundary S n =
     (case log_first_index S (rf_log (rn_raft n)) of
        Err e \<Rightarrow> Err e
      | Ok first \<Rightarrow>
        let i = first - 1 in
        if i = 0 then Ok (0, 0)
        else case log_term S (rf_log (rn_raft n)) i of Err e \<Rightarrow> Err e | Ok t \<Rightarrow> Ok (i, t))"

definition node_progress :: "'s raw_node \<Rightarrow> peer_progress list" where
  "node_progress n =
     (if rf_role (rn_raft n) \<noteq> Leader then []
      else sort_key pp_id
        (List.map_filter (\<lambda>i. map_option (\<lambda>p.
             \<lparr>pp_id = i, pp_matched = pr_matched p, pp_next = pr_next p, pp_is_learner = pr_is_learner p,
              pp_recent_active = pr_recent_active p, pp_pending_snapshot = pr_pending_snapshot p\<rparr>)
             (pm_get (rf_progress (rn_raft n)) i))
           (pm_ids (rf_progress (rn_raft n)))))"

definition node_conf_state :: "'s raw_node \<Rightarrow> conf_state" where
  "node_conf_state n = ct_current (rf_conf (rn_raft n))"

definition node_status :: "'s log_storage \<Rightarrow> 's raw_node \<Rightarrow> status" where
  "node_status S n = raft_status S (rn_raft n)"

end
