(* ===== verification/RaftFrame.thy ===== *)
theory RaftFrame
  imports RawNode
begin

text \<open>
  What the methods of the node leave alone. \<open>calm\<close> holds of the calls that only send
  messages and keep books on peers and reads: the term, the vote, the role, the log, the membership
  and the votes collected are as before, and no message of an election is sent. \<open>onward\<close> holds of
  every call: terms and the commit index never go back, and a vote that was cast in a term stands.
\<close>

named_theorems steady_intros \<open>one rule per call: it keeps the term and the vote\<close>

subsection \<open>Calls that keep the election state\<close>

fun is_vote_msg :: "message \<Rightarrow> bool" where
  "is_vote_msg (RequestVote from to t li lt pv fo) = True"
| "is_vote_msg (RequestVoteResponse from to t g pv) = True"
| "is_vote_msg _ = False"

definition sent_since :: "'s raft \<Rightarrow> 's raft \<Rightarrow> (message \<Rightarrow> bool) \<Rightarrow> bool" where
  "sent_since r r' P \<longleftrightarrow> (\<exists>ms. rf_messages r' = rf_messages r @ ms \<and> (\<forall>m \<in> set ms. P m))"

lemma sent_since_refl [simp]: "rf_messages r' = rf_messages r \<Longrightarrow> sent_since r r' P"
  by (simp add: sent_since_def)

lemma sent_since_one: "rf_messages r' = rf_messages r @ [m] \<Longrightarrow> P m \<Longrightarrow> sent_since r r' P"
  by (simp add: sent_since_def)

lemma sent_since_trans: "sent_since r r1 P \<Longrightarrow> sent_since r1 r2 P \<Longrightarrow> sent_since r r2 P"
  by (fastforce simp: sent_since_def)

lemma sent_since_mono: "sent_since r r' P \<Longrightarrow> (\<And>m. P m \<Longrightarrow> Q m) \<Longrightarrow> sent_since r r' Q"
  by (auto simp: sent_since_def)

definition calm :: "'s raft \<Rightarrow> 's raft \<Rightarrow> bool" where
  "calm r r' \<longleftrightarrow> rf_id r' = rf_id r \<and> rf_term r' = rf_term r \<and> rf_vote r' = rf_vote r
     \<and> rf_role r' = rf_role r \<and> rf_leader r' = rf_leader r \<and> rf_log r' = rf_log r
     \<and> rf_conf r' = rf_conf r \<and> rf_votes r' = rf_votes r
     \<and> rf_own_term_index r' = rf_own_term_index r
     \<and> sent_since r r' (\<lambda>m. msg_sender m = rf_id r \<and> msg_term m = rf_term r \<and> \<not> is_vote_msg m)"

lemma calmD:
  assumes "calm r r'"
  shows "rf_id r' = rf_id r" "rf_term r' = rf_term r" "rf_vote r' = rf_vote r" "rf_role r' = rf_role r"
    "rf_leader r' = rf_leader r" "rf_log r' = rf_log r" "rf_conf r' = rf_conf r" "rf_votes r' = rf_votes r"
    "rf_own_term_index r' = rf_own_term_index r"
    "sent_since r r' (\<lambda>m. msg_sender m = rf_id r \<and> msg_term m = rf_term r \<and> \<not> is_vote_msg m)"
  using assms by (simp_all add: calm_def)

lemma calm_refl [simp]: "calm r r"
  by (simp add: calm_def)

lemma calm_trans: "calm r r1 \<Longrightarrow> calm r1 r2 \<Longrightarrow> calm r r2"
  by (auto simp: calm_def elim: sent_since_trans)

lemma calm_fields [simp]:
  "calm r (r'\<lparr>rf_progress := m\<rparr>) = calm r r'"
  "calm r (r'\<lparr>rf_read_states := rs\<rparr>) = calm r r'"
  "calm r (r'\<lparr>rf_read_only := ro\<rparr>) = calm r r'"
  "calm r (r'\<lparr>rf_election_elapsed := e\<rparr>) = calm r r'"
  "calm r (r'\<lparr>rf_heartbeat_elapsed := e\<rparr>) = calm r r'"
  "calm r (r'\<lparr>rf_lead_transferee := t\<rparr>) = calm r r'"
  by (simp_all add: calm_def sent_since_def)

lemma calm_send:
  "calm r r' \<Longrightarrow> msg_sender m = rf_id r' \<Longrightarrow> msg_term m = rf_term r' \<Longrightarrow> \<not> is_vote_msg m \<Longrightarrow>
   calm r (raft_send r' m)"
  by (force simp: calm_def raft_send_def sent_since_def)

lemma calm_and_then:
  assumes "calm r (fst x)" "\<And>s a. calm r s \<Longrightarrow> snd x = Ok a \<Longrightarrow> calm r (fst (k s a))"
  shows "calm r (fst (and_then x k))"
  by (rule and_then_rel [of calm]) (use assms in auto)

lemma calm_try_read:
  assumes "calm r s" "\<And>a. x = Ok a \<Longrightarrow> calm r (fst (k a))"
  shows "calm r (fst (try_read s x k))"
  using assms by (auto simp: try_read_def split: result.splits)

lemma calm_try_for:
  assumes "calm r s" "\<And>s x. calm s (fst (f s x))"
  shows "calm r (fst (try_for f xs s))"
  by (rule try_for_rel [of "calm r"]) (use assms calm_trans in blast)+

lemma calm_foldl:
  assumes "calm r s" "\<And>s x. calm s (f s x)"
  shows "calm r (foldl f s xs)"
  using assms(1)
proof (induction xs arbitrary: s)
  case (Cons x xs)
  from calm_trans [OF Cons.prems assms(2)] Cons.IH show ?case by simp
qed simp

lemma send_snapshot_calm: "calm r (fst (send_snapshot S r to))"
  by (auto simp: send_snapshot_def Let_def intro!: calm_send split: result.splits)

lemma send_append_calm: "calm r (fst (send_append S r to))"
  by (auto simp: send_append_def Let_def send_snapshot_calm intro!: calm_try_read calm_send
      split: option.splits result.splits)

lemma bcast_append_calm: "calm r (fst (bcast_append S r))"
  by (auto simp: bcast_append_def send_append_calm intro!: calm_try_for)

lemma send_heartbeat_calm: "calm r (fst (send_heartbeat S r to ctx))"
proof -
  have "calm r (fst (send_append S (r\<lparr>rf_progress := m\<rparr>) to))" for m
    by (rule calm_trans [OF _ send_append_calm]) simp
  then show ?thesis
    by (auto simp: send_heartbeat_def Let_def intro!: calm_send split: option.splits result.splits)
qed

lemma bcast_heartbeat_calm: "calm r (fst (bcast_heartbeat S r ctx))"
  by (auto simp: bcast_heartbeat_def send_heartbeat_calm intro!: calm_try_for)

lemma answer_read_calm: "calm r (answer_read r i ctx from)"
  by (auto simp: answer_read_def intro!: calm_send split: option.splits)

lemma read_index_calm: "calm r (fst (read_index S r ctx from))"
proof -
  have "calm r (fst (bcast_heartbeat S (r\<lparr>rf_read_only := ro\<rparr>) ctx))" for ro
    by (rule calm_trans [OF _ bcast_heartbeat_calm]) simp
  then show ?thesis
    by (auto simp: read_index_def Let_def answer_read_calm intro!: calm_send split: option.splits)
qed

lemma record_read_ack_calm: "calm r (record_read_ack r from ctx)"
  by (auto simp: record_read_ack_def Let_def answer_read_calm intro!: calm_foldl
      split: prod.splits option.splits)

lemma flush_postponed_reads_calm: "calm r (fst (flush_postponed_reads S r))"
  by (auto simp: flush_postponed_reads_def read_index_calm intro!: calm_try_for split: prod.splits)

lemma nudge_transferee_calm: "calm r (fst (nudge_transferee S r t))"
  by (auto simp: nudge_transferee_def Let_def send_append_calm intro!: calm_try_read calm_send)

lemma transfer_leader_calm: "calm r (fst (transfer_leader S r t))"
proof -
  have "calm r (fst (nudge_transferee S (r\<lparr>rf_lead_transferee := Some t, rf_election_elapsed := 0\<rparr>) t))"
    by (rule calm_trans [OF _ nudge_transferee_calm]) simp
  then show ?thesis by (auto simp: transfer_leader_def)
qed

lemma maybe_finish_transfer_calm: "calm r (fst (maybe_finish_transfer S r t))"
  by (simp add: maybe_finish_transfer_def nudge_transferee_calm)

lemma rebuild_progress_calm: "calm r (fst (rebuild_progress S r))"
  by (auto simp: rebuild_progress_def Let_def intro!: calm_try_read)

lemma report_snapshot_calm: "calm r (report_snapshot r to st)"
  by (simp add: report_snapshot_def)

lemma expire_pending_snapshots_calm: "calm r (expire_pending_snapshots r l)"
  by (simp add: expire_pending_snapshots_def)

lemma check_quorum_active_calm: "calm r (fst (check_quorum_active r))"
  by (simp add: check_quorum_active_def Let_def)

lemma handle_read_index_response_calm: "calm r (handle_read_index_response r i ctx)"
  by (simp add: handle_read_index_response_def)

lemma step_lower_term_sends:
  "fst (step_lower_term S r m) = r
   \<or> (\<exists>m'. fst (step_lower_term S r m) = raft_send r m' \<and> msg_sender m' = rf_id r \<and> msg_term m' = rf_term r
        \<and> (\<forall>f to t pv. m' \<noteq> RequestVoteResponse f to t True pv) \<and> (\<forall>f to t li lt pv fo. m' \<noteq> RequestVote f to t li lt pv fo))"
  by (auto simp: step_lower_term_def Let_def try_read_def split: message.splits result.splits)

subsection \<open>Calls that keep the term and the vote\<close>

text \<open>A steady call may append, commit, change the membership and step down, but stays in its term
  with its vote, is never promoted, and sends no message of an election.\<close>

definition steady :: "'s raft \<Rightarrow> 's raft \<Rightarrow> bool" where
  "steady r r' \<longleftrightarrow> rf_id r' = rf_id r \<and> rf_term r' = rf_term r \<and> rf_vote r' = rf_vote r
     \<and> (rf_role r' = rf_role r \<and> rf_votes r' = rf_votes r \<or> rf_role r' = Follower \<and> rf_votes r' = [])
     \<and> lg_committed (rf_log r) \<le> lg_committed (rf_log r')
     \<and> sent_since r r' (\<lambda>m. msg_sender m = rf_id r \<and> msg_term m = rf_term r \<and> \<not> is_vote_msg m)"

lemma steadyD:
  assumes "steady r r'"
  shows "rf_id r' = rf_id r" "rf_term r' = rf_term r" "rf_vote r' = rf_vote r"
    "rf_role r' = rf_role r \<and> rf_votes r' = rf_votes r \<or> rf_role r' = Follower \<and> rf_votes r' = []"
    "lg_committed (rf_log r) \<le> lg_committed (rf_log r')"
    "sent_since r r' (\<lambda>m. msg_sender m = rf_id r \<and> msg_term m = rf_term r \<and> \<not> is_vote_msg m)"
  using assms by (simp_all add: steady_def)

lemma steady_refl [simp]: "steady r r"
  by (simp add: steady_def)

lemma steady_trans: "steady r r1 \<Longrightarrow> steady r1 r2 \<Longrightarrow> steady r r2"
  by (auto simp: steady_def elim: sent_since_trans)

lemma calm_steady: "calm r r' \<Longrightarrow> steady r r'"
  by (simp add: calm_def steady_def)

lemma steady_calm: "steady r r1 \<Longrightarrow> calm r1 r2 \<Longrightarrow> steady r r2"
  by (blast intro: steady_trans calm_steady)

lemma steady_fields [simp]:
  "steady r (r'\<lparr>rf_progress := m\<rparr>) = steady r r'"
  "steady r (r'\<lparr>rf_conf := c\<rparr>) = steady r r'"
  "steady r (r'\<lparr>rf_leader := ld\<rparr>) = steady r r'"
  "steady r (r'\<lparr>rf_own_term_index := i\<rparr>) = steady r r'"
  "steady r (r'\<lparr>rf_read_only := ro\<rparr>) = steady r r'"
  "steady r (r'\<lparr>rf_election_elapsed := e\<rparr>) = steady r r'"
  "steady r (r'\<lparr>rf_heartbeat_elapsed := e\<rparr>) = steady r r'"
  "steady r (r'\<lparr>rf_lead_transferee := tr\<rparr>) = steady r r'"
  "steady r (r'\<lparr>rf_counters := cs\<rparr>) = steady r r'"
  by (simp_all add: steady_def sent_since_def)

lemma steady_log [steady_intros]:
  "steady r r' \<Longrightarrow> lg_committed (rf_log r') \<le> lg_committed l \<Longrightarrow> steady r (r'\<lparr>rf_log := l\<rparr>)"
  by (auto simp: steady_def sent_since_def)

lemma steady_send [steady_intros]:
  "steady r r' \<Longrightarrow> msg_sender m = rf_id r' \<Longrightarrow> msg_term m = rf_term r' \<Longrightarrow> \<not> is_vote_msg m \<Longrightarrow>
   steady r (raft_send r' m)"
  by (force simp: steady_def raft_send_def sent_since_def)

lemma steady_and_then [steady_intros]:
  assumes "steady r (fst x)" "\<And>s a. steady r s \<Longrightarrow> steady r (fst (k s a))"
  shows "steady r (fst (and_then x k))"
  using assms by (auto simp: and_then_def split: result.splits)

lemma steady_calls [steady_intros]:
  assumes "steady r s"
  shows "steady r (fst (send_append S s to))" "steady r (fst (bcast_append S s))"
    "steady r (fst (bcast_heartbeat S s ctx))" "steady r (fst (read_index S s ctx f))"
    "steady r (record_read_ack s n ctx)" "steady r (fst (flush_postponed_reads S s))"
    "steady r (fst (transfer_leader S s to))" "steady r (fst (maybe_finish_transfer S s to))"
    "steady r (fst (rebuild_progress S s))"
  by (intro steady_calm [OF assms] send_append_calm bcast_append_calm bcast_heartbeat_calm read_index_calm
      record_read_ack_calm flush_postponed_reads_calm transfer_leader_calm maybe_finish_transfer_calm
      rebuild_progress_calm)+

lemma steady_try_read [steady_intros]:
  assumes "steady r s" "\<And>a. x = Ok a \<Longrightarrow> steady r (fst (k a))"
  shows "steady r (fst (try_read s x k))"
  using assms by (auto simp: try_read_def split: result.splits)

lemma reset_election_timeout_fields [simp]:
  "rf_id (reset_election_timeout r) = rf_id r" "rf_term (reset_election_timeout r) = rf_term r"
  "rf_vote (reset_election_timeout r) = rf_vote r" "rf_role (reset_election_timeout r) = rf_role r"
  "rf_leader (reset_election_timeout r) = rf_leader r" "rf_log (reset_election_timeout r) = rf_log r"
  "rf_conf (reset_election_timeout r) = rf_conf r" "rf_votes (reset_election_timeout r) = rf_votes r"
  "rf_progress (reset_election_timeout r) = rf_progress r"
  "rf_messages (reset_election_timeout r) = rf_messages r"
  "rf_read_only (reset_election_timeout r) = rf_read_only r"
  "rf_read_states (reset_election_timeout r) = rf_read_states r"
  "rf_max_inflight_msgs (reset_election_timeout r) = rf_max_inflight_msgs r"
  "rf_own_term_index (reset_election_timeout r) = rf_own_term_index r"
  by (simp_all add: reset_election_timeout_def split: prod.splits)

lemma raft_reset_fields [simp]:
  "rf_id (raft_reset r t) = rf_id r" "rf_term (raft_reset r t) = t"
  "rf_vote (raft_reset r t) = (if rf_term r = t then rf_vote r else None)"
  "rf_role (raft_reset r t) = rf_role r" "rf_leader (raft_reset r t) = None"
  "rf_log (raft_reset r t) = rf_log r" "rf_conf (raft_reset r t) = rf_conf r"
  "rf_votes (raft_reset r t) = []" "rf_progress (raft_reset r t) = rf_progress r"
  "rf_messages (raft_reset r t) = rf_messages r"
  "rf_read_states (raft_reset r t) = rf_read_states r"
  "rf_max_inflight_msgs (raft_reset r t) = rf_max_inflight_msgs r"
  "rf_own_term_index (raft_reset r t) = rf_own_term_index r"
  by (auto simp: raft_reset_def Let_def)

lemma become_follower_fields [simp]:
  "rf_id (become_follower r t ld) = rf_id r" "rf_term (become_follower r t ld) = t"
  "rf_vote (become_follower r t ld) = (if rf_term r = t then rf_vote r else None)"
  "rf_role (become_follower r t ld) = Follower" "rf_leader (become_follower r t ld) = ld"
  "rf_log (become_follower r t ld) = rf_log r" "rf_conf (become_follower r t ld) = rf_conf r"
  "rf_votes (become_follower r t ld) = []" "rf_progress (become_follower r t ld) = rf_progress r"
  "rf_messages (become_follower r t ld) = rf_messages r"
  by (simp_all add: become_follower_def)

lemma become_follower_steady [steady_intros]:
  "steady r s \<Longrightarrow> t = rf_term s \<Longrightarrow> steady r (become_follower s t ld)"
  by (auto simp: steady_def sent_since_def)

lemma step_down_if_removed_steady [steady_intros]: "steady r s \<Longrightarrow> steady r (step_down_if_removed s)"
  by (simp add: step_down_if_removed_def become_follower_steady)

lemma record_conf_loop_steady [steady_intros]: "steady r s \<Longrightarrow> steady r (fst (record_conf_loop s moved es))"
  by (induction s moved es rule: record_conf_loop.induct) (auto simp: Let_def split: result.splits)

lemma record_conf_changes_steady [steady_intros]: "steady r s \<Longrightarrow> steady r (fst (record_conf_changes S s es))"
  by (auto simp: record_conf_changes_def intro!: steady_intros)

lemma revert_conf_to_steady [steady_intros]: "steady r s \<Longrightarrow> steady r (fst (revert_conf_to S s i))"
  by (auto simp: revert_conf_to_def Let_def intro!: steady_intros split: prod.splits)

lemma advance_conf_commit_steady [simp]: "steady r (advance_conf_commit s) = steady r s"
  by (simp add: advance_conf_commit_def)

lemma log_commit_to_committed: "log_commit_to S l i = (l', x) \<Longrightarrow> lg_committed l \<le> lg_committed l'"
  by (auto simp: log_commit_to_def split: result.splits if_splits)

lemma maybe_commit_steady [steady_intros]: "steady r s \<Longrightarrow> steady r (fst (maybe_commit S s))"
  by (auto simp: maybe_commit_def Let_def intro!: steady_intros intro: log_commit_to_committed
      split: prod.splits result.splits)

lemma truncate_and_append_committed [simp]: "lg_committed (log_truncate_and_append l es) = lg_committed l"
  by (simp add: log_truncate_and_append_def Let_def split: list.splits)

lemma log_append_committed: "log_append S l es = (l', x) \<Longrightarrow> lg_committed l \<le> lg_committed l'"
  by (auto simp: log_append_def Let_def split: if_splits)

lemma propose_entry_steady [steady_intros]: "steady r s \<Longrightarrow> steady r (fst (propose_entry S s k d))"
  by (auto simp: propose_entry_def Let_def intro!: steady_intros split: prod.splits)
    (erule log_append_committed)

lemma propose_conf_change_steady [steady_intros]:
  "steady r s \<Longrightarrow> steady r (fst (propose_conf_change S s ch))"
  by (auto simp: propose_conf_change_def intro!: steady_intros split: option.splits)

lemma maybe_append_committed:
  "log_maybe_append S l p t c es = (l', x) \<Longrightarrow> lg_committed l \<le> lg_committed l'"
  by (auto simp: log_maybe_append_def Let_def split: if_splits result.splits option.splits prod.splits
      dest!: log_commit_to_committed)

lemma handle_append_entries_steady [steady_intros]:
  "steady r s \<Longrightarrow> steady r (fst (handle_append_entries S s from p t es c ctx))"
  by (auto simp: handle_append_entries_def Let_def intro!: steady_intros
      split: prod.splits result.splits option.splits; erule maybe_append_committed)

lemma handle_append_response_steady [steady_intros]:
  "steady r s \<Longrightarrow> steady r (fst (handle_append_response S s from rej i h ctx))"
  by (auto simp: handle_append_response_def Let_def intro!: steady_intros split: option.splits)

lemma raft_restore_steady:
  "steady r s \<Longrightarrow> log_should_restore S (rf_log s) sn \<Longrightarrow> steady r (fst (raft_restore S s sn))"
  by (auto simp: raft_restore_def log_restore_def log_should_restore_def intro!: steady_intros split: if_splits)

lemma handle_install_snapshot_steady [steady_intros]:
  "steady r s \<Longrightarrow> steady r (fst (handle_install_snapshot S s from sn))"
  by (auto simp: handle_install_snapshot_def Let_def intro!: steady_intros raft_restore_steady)

subsection \<open>Elections\<close>

text \<open>What any call may do to the election state, given the votes \<open>V\<close> (who, in which term) it was
  told about: the contract the election argument needs.\<close>

definition vote_msg_ok :: "'s raft \<Rightarrow> message \<Rightarrow> bool" where
  "vote_msg_ok r m \<longleftrightarrow> msg_sender m = rf_id r
     \<and> (\<forall>f to t. m = RequestVoteResponse f to t True False \<longrightarrow> t = rf_term r \<and> rf_vote r = Some to)"

definition backed :: "(node_id \<times> rterm) set \<Rightarrow> 's raft \<Rightarrow> 's raft \<Rightarrow> node_id \<Rightarrow> bool" where
  "backed V r r' n \<longleftrightarrow> n = rf_id r \<or> (n, rf_term r') \<in> V
     \<or> (rf_role r = Candidate \<and> rf_term r = rf_term r' \<and> (n, True) \<in> set (rf_votes r))"

definition electoral :: "(node_id \<times> rterm) set \<Rightarrow> 's raft \<Rightarrow> 's raft \<Rightarrow> bool" where
  "electoral V r r' \<longleftrightarrow>
     rf_id r' = rf_id r \<and> rf_term r \<le> rf_term r'
     \<and> (rf_term r' = rf_term r \<longrightarrow> rf_term r < u64_max \<longrightarrow> rf_vote r = None \<or> rf_vote r' = rf_vote r)
     \<and> lg_committed (rf_log r) \<le> lg_committed (rf_log r')
     \<and> sent_since r r' (vote_msg_ok r')
     \<and> sorted_by fst (rf_votes r')
     \<and> (rf_role r' = Candidate \<or> rf_role r' = Leader \<longrightarrow> rf_vote r' = Some (rf_id r))
     \<and> (rf_role r' = Candidate \<longrightarrow> (\<forall>n. (n, True) \<in> set (rf_votes r') \<longrightarrow> backed V r r' n))
     \<and> (rf_role r' = Leader \<longrightarrow> (rf_role r = Leader \<and> rf_term r' = rf_term r)
          \<or> (\<exists>Q. conf_is_quorum (ct_current (rf_conf r)) Q \<and> (\<forall>n \<in> Q. backed V r r' n)))
     \<and> (rf_term r \<le> u64_max \<longrightarrow> rf_term r' \<le> u64_max)"

lemma electoralD:
  assumes "electoral V r r'"
  shows "rf_id r' = rf_id r" "rf_term r \<le> rf_term r'"
    "rf_term r' = rf_term r \<Longrightarrow> rf_term r < u64_max \<Longrightarrow> rf_vote r = None \<or> rf_vote r' = rf_vote r"
    "lg_committed (rf_log r) \<le> lg_committed (rf_log r')" "sent_since r r' (vote_msg_ok r')"
    "sorted_by fst (rf_votes r')"
    "rf_role r' = Candidate \<or> rf_role r' = Leader \<Longrightarrow> rf_vote r' = Some (rf_id r)"
    "rf_role r' = Candidate \<Longrightarrow> (n, True) \<in> set (rf_votes r') \<Longrightarrow> backed V r r' n"
    "rf_role r' = Leader \<Longrightarrow> (rf_role r = Leader \<and> rf_term r' = rf_term r)
       \<or> (\<exists>Q. conf_is_quorum (ct_current (rf_conf r)) Q \<and> (\<forall>n \<in> Q. backed V r r' n))"
    "rf_term r \<le> u64_max \<Longrightarrow> rf_term r' \<le> u64_max"
  using assms unfolding electoral_def by simp_all

text \<open>The state a node must be in for the contract: candidates and leaders have voted for
  themselves, and the votes collected are a sorted vector.\<close>

definition ballot_ok :: "'s raft \<Rightarrow> bool" where
  "ballot_ok r \<longleftrightarrow> sorted_by fst (rf_votes r)
     \<and> (rf_role r = Candidate \<or> rf_role r = Leader \<longrightarrow> rf_vote r = Some (rf_id r))"

lemma sent_non_votes:
  "sent_since r r' (\<lambda>m. msg_sender m = rf_id r \<and> msg_term m = rf_term r \<and> \<not> is_vote_msg m) \<Longrightarrow>
   rf_id r' = rf_id r \<Longrightarrow> sent_since r r' (vote_msg_ok r')"
  by (erule sent_since_mono) (auto simp: vote_msg_ok_def)

lemma steady_electoral:
  assumes "steady r r'" "ballot_ok r"
  shows "electoral V r r'"
  using steadyD [OF assms(1)] assms(2) sent_non_votes [OF steadyD(6) [OF assms(1)]]
  by (auto simp: electoral_def ballot_ok_def backed_def)

lemma electoral_ballot: "electoral V r r' \<Longrightarrow> ballot_ok r'"
  by (auto simp: electoral_def ballot_ok_def)

lemma electoral_steady:
  assumes "electoral V r r1" "steady r1 r2"
  shows "electoral V r r2"
proof -
  have "sent_since r r2 (vote_msg_ok r2)"
  proof (rule sent_since_trans)
    show "sent_since r r1 (vote_msg_ok r2)"
      using assms by (auto simp: electoral_def vote_msg_ok_def steadyD elim: sent_since_mono)
    show "sent_since r1 r2 (vote_msg_ok r2)"
      using sent_non_votes [OF steadyD(6) [OF assms(2)]] steadyD(1) [OF assms(2)] by simp
  qed
  moreover have "lg_committed (rf_log r) \<le> lg_committed (rf_log r2)"
    using assms(1) steadyD(5) [OF assms(2)] unfolding electoral_def by linarith
  moreover note steadyD(1-4) [OF assms(2)] assms(1) [unfolded electoral_def backed_def]
  ultimately show ?thesis unfolding electoral_def backed_def by (elim disjE conjE) simp_all
qed

lemma become_follower_electoral:
  "rf_term r \<le> t \<Longrightarrow> t \<le> u64_max \<Longrightarrow> electoral V r (become_follower r t ld)"
  by (auto simp: electoral_def)

text \<open>Collecting votes.\<close>

lemma poll_votes:
  assumes "sorted_by fst (rf_votes r)" "poll r from g = (r1, res)"
  shows "r1 = r\<lparr>rf_votes := rf_votes r1\<rparr>" "sorted_by fst (rf_votes r1)"
    "(n, True) \<in> set (rf_votes r1) \<Longrightarrow> (n, True) \<in> set (rf_votes r) \<or> n = from \<and> g"
  using assms sorted_by_insert_at [of fst "rf_votes r" "(from, g)"]
  by (auto simp: poll_def Let_def split: result.splits)

lemma poll_won:
  assumes s: "sorted_by fst (rf_votes r)" and p: "poll r from g = (r1, Won)"
    and ok: "conf_ok (ct_current (rf_conf r))"
  shows "conf_is_quorum (ct_current (rf_conf r))
    {n \<in> set (voters (ct_current (rf_conf r))). (n, True) \<in> set (rf_votes r1)}"
proof -
  let ?c = "ct_current (rf_conf r)"
  let ?w = "filter snd (filter (\<lambda>(n, _). conf_is_voter ?c n) (rf_votes r1))"
  have r1: "r1 = r\<lparr>rf_votes := rf_votes r1\<rparr>" and s1: "sorted_by fst (rf_votes r1)"
    using poll_votes [OF s p] by auto
  from p have "rf_conf r1 = rf_conf r" by (subst r1) simp
  with p have q: "conf_quorum ?c \<le> length ?w"
    by (auto simp: poll_def Let_def split: if_splits result.splits)
  have "distinct (map fst ?w)" by (intro sorted_by_distinct sorted_by_filter s1)
  then have "card (set (map fst ?w)) = length ?w" by (metis distinct_card length_map)
  moreover have "set (map fst ?w) = {n \<in> set (voters ?c). (n, True) \<in> set (rf_votes r1)}"
    using ok by (force simp: image_iff)
  ultimately show ?thesis using q by (auto simp: conf_is_quorum_def)
qed

lemma electoral_via:
  assumes "electoral V r r1" "electoral V r1 r2" "rf_role r1 = Follower \<or> rf_role r1 = PreCandidate"
    "rf_messages r1 = rf_messages r" "rf_conf r1 = rf_conf r"
  shows "electoral V r r2"
proof -
  note e1 = electoralD [OF assms(1)] and e2 = electoralD [OF assms(2)]
  have bk: "backed V r1 r2 n \<Longrightarrow> backed V r r2 n" for n
    using e1(1) assms(3) by (auto simp: backed_def)
  show ?thesis unfolding electoral_def
  proof (intro conjI impI allI)
    show "rf_id r2 = rf_id r" "sorted_by fst (rf_votes r2)" using e1(1) e2(1,6) by simp_all
    show "rf_term r \<le> rf_term r2" using e1(2) e2(2) by (rule le_trans)
    show "lg_committed (rf_log r) \<le> lg_committed (rf_log r2)" using e1(4) e2(4) by (rule le_trans)
    show "sent_since r r2 (vote_msg_ok r2)" using e2(5) assms(4) by (simp add: sent_since_def)
    show "rf_vote r = None \<or> rf_vote r2 = rf_vote r" if "rf_term r2 = rf_term r" "rf_term r < u64_max"
    proof -
      have "rf_term r1 = rf_term r" "rf_term r2 = rf_term r1" using e1(2) e2(2) that(1) by simp_all
      with e1(3) e2(3) that(2) show ?thesis by (cases "rf_vote r") auto
    qed
    show "rf_vote r2 = Some (rf_id r)" if "rf_role r2 = Candidate \<or> rf_role r2 = Leader"
      using e2(7) [OF that] e1(1) by simp
    show "backed V r r2 n" if "rf_role r2 = Candidate" "(n, True) \<in> set (rf_votes r2)" for n
      by (rule bk [OF e2(8) [OF that]])
    show "(rf_role r = Leader \<and> rf_term r2 = rf_term r)
        \<or> (\<exists>Q. conf_is_quorum (ct_current (rf_conf r)) Q \<and> (\<forall>n \<in> Q. backed V r r2 n))" if "rf_role r2 = Leader"
      using e2(9) [OF that] assms(3) bk by (auto simp: assms(5))
    show "rf_term r2 \<le> u64_max" if "rf_term r \<le> u64_max" using e1(10) e2(10) that by simp
  qed
qed

lemma electoral_same:
  assumes "ballot_ok r" "rf_id r' = rf_id r" "rf_term r' = rf_term r" "rf_vote r' = rf_vote r"
    "rf_role r' = rf_role r \<or> rf_role r' = PreCandidate" "rf_log r' = rf_log r"
    "rf_votes r' = rf_votes r \<or> rf_votes r' = []" "sent_since r r' (vote_msg_ok r')"
  shows "electoral V r r'"
  using assms by (auto simp: electoral_def ballot_ok_def backed_def)

lemma bump_fields [simp]:
  "rf_id (bump_campaigns_pre r) = rf_id r" "rf_term (bump_campaigns_pre r) = rf_term r"
  "rf_vote (bump_campaigns_pre r) = rf_vote r" "rf_log (bump_campaigns_pre r) = rf_log r"
  "rf_conf (bump_campaigns_pre r) = rf_conf r" "rf_messages (bump_campaigns_pre r) = rf_messages r"
  "rf_id (bump_campaigns_real r) = rf_id r" "rf_term (bump_campaigns_real r) = rf_term r"
  "rf_vote (bump_campaigns_real r) = rf_vote r" "rf_log (bump_campaigns_real r) = rf_log r"
  "rf_conf (bump_campaigns_real r) = rf_conf r" "rf_messages (bump_campaigns_real r) = rf_messages r"
  "rf_id (bump_requests_sent r) = rf_id r" "rf_term (bump_requests_sent r) = rf_term r"
  "rf_vote (bump_requests_sent r) = rf_vote r" "rf_log (bump_requests_sent r) = rf_log r"
  "rf_role (bump_requests_sent r) = rf_role r" "rf_votes (bump_requests_sent r) = rf_votes r"
  "rf_conf (bump_requests_sent r) = rf_conf r" "rf_messages (bump_requests_sent r) = rf_messages r"
  by (simp_all add: bump_campaigns_pre_def bump_campaigns_real_def bump_requests_sent_def)

lemma become_pre_candidate_fields [simp]:
  "rf_id (become_pre_candidate r) = rf_id r" "rf_term (become_pre_candidate r) = rf_term r"
  "rf_vote (become_pre_candidate r) = rf_vote r" "rf_role (become_pre_candidate r) = PreCandidate"
  "rf_log (become_pre_candidate r) = rf_log r" "rf_conf (become_pre_candidate r) = rf_conf r"
  "rf_votes (become_pre_candidate r) = []" "rf_messages (become_pre_candidate r) = rf_messages r"
  by (simp_all add: become_pre_candidate_def)

lemma become_candidate_fields [simp]:
  "rf_id (become_candidate r) = rf_id r" "rf_term (become_candidate r) = sat_add (rf_term r) 1"
  "rf_vote (become_candidate r) = Some (rf_id r)" "rf_role (become_candidate r) = Candidate"
  "rf_log (become_candidate r) = rf_log r" "rf_conf (become_candidate r) = rf_conf r"
  "rf_votes (become_candidate r) = []" "rf_messages (become_candidate r) = rf_messages r"
  by (simp_all add: become_candidate_def Let_def)

text \<open>Taking office: everything after the change of role is steady.\<close>

definition in_office :: "'s raft \<Rightarrow> 's raft" where
  "in_office r = (raft_reset r (rf_term r))
     \<lparr>rf_vote := Some (rf_id r), rf_role := Leader, rf_leader := Some (rf_id r)\<rparr>"

lemma in_office_fields [simp]:
  "rf_id (in_office r) = rf_id r" "rf_term (in_office r) = rf_term r" "rf_vote (in_office r) = Some (rf_id r)"
  "rf_role (in_office r) = Leader" "rf_log (in_office r) = rf_log r" "rf_conf (in_office r) = rf_conf r"
  "rf_votes (in_office r) = []" "rf_messages (in_office r) = rf_messages r"
  by (simp_all add: in_office_def)

lemma become_leader_steady: "steady (in_office r) (fst (become_leader S r))"
proof -
  have "steady (in_office r) (in_office r)" by simp
  then show ?thesis
    unfolding become_leader_def Let_def in_office_def
    by (auto intro!: steady_intros split: prod.splits) (erule log_append_committed)
qed

text \<open>Asking for votes only sends requests.\<close>

definition asked :: "'s raft \<Rightarrow> 's raft \<Rightarrow> bool" where
  "asked r r' \<longleftrightarrow> rf_id r' = rf_id r \<and> rf_term r' = rf_term r \<and> rf_vote r' = rf_vote r
     \<and> rf_role r' = rf_role r \<and> rf_log r' = rf_log r \<and> rf_conf r' = rf_conf r \<and> rf_votes r' = rf_votes r
     \<and> sent_since r r' (\<lambda>m. msg_sender m = rf_id r \<and> (\<exists>to t li lt pv fo. m = RequestVote (rf_id r) to t li lt pv fo))"

lemma asked_trans: "asked r r1 \<Longrightarrow> asked r1 r2 \<Longrightarrow> asked r r2"
  by (auto simp: asked_def elim: sent_since_trans)

lemma request_votes_asked:
  "asked r (foldl (\<lambda>r peer. if peer = rf_id r then r
     else raft_send (bump_requests_sent r) (RequestVote (rf_id r) peer t li lt pv fo)) r vs)"
proof (induction vs arbitrary: r)
  case (Cons v vs)
  have "asked r (if v = rf_id r then r
     else raft_send (bump_requests_sent r) (RequestVote (rf_id r) v t li lt pv fo))"
    by (auto simp: asked_def raft_send_def intro!: sent_since_one)
  from asked_trans [OF this Cons.IH] show ?case by simp
qed (simp add: asked_def)

lemma asked_electoral:
  assumes "electoral V r r1" "asked r1 r2"
  shows "electoral V r r2"
proof -
  have "sent_since r r2 (vote_msg_ok r2)"
  proof (rule sent_since_trans)
    show "sent_since r r1 (vote_msg_ok r2)"
      using assms by (auto simp: electoral_def vote_msg_ok_def asked_def elim: sent_since_mono)
    show "sent_since r1 r2 (vote_msg_ok r2)"
      using assms(2) by (auto simp: asked_def vote_msg_ok_def elim: sent_since_mono)
  qed
  moreover note assms(1) [unfolded electoral_def backed_def] assms(2) [unfolded asked_def]
  ultimately show ?thesis unfolding electoral_def backed_def by simp
qed

lemma become_leader_electoral:
  assumes "electoral V r r1" "rf_role r1 = Candidate" "rf_conf r1 = rf_conf r"
    "conf_is_quorum (ct_current (rf_conf r)) Q" "\<forall>n \<in> Q. backed V r r1 n"
  shows "electoral V r (fst (become_leader S r1))"
proof (rule electoral_steady [OF _ become_leader_steady])
  have "rf_vote r1 = Some (rf_id r)" "rf_id r1 = rf_id r" using assms(1,2) by (simp_all add: electoral_def)
  with assms show "electoral V r (in_office r1)"
    by (auto simp: electoral_def backed_def vote_msg_ok_def sent_since_def)
qed

lemma sat_Suc_ge: "t \<le> u64_max \<Longrightarrow> t \<le> sat_add t 1 \<and> (sat_add t 1 = t \<longrightarrow> t = u64_max)"
  by (auto simp: sat_add_def)

lemma candidate_electoral:
  assumes "rf_term r \<le> u64_max"
  shows "electoral V r (become_candidate (bump_campaigns_real r))"
  using sat_Suc_ge [OF assms] sat_add_le_max [of "rf_term r" 1] by (auto simp: electoral_def)

lemma poll_electoral:
  assumes "electoral V r r1" "poll r1 from g = (r2, res)" "g \<Longrightarrow> rf_role r1 = Candidate \<Longrightarrow> backed V r r1 from"
  shows "electoral V r r2" "rf_role r2 = rf_role r1" "rf_conf r2 = rf_conf r1" "rf_messages r2 = rf_messages r1"
    "rf_id r2 = rf_id r1" "rf_term r2 = rf_term r1"
proof -
  have s: "sorted_by fst (rf_votes r1)" using assms(1) by (simp add: electoral_def)
  note pv = poll_votes [OF s assms(2)]
  show "rf_role r2 = rf_role r1" "rf_conf r2 = rf_conf r1" "rf_messages r2 = rf_messages r1"
    "rf_id r2 = rf_id r1" "rf_term r2 = rf_term r1"
    by (subst pv(1), simp)+
  have f: "rf_vote r2 = rf_vote r1" "rf_log r2 = rf_log r1" by (subst pv(1), simp)+
  have "sent_since r r2 (vote_msg_ok r2)"
    using assms(1) \<open>rf_messages r2 = rf_messages r1\<close> \<open>rf_id r2 = rf_id r1\<close> \<open>rf_term r2 = rf_term r1\<close> f
    by (auto simp: electoral_def sent_since_def vote_msg_ok_def)
  with pv(2,3) assms(1,3) f \<open>rf_role r2 = rf_role r1\<close> \<open>rf_id r2 = rf_id r1\<close> \<open>rf_term r2 = rf_term r1\<close>
  show "electoral V r r2" unfolding electoral_def backed_def by (elim conjE, intro conjI) auto
qed

end
