(* ===== verification/RaftElection.thy ===== *)
theory RaftElection
  imports RaftFrame
begin

text \<open>
  Elections (\<^verbatim>\<open>election.rs\<close>, \<^verbatim>\<open>core.rs\<close>): every message, tick and driver call keeps the
  contract \<open>electoral\<close>, for any storage. From it: terms, votes and commit indexes never go back, a
  vote is recorded before it is answered, and a pre-vote changes nothing.
\<close>

subsection \<open>Every message and tick keeps the contract\<close>

lemma campaign_real_electoral:
  assumes "kind \<noteq> PreElection" "ballot_ok r" "rf_term r \<le> u64_max" "conf_ok (ct_current (rf_conf r))"
  shows "electoral V r (fst (campaign S r kind))"
proof -
  have self: "electoral V r r" by (rule steady_electoral [OF steady_refl assms(2)])
  let ?r1 = "become_candidate (bump_campaigns_real r)"
  have e1: "electoral V r ?r1" by (rule candidate_electoral [OF assms(3)])
  obtain r2 res where p: "poll ?r1 (rf_id r) True = (r2, res)" by (cases "poll ?r1 (rf_id r) True")
  have b: "backed V r ?r1 (rf_id r)" by (simp add: backed_def)
  note pe = poll_electoral [OF e1 p b]
  have lead: "electoral V r (fst (become_leader S r2))" if "res = Won"
  proof (rule become_leader_electoral [OF pe(1)])
    show "rf_role r2 = Candidate" "rf_conf r2 = rf_conf r" using pe(2,3) by simp_all
    have "conf_is_quorum (ct_current (rf_conf ?r1))
        {n \<in> set (voters (ct_current (rf_conf ?r1))). (n, True) \<in> set (rf_votes r2)}"
      using p that assms(4) by (intro poll_won [of ?r1 "rf_id r" True]) auto
    then show "conf_is_quorum (ct_current (rf_conf r))
        {n \<in> set (voters (ct_current (rf_conf r))). (n, True) \<in> set (rf_votes r2)}" by simp
    show "\<forall>n \<in> {n \<in> set (voters (ct_current (rf_conf r))). (n, True) \<in> set (rf_votes r2)}. backed V r r2 n"
      using electoralD(8) [OF pe(1)] pe(2) by simp
  qed
  show ?thesis
    using assms(1) self lead asked_electoral [OF pe(1) request_votes_asked] pe(1) p
    by (auto simp: campaign.simps [of S r kind] Let_def try_read_def split: result.splits)
qed

lemma campaign_electoral:
  assumes "ballot_ok r" "rf_term r \<le> u64_max" "conf_ok (ct_current (rf_conf r))"
  shows "electoral V r (fst (campaign S r kind))"
proof (cases "kind = PreElection")
  case True
  have self: "electoral V r r" by (rule steady_electoral [OF steady_refl assms(1)])
  let ?r1 = "become_pre_candidate (bump_campaigns_pre r)"
  have e1: "electoral V r ?r1" by (rule electoral_same [OF assms(1)]) simp_all
  obtain r2 res where p: "poll ?r1 (rf_id r) True = (r2, res)" by (cases "poll ?r1 (rf_id r) True")
  have b: "backed V r ?r1 (rf_id r)" by (simp add: backed_def)
  note pe = poll_electoral [OF e1 p b]
  have "electoral V r2 (fst (campaign S r2 Election))"
    by (rule campaign_real_electoral) (use electoral_ballot [OF pe(1)] pe assms in auto)
  from electoral_via [OF pe(1) this] have "electoral V r (fst (campaign S r2 Election))"
    using pe by simp
  then show ?thesis
    using self asked_electoral [OF pe(1) request_votes_asked] pe(1) p
    by (auto simp: True campaign.simps [of S r PreElection] Let_def try_read_def split: result.splits)
qed (rule campaign_real_electoral [OF _ assms])

lemma handle_vote_request_electoral:
  assumes "ballot_ok r"
  shows "electoral V r (handle_vote_request S r from t li lt pv)"
proof -
  define g where "g \<longleftrightarrow> (rf_vote r = Some from \<or> (rf_vote r = None \<and> rf_leader r = None) \<or> (pv \<and> rf_term r < t))
     \<and> raft_is_voter r from \<and> log_is_up_to_date S (rf_log r) li lt"
  define r' where "r' = handle_vote_request S r from t li lt pv"
  have f: "rf_id r' = rf_id r" "rf_term r' = rf_term r" "rf_role r' = rf_role r" "rf_log r' = rf_log r"
    "rf_votes r' = rf_votes r" "rf_vote r' = (if g \<and> \<not> pv then Some from else rf_vote r)"
    "rf_messages r' = rf_messages r @
       [RequestVoteResponse (rf_id r) from (if pv then t else rf_term r) g pv]"
    by (auto simp: handle_vote_request_def Let_def raft_send_def g_def r'_def)
  have v: "rf_vote r = None \<or> rf_vote r' = rf_vote r"
    using f(6) by (auto simp: g_def)
  have "sent_since r r' (vote_msg_ok r')"
    by (rule sent_since_one [OF f(7)]) (auto simp: vote_msg_ok_def f)
  moreover have "rf_role r = Candidate \<or> rf_role r = Leader \<Longrightarrow> rf_vote r' = Some (rf_id r)"
    using assms v by (auto simp: ballot_ok_def)
  moreover note f(1-5) v assms [unfolded ballot_ok_def]
  ultimately show ?thesis unfolding electoral_def backed_def r'_def [symmetric] by simp
qed

lemma handle_vote_response_electoral:
  assumes "ballot_ok r" "rf_term r \<le> u64_max" "conf_ok (ct_current (rf_conf r))"
    "granted \<Longrightarrow> \<not> pv \<Longrightarrow> (src, rf_term r) \<in> V"
  shows "electoral V r (fst (handle_vote_response S r src granted pv))"
proof -
  have self: "electoral V r r" by (rule steady_electoral [OF steady_refl assms(1)])
  have ign: "electoral V r (bump_responses_ignored r)"
    by (rule steady_electoral [OF _ assms(1)]) (simp add: bump_responses_ignored_def)
  obtain r1 res where p: "poll r src granted = (r1, res)" by (cases "poll r src granted")
  show ?thesis
  proof (cases "rf_role r = Follower \<or> rf_role r = Leader \<or> pv \<noteq> (rf_role r = PreCandidate)")
    case True
    with ign show ?thesis by (auto simp: handle_vote_response_def Let_def)
  next
    case False
    have b: "backed V r r src" if granted "rf_role r = Candidate"
      using assms(4) that False by (auto simp: backed_def)
    note pe = poll_electoral [OF self p b]
    have lost: "electoral V r (become_follower r1 (rf_term r1) None)"
      by (rule electoral_steady [OF pe(1) become_follower_steady [OF steady_refl refl]])
    have pre: "electoral V r (fst (campaign S r1 Election))" if "rf_role r = PreCandidate"
    proof (rule electoral_via [OF pe(1)])
      show "electoral V r1 (fst (campaign S r1 Election))"
        by (rule campaign_real_electoral) (use electoral_ballot [OF pe(1)] pe assms in auto)
    qed (use pe that in auto)
    have lead: "electoral V r (fst (become_leader S r1))" if "res = Won" "rf_role r = Candidate"
    proof (rule become_leader_electoral [OF pe(1)])
      show "rf_role r1 = Candidate" "rf_conf r1 = rf_conf r" using pe that by simp_all
      show "conf_is_quorum (ct_current (rf_conf r))
          {n \<in> set (voters (ct_current (rf_conf r))). (n, True) \<in> set (rf_votes r1)}"
        using p that assms by (intro poll_won [of r src granted]) (auto simp: ballot_ok_def)
      show "\<forall>n \<in> {n \<in> set (voters (ct_current (rf_conf r))). (n, True) \<in> set (rf_votes r1)}. backed V r r1 n"
        using electoralD(8) [OF pe(1)] pe(2) that by simp
    qed
    show ?thesis
      using False p pe lost pre lead
      by (cases "rf_role r") (auto simp: handle_vote_response_def Let_def split: vote_result.splits)
  qed
qed


text \<open>Ticks and messages.\<close>

lemma tick_heartbeat_steady: "steady r (tick_heartbeat S r)"
proof -
  let ?r0 = "r\<lparr>rf_heartbeat_elapsed := u64_add (rf_heartbeat_elapsed r) 1,
                    rf_election_elapsed := u64_add (rf_election_elapsed r) 1\<rparr>"
  let ?r1 = "expire_pending_snapshots ?r0 SNAPSHOT_TIMEOUT_TICKS"
  have "steady r ?r0" by simp
  then have r1: "steady r ?r1" by (rule steady_calm [OF _ expire_pending_snapshots_calm])
  have hb: "steady r (fst (bcast_heartbeat S (?r1\<lparr>rf_heartbeat_elapsed := 0\<rparr>) c))" for c
    using r1 by (intro steady_intros) simp
  have cq: "steady r r4" if "steady r r3" "check_quorum_active r3 = (r4, a)" for r3 r4 a
    using steady_calm [OF that(1) check_quorum_active_calm] that(2) by simp
  show ?thesis
    using r1 hb unfolding tick_heartbeat_def Let_def abort_transfer_def
    by (auto intro!: steady_intros split: prod.splits dest: cq [rotated])
qed

lemma step_lower_term_electoral:
  assumes "ballot_ok r"
  shows "electoral V r (fst (step_lower_term S r m))"
proof -
  have self: "electoral V r r" by (rule steady_electoral [OF steady_refl assms])
  have "electoral V r (raft_send r m')"
    if "msg_sender m' = rf_id r" "\<forall>f to t pv. m' \<noteq> RequestVoteResponse f to t True pv" for m'
    using assms that
    by (intro electoral_same [OF assms]) (auto simp: raft_send_def vote_msg_ok_def intro!: sent_since_one)
  with self step_lower_term_sends [of S r m] show ?thesis by auto
qed

lemma step_higher_term_electoral:
  assumes "ballot_ok r" "rf_term r < msg_term m" "msg_term m \<le> u64_max"
  shows "electoral V r (step_higher_term r m)"
  using assms steady_electoral [OF steady_refl assms(1)]
  by (auto simp: step_higher_term_def intro!: become_follower_electoral split: message.splits)

definition granted_by :: "message \<Rightarrow> (node_id \<times> rterm) set" where
  "granted_by m = (case m of RequestVoteResponse src to t g pv \<Rightarrow> if g \<and> \<not> pv then {(src, t)} else {} | _ \<Rightarrow> {})"

lemma concede_steady: "t = rf_term r \<Longrightarrow> steady r (concede r t src)"
  by (auto simp: concede_def intro!: steady_intros)

lemma step_current_term_electoral:
  assumes ok: "ballot_ok r" "rf_term r \<le> u64_max" "conf_ok (ct_current (rf_conf r))"
    and t: "msg_term m = rf_term r \<or> msg_is_pre_vote m"
  shows "electoral (granted_by m) r (fst (step_current_term S r m))"
proof (cases m)
  case (RequestVote f to t li lt pv fo)
  then show ?thesis by (simp add: step_current_term_def handle_vote_request_electoral [OF ok(1)])
next
  case (RequestVoteResponse f to t g pv)
  with t show ?thesis
    by (auto simp: step_current_term_def granted_by_def intro!: handle_vote_response_electoral ok)
next
  case (AppendEntries f to t pi pt es lc cx)
  with t have "steady r (concede r t f)" by (intro concede_steady) simp
  with AppendEntries show ?thesis
    by (auto simp: step_current_term_def intro!: steady_electoral [OF _ ok(1)] steady_intros)
next
  case (InstallSnapshot f to t sn)
  with t have "steady r (concede r t f)" by (intro concede_steady) simp
  with InstallSnapshot show ?thesis
    by (auto simp: step_current_term_def intro!: steady_electoral [OF _ ok(1)] steady_intros)
next
  case (TimeoutNow f to t)
  with campaign_electoral [OF ok] steady_electoral [OF steady_refl ok(1)] show ?thesis
    by (simp add: step_current_term_def handle_timeout_now_def)
next
  case (ReadIndexResponse f to t i cx)
  then show ?thesis
    by (auto simp: step_current_term_def intro!: steady_electoral [OF _ ok(1)]
        calm_steady handle_read_index_response_calm)
qed (auto simp: step_current_term_def intro!: steady_electoral [OF _ ok(1)] steady_intros)

lemma step_higher_term_fields:
  assumes "rf_term r < msg_term m"
  shows "rf_messages (step_higher_term r m) = rf_messages r" "rf_conf (step_higher_term r m) = rf_conf r"
    "step_higher_term r m = r \<or> rf_role (step_higher_term r m) = Follower"
    "rf_term (step_higher_term r m) = msg_term m \<or> msg_is_pre_vote m"
  by (auto simp: step_higher_term_def split: message.splits)

lemma raft_step_electoral:
  assumes ok: "ballot_ok r" "rf_term r \<le> u64_max" "msg_term m \<le> u64_max" "conf_ok (ct_current (rf_conf r))"
  shows "electoral (granted_by m) r (fst (raft_step S r m))"
proof -
  let ?h = "step_higher_term r m"
  have self: "electoral (granted_by m) r r" by (rule steady_electoral [OF steady_refl ok(1)])
  have high: "electoral (granted_by m) r (fst (step_current_term S ?h m))" if lt: "rf_term r < msg_term m"
  proof -
    note f = step_higher_term_fields [OF lt]
    have e: "electoral (granted_by m) r ?h" by (rule step_higher_term_electoral [OF ok(1) lt ok(3)])
    have b: "rf_term ?h \<le> u64_max" using ok(2,3) by (auto simp: step_higher_term_def split: message.splits)
    have s: "electoral (granted_by m) ?h (fst (step_current_term S ?h m))"
      using f ok b by (intro step_current_term_electoral electoral_ballot [OF e]) auto
    show ?thesis
    proof (cases "?h = r")
      case True
      with s show ?thesis by simp
    next
      case False
      with f show ?thesis by (intro electoral_via [OF e s]) auto
    qed
  qed
  show ?thesis
    using self high step_lower_term_electoral [OF ok(1)] step_current_term_electoral [OF ok(1,2,4)]
    by (auto simp: raft_step_def)
qed

lemma raft_tick_electoral:
  assumes ok: "ballot_ok r" "rf_term r \<le> u64_max" "conf_ok (ct_current (rf_conf r))"
  shows "electoral V r (raft_tick S r)"
proof -
  have "electoral V r (fst (campaign S (r\<lparr>rf_election_elapsed := e\<rparr>) k))" for e k
  proof -
    have "ballot_ok (r\<lparr>rf_election_elapsed := e\<rparr>)" using ok(1) by (simp add: ballot_ok_def)
    from campaign_electoral [OF this, of V S k] ok
    have "electoral V (r\<lparr>rf_election_elapsed := e\<rparr>) (fst (campaign S (r\<lparr>rf_election_elapsed := e\<rparr>) k))" by simp
    then show ?thesis by (simp add: electoral_def backed_def sent_since_def)
  qed
  moreover have "electoral V r (r\<lparr>rf_election_elapsed := e\<rparr>)" for e
    by (rule steady_electoral [OF _ ok(1)]) simp
  ultimately show ?thesis
    using steady_electoral [OF tick_heartbeat_steady ok(1)]
    by (auto simp: raft_tick_def tick_election_def Let_def)
qed

subsection \<open>The calls a driver makes\<close>

datatype driver_call =
    CallTick
  | CallStep message
  | CallPropose bytes
  | CallProposeConfChange conf_change
  | CallReadIndex bytes
  | CallCampaign
  | CallTransferLeader node_id
  | CallReportSnapshot node_id snapshot_status

fun node_call :: "'s log_storage \<Rightarrow> 's raw_node \<Rightarrow> driver_call \<Rightarrow> 's raw_node" where
  "node_call S n CallTick = node_tick S n"
| "node_call S n (CallStep m) = fst (node_step S n m)"
| "node_call S n (CallPropose d) = fst (node_propose S n d)"
| "node_call S n (CallProposeConfChange ch) = fst (node_propose_conf_change S n ch)"
| "node_call S n (CallReadIndex ctx) = node_read_index S n ctx"
| "node_call S n CallCampaign = fst (node_campaign S n)"
| "node_call S n (CallTransferLeader t) = node_transfer_leader S n t"
| "node_call S n (CallReportSnapshot t st) = node_report_snapshot n t st"

text \<open>The votes a call brings in, and the bound a term of type \<^verbatim>\<open>u64\<close> has.\<close>

fun call_votes :: "driver_call \<Rightarrow> (node_id \<times> rterm) set" where
  "call_votes (CallStep m) = granted_by m"
| "call_votes _ = {}"

fun call_bounded :: "driver_call \<Rightarrow> bool" where
  "call_bounded (CallStep m) = (msg_term m \<le> u64_max)"
| "call_bounded _ = True"

lemma node_call_electoral:
  assumes ok: "ballot_ok (rn_raft n)" "rf_term (rn_raft n) \<le> u64_max" "conf_ok (ct_current (rf_conf (rn_raft n)))"
    and c: "call_bounded c"
  shows "electoral (call_votes c) (rn_raft n) (rn_raft (node_call S n c))"
proof (cases c)
  case CallTick
  then show ?thesis by (simp add: node_tick_def raft_tick_electoral [OF ok])
next
  case (CallStep m)
  with c raft_step_electoral [OF ok(1,2) _ ok(3), of m S] show ?thesis
    by (simp add: node_step_def lift_raft_def)
next
  case CallCampaign
  then show ?thesis by (simp add: node_campaign_def lift_raft_def campaign_electoral [OF ok])
qed (auto simp: node_propose_def node_propose_conf_change_def node_read_index_def node_transfer_leader_def
    node_report_snapshot_def lift_raft_def discard_def split: option.splits
    intro!: steady_electoral [OF _ ok(1)] steady_intros calm_steady [OF report_snapshot_calm])

lemma node_call_prev: "rn_prev_hard_state (node_call S n c) = rn_prev_hard_state n"
  by (cases c) (auto simp: node_tick_def node_step_def node_propose_def node_propose_conf_change_def
      node_read_index_def node_campaign_def node_transfer_leader_def node_report_snapshot_def lift_raft_def
      split: option.splits)

subsection \<open>Properties\<close>

text \<open>C14. A node never goes back. Whatever the driver calls and whatever message arrives, on any
  storage, the term and the commit index do not decrease, and a vote once cast in a term stands for
  the rest of that term (below the last representable term).\<close>

theorem node_never_goes_back:
  assumes "ballot_ok (rn_raft n)" "rf_term (rn_raft n) \<le> u64_max"
    and "conf_ok (ct_current (rf_conf (rn_raft n)))" "call_bounded c"
    and "rn_raft n = r" "rn_raft (node_call S n c) = r'"
  shows "rf_term r \<le> rf_term r' \<and> lg_committed (rf_log r) \<le> lg_committed (rf_log r')
    \<and> (rf_term r' = rf_term r \<longrightarrow> rf_term r < u64_max \<longrightarrow> rf_vote r \<noteq> None \<longrightarrow> rf_vote r' = rf_vote r)"
  using electoralD(2-4) [OF node_call_electoral [OF assms(1-4), of S]] assms(5,6) by auto


text \<open>A three-voter node over an empty in-memory log.\<close>

definition demo_raft :: "node_id \<Rightarrow> rterm \<Rightarrow> mem_storage raft" where
  "demo_raft n t =
     \<lparr>rf_id = n, rf_term = t, rf_vote = None, rf_role = Follower, rf_leader = None,
      rf_log = \<lparr>lg_store = mem_new, lg_unstable = [], lg_unstable_offset = 1, lg_unstable_snapshot = None,
        lg_committed = 0, lg_applied = 0\<rparr>,
      rf_progress = [], rf_conf = ct_new \<lparr>voters = [1, 2, 3], learners = []\<rparr> 0, rf_votes = [],
      rf_messages = [], rf_read_states = [], rf_read_only = ro_new, rf_election_elapsed = 0,
      rf_heartbeat_elapsed = 0, rf_randomized_election_timeout = 10, rf_counters = counters_default,
      rf_election_tick = (10, 20), rf_heartbeat_tick = 2, rf_max_inflight_msgs = 256,
      rf_max_size_per_msg = 1048576, rf_pre_vote = True, rf_check_quorum = True,
      rf_rng = pcg_new 7 (of_nat n), rf_lead_transferee = None, rf_own_term_index = 0\<rparr>"

definition demo_node :: "node_id \<Rightarrow> rterm \<Rightarrow> mem_storage raw_node" where
  "demo_node n t = \<lparr>rn_raft = demo_raft n t, rn_prev_hard_state = raft_hard_state (demo_raft n t)\<rparr>"

lemma demo_node_ok:
  "t \<le> u64_max \<Longrightarrow> ballot_ok (rn_raft (demo_node n t)) \<and> rf_term (rn_raft (demo_node n t)) \<le> u64_max
     \<and> conf_ok (ct_current (rf_conf (rn_raft (demo_node n t))))"
  by (simp add: demo_node_def demo_raft_def ballot_ok_def ct_new_def ct_current_def conf_ok_def)

lemma demo_vote:
  "rn_raft (node_call mem_log_storage (demo_node 1 1) (CallStep (RequestVote 2 1 2 0 0 False False))) =
     handle_vote_request mem_log_storage (become_follower (demo_raft 1 1) 2 None) 2 2 0 0 False"
  by (simp add: node_step_def lift_raft_def demo_node_def raft_step_def vetoed_by_leader_lease_def
      step_higher_term_def step_current_term_def demo_raft_def)

lemma demo_granted:
  "rf_messages (rn_raft (node_call mem_log_storage (demo_node 1 1) (CallStep (RequestVote 2 1 2 0 0 False False))))
     = [] @ [RequestVoteResponse 1 2 2 True False]"
proof -
  let ?r = "become_follower (demo_raft 1 1) 2 None"
  have f: "rf_vote ?r = None" "rf_leader ?r = None" "rf_messages ?r = []" "rf_id ?r = 1" "rf_term ?r = 2"
    by (simp_all add: demo_raft_def)
  have v: "raft_is_voter ?r 2"
    by (simp add: raft_is_voter_def demo_raft_def ct_new_def ct_current_def conf_is_voter_def)
  have u: "log_is_up_to_date mem_log_storage (rf_log ?r) 0 0"
    by (simp add: demo_raft_def log_is_up_to_date_def log_last_term_def log_eval Let_def)
  show ?thesis unfolding demo_vote
    using f v u by (simp add: handle_vote_request_def Let_def raft_send_def)
qed

theorem node_never_goes_back_witness:
  "rf_term (rn_raft (demo_node 1 1))
     \<le> rf_term (rn_raft (node_call mem_log_storage (demo_node 1 1) (CallStep (RequestVote 2 1 2 0 0 False False))))"
  using node_never_goes_back [of "demo_node 1 1" "CallStep (RequestVote 2 1 2 0 0 False False)", OF _ _ _ _ refl refl]
    demo_node_ok [of 1 1] by (simp add: u64_max_def)


text \<open>C25. A pre-vote costs nothing: stepping any pre-vote request, from any term, leaves the term, the
  vote, the role, the leader, the log, the membership, the peers' progress and the election timer
  exactly as they were.\<close>

theorem pre_vote_changes_nothing:
  "let r' = fst (raft_step S r (RequestVote src to t li lt True force)) in
   rf_term r' = rf_term r \<and> rf_vote r' = rf_vote r \<and> rf_role r' = rf_role r \<and> rf_leader r' = rf_leader r
   \<and> rf_log r' = rf_log r \<and> rf_conf r' = rf_conf r \<and> rf_progress r' = rf_progress r
   \<and> rf_votes r' = rf_votes r \<and> rf_election_elapsed r' = rf_election_elapsed r"
  by (simp add: raft_step_def step_higher_term_def step_lower_term_def step_current_term_def
      handle_vote_request_def raft_send_def Let_def)

text \<open>At the last representable term the next term saturates, so a candidate stays in its term and
  overwrites the vote it had given there.\<close>

theorem last_term_votes_again:
  "rf_term r = u64_max \<Longrightarrow> rf_vote r = Some other \<Longrightarrow> other \<noteq> rf_id r \<Longrightarrow>
   rf_term (become_candidate r) = rf_term r \<and> rf_vote (become_candidate r) = Some (rf_id r)"
  by (simp add: sat_add_def)

end
