(* ===== verification/RaftCluster.thy ===== *)
theory RaftCluster
  imports RaftElection
begin

text \<open>
  A group of nodes over a network that may delay, reorder, duplicate and drop messages, with
  crashes. Each node is driven by the calls of \<^verbatim>\<open>RawNode\<close>; a discharge is what the driver
  contract on \<^verbatim>\<open>Ready\<close> asks for (persist the durable state, then send, then advance); a restart
  opens the node again from the durable state on its disk and loses everything else. The result is
  Election Safety for runs in which the membership stays the same.
\<close>

subsection \<open>The system\<close>

record 's cluster =
  cl_nodes :: "node_id \<Rightarrow> 's raw_node option"
  cl_disk :: "node_id \<Rightarrow> hard_state"
  cl_net :: "message set"

definition cluster_init :: "'s cluster" where
  "cluster_init = \<lparr>cl_nodes = (\<lambda>_. None), cl_disk = (\<lambda>_. \<lparr>hs_term = 0, hs_voted_for = None, hs_commit = 0\<rparr>),
     cl_net = {}\<rparr>"

text \<open>A message can be handed to a node only if it was sent to it.\<close>

fun deliverable :: "message set \<Rightarrow> node_id \<Rightarrow> driver_call \<Rightarrow> bool" where
  "deliverable net n (CallStep m) = (m \<in> net \<and> msg_recipient m = n)"
| "deliverable net n _ = True"

text \<open>The driver writes the entries and the snapshot of a \<^verbatim>\<open>Ready\<close> to the storage; \<open>st\<close> is the
  storage afterwards.\<close>

definition with_storage :: "'s raw_node \<Rightarrow> 's \<Rightarrow> 's raw_node" where
  "with_storage n st = n\<lparr>rn_raft := (rn_raft n)\<lparr>rf_log := (rf_log (rn_raft n))\<lparr>lg_store := st\<rparr>\<rparr>\<rparr>"

inductive cluster_step :: "'s log_storage \<Rightarrow> 's cluster \<Rightarrow> 's cluster \<Rightarrow> bool" for S where
  call: "cl_nodes s n = Some nd \<Longrightarrow> deliverable (cl_net s) n c \<Longrightarrow> call_bounded c \<Longrightarrow>
    cluster_step S s (s\<lparr>cl_nodes := (cl_nodes s)(n := Some (node_call S nd c))\<rparr>)"
| discharge: "cl_nodes s n = Some nd \<Longrightarrow> node_ready S nd = (nd1, d) \<Longrightarrow>
    cluster_step S s
      \<lparr>cl_nodes = (cl_nodes s)(n := Some (node_advance S (with_storage nd1 st) d)),
       cl_disk = (case rd_hard_state d of None \<Rightarrow> cl_disk s | Some h \<Rightarrow> (cl_disk s)(n := h)),
       cl_net = cl_net s \<union> set (rd_messages d)\<rparr>"
| restart: "node_new S c st = Ok nd \<Longrightarrow> cfg_id c = n \<Longrightarrow> st_initial_state S st = Ok ini \<Longrightarrow>
    is_hard_state ini = cl_disk s n \<Longrightarrow>
    cluster_step S s (s\<lparr>cl_nodes := (cl_nodes s)(n := Some nd)\<rparr>)"

inductive_cases cluster_stepE: "cluster_step S s s'"

definition membership_is :: "conf_state \<Rightarrow> 's cluster \<Rightarrow> bool" where
  "membership_is C s \<longleftrightarrow> (\<forall>n nd. cl_nodes s n = Some nd \<longrightarrow> ct_current (rf_conf (rn_raft nd)) = C)"

text \<open>The states reached by runs in which every node has the configuration \<open>C\<close> in force throughout.\<close>

inductive reachable :: "'s log_storage \<Rightarrow> conf_state \<Rightarrow> 's cluster \<Rightarrow> bool" for S C where
  init: "reachable S C cluster_init"
| step: "reachable S C s \<Longrightarrow> cluster_step S s s' \<Longrightarrow> membership_is C s' \<Longrightarrow> reachable S C s'"

subsection \<open>The invariant\<close>

text \<open>Node \<open>f\<close> has answered, on the network or in an outbox, that it votes for
  \<open>to\<close> in term \<open>t\<close>.\<close>

definition on_net :: "'s cluster \<Rightarrow> node_id \<Rightarrow> node_id \<Rightarrow> rterm \<Rightarrow> bool" where
  "on_net s f to t \<longleftrightarrow> RequestVoteResponse f to t True False \<in> cl_net s"

definition in_outbox :: "'s raft \<Rightarrow> node_id \<Rightarrow> node_id \<Rightarrow> rterm \<Rightarrow> bool" where
  "in_outbox r f to t \<longleftrightarrow> RequestVoteResponse f to t True False \<in> set (rf_messages r)"

definition same_ballot :: "hard_state \<Rightarrow> hard_state \<Rightarrow> bool" where
  "same_ballot h h' \<longleftrightarrow> hs_term h = hs_term h' \<and> hs_voted_for h = hs_voted_for h'"

text \<open>A ballot holds a vote given earlier in a term below the last one.\<close>

definition holds_vote :: "rterm \<Rightarrow> node_id option \<Rightarrow> node_id \<Rightarrow> rterm \<Rightarrow> bool" where
  "holds_vote now v to t \<longleftrightarrow> t \<le> now \<and> (t = now \<longrightarrow> v = Some to)"

definition node_inv :: "conf_state \<Rightarrow> 's cluster \<Rightarrow> node_id \<Rightarrow> 's raw_node \<Rightarrow> bool" where
  "node_inv C s n nd \<longleftrightarrow> (let r = rn_raft nd; h = cl_disk s n in
     rf_id r = n \<and> ballot_ok r \<and> rf_term r \<le> u64_max
     \<and> same_ballot (rn_prev_hard_state nd) h
     \<and> hs_term h \<le> rf_term r
     \<and> (hs_term h = rf_term r \<longrightarrow> rf_term r < u64_max \<longrightarrow> hs_voted_for h = None \<or> rf_vote r = hs_voted_for h)
     \<and> (\<forall>f to t. in_outbox r f to t \<longrightarrow> t < u64_max \<longrightarrow> f = n \<and> holds_vote (rf_term r) (rf_vote r) to t)
     \<and> (\<forall>a b t. in_outbox r n a t \<longrightarrow> in_outbox r n b t \<or> on_net s n b t \<longrightarrow> t < u64_max \<longrightarrow> a = b)
     \<and> (rf_role r = Candidate \<longrightarrow> (\<forall>m. (m, True) \<in> set (rf_votes r) \<longrightarrow> m = n \<or> on_net s m n (rf_term r)))
     \<and> (rf_role r = Leader \<longrightarrow>
          (\<exists>Q. conf_is_quorum C Q \<and> (\<forall>m \<in> Q. m = n \<or> on_net s m n (rf_term r)))))"

definition cluster_inv :: "conf_state \<Rightarrow> 's cluster \<Rightarrow> bool" where
  "cluster_inv C s \<longleftrightarrow>
     (\<forall>n nd. cl_nodes s n = Some nd \<longrightarrow> node_inv C s n nd)
     \<and> (\<forall>n. hs_term (cl_disk s n) \<le> u64_max)
     \<and> (\<forall>f to t. on_net s f to t \<longrightarrow> t < u64_max \<longrightarrow>
          holds_vote (hs_term (cl_disk s f)) (hs_voted_for (cl_disk s f)) to t)
     \<and> (\<forall>f a b t. on_net s f a t \<longrightarrow> on_net s f b t \<longrightarrow> t < u64_max \<longrightarrow> a = b)"

lemma on_net_nodes [simp]: "on_net (s\<lparr>cl_nodes := ns\<rparr>) f to t = on_net s f to t"
  by (simp add: on_net_def)

lemma holds_vote_later:
  assumes "holds_vote t0 v to t" "t < u64_max" "t0 \<le> t1" "t1 = t0 \<longrightarrow> t0 < u64_max \<longrightarrow> v = None \<or> v' = v"
  shows "holds_vote t1 v' to t"
  using assms by (auto simp: holds_vote_def)

lemma holds_vote_same: "holds_vote t v a t \<Longrightarrow> holds_vote t v b t \<Longrightarrow> a = b"
  by (simp add: holds_vote_def)

text \<open>An invariant node on an invariant cluster: the facts the cases use.\<close>

lemma node_invD:
  assumes "node_inv C s n nd"
  shows "rf_id (rn_raft nd) = n" "ballot_ok (rn_raft nd)" "rf_term (rn_raft nd) \<le> u64_max"
    "same_ballot (rn_prev_hard_state nd) (cl_disk s n)" "hs_term (cl_disk s n) \<le> rf_term (rn_raft nd)"
    "hs_term (cl_disk s n) = rf_term (rn_raft nd) \<Longrightarrow> rf_term (rn_raft nd) < u64_max \<Longrightarrow>
       hs_voted_for (cl_disk s n) = None \<or> rf_vote (rn_raft nd) = hs_voted_for (cl_disk s n)"
    "in_outbox (rn_raft nd) f to t \<Longrightarrow> t < u64_max \<Longrightarrow> f = n \<and> holds_vote (rf_term (rn_raft nd)) (rf_vote (rn_raft nd)) to t"
    "in_outbox (rn_raft nd) n a t \<Longrightarrow> in_outbox (rn_raft nd) n b t \<or> on_net s n b t \<Longrightarrow> t < u64_max \<Longrightarrow> a = b"
    "rf_role (rn_raft nd) = Candidate \<Longrightarrow> (m, True) \<in> set (rf_votes (rn_raft nd)) \<Longrightarrow>
       m = n \<or> on_net s m n (rf_term (rn_raft nd))"
    "rf_role (rn_raft nd) = Leader \<Longrightarrow>
       \<exists>Q. conf_is_quorum C Q \<and> (\<forall>m \<in> Q. m = n \<or> on_net s m n (rf_term (rn_raft nd)))"
  using assms unfolding node_inv_def Let_def by blast+

text \<open>What is on the network from a running node, it still holds.\<close>

lemma net_vote_held:
  assumes "cluster_inv C s" "node_inv C s n nd" "on_net s n to t" "t < u64_max"
  shows "holds_vote (rf_term (rn_raft nd)) (rf_vote (rn_raft nd)) to t"
proof (rule holds_vote_later)
  show "holds_vote (hs_term (cl_disk s n)) (hs_voted_for (cl_disk s n)) to t"
    using assms by (auto simp: cluster_inv_def)
  show "hs_term (cl_disk s n) \<le> rf_term (rn_raft nd)" by (rule node_invD(5) [OF assms(2)])
  show "rf_term (rn_raft nd) = hs_term (cl_disk s n) \<longrightarrow> hs_term (cl_disk s n) < u64_max \<longrightarrow>
      hs_voted_for (cl_disk s n) = None \<or> rf_vote (rn_raft nd) = hs_voted_for (cl_disk s n)"
    using node_invD(6) [OF assms(2)] by auto
qed (rule assms(4))

lemma call_keeps_node:
  assumes inv: "cluster_inv C s" and nd: "cl_nodes s n = Some nd" and C: "conf_ok C" "membership_is C s"
    and c: "deliverable (cl_net s) n c" "call_bounded c"
  shows "node_inv C (s\<lparr>cl_nodes := (cl_nodes s)(n := Some (node_call S nd c))\<rparr>) n (node_call S nd c)"
proof -
  let ?r = "rn_raft nd" and ?r' = "rn_raft (node_call S nd c)"
  have ni: "node_inv C s n nd" using inv nd by (simp add: cluster_inv_def)
  note d = node_invD [OF ni]
  have conf: "ct_current (rf_conf ?r) = C" using C(2) nd by (simp add: membership_is_def)
  have el: "electoral (call_votes c) ?r ?r'"
    using node_call_electoral [OF d(2,3) _ c(2)] conf C(1) by simp
  note e = electoralD [OF el]
  have votes: "on_net s m n t" if "(m, t) \<in> call_votes c" for m t
    using that c(1) by (cases c) (auto simp: granted_by_def on_net_def split: message.splits if_splits)
  have bk: "m = n \<or> on_net s m n (rf_term ?r')" if "backed (call_votes c) ?r ?r' m" for m
  proof -
    from that consider "m = rf_id ?r" | "(m, rf_term ?r') \<in> call_votes c"
      | "rf_role ?r = Candidate" "rf_term ?r = rf_term ?r'" "(m, True) \<in> set (rf_votes ?r)"
      unfolding backed_def by blast
    then show ?thesis
    proof cases
      case 3
      with d(9) [of m] show ?thesis by simp
    qed (use d(1) votes in auto)
  qed
  obtain ms where ms: "rf_messages ?r' = rf_messages ?r @ ms" "\<forall>m \<in> set ms. vote_msg_ok ?r' m"
    using e(5) by (auto simp: sent_since_def)
  have old: "holds_vote (rf_term ?r') (rf_vote ?r') to t"
    if "t < u64_max" "in_outbox ?r n to t \<or> on_net s n to t" for to t
  proof (rule holds_vote_later [OF _ that(1) e(2)])
    show "holds_vote (rf_term ?r) (rf_vote ?r) to t"
      using that d(7) net_vote_held [OF inv ni] by blast
    show "rf_term ?r' = rf_term ?r \<longrightarrow> rf_term ?r < u64_max \<longrightarrow> rf_vote ?r = None \<or> rf_vote ?r' = rf_vote ?r"
      using e(3) by blast
  qed
  have new: "f = n \<and> t = rf_term ?r' \<and> rf_vote ?r' = Some to"
    if "in_outbox ?r' f to t" "\<not> in_outbox ?r f to t" for f to t
    using that ms e(1) d(1) by (force simp: in_outbox_def vote_msg_ok_def)
  have out: "f = n \<and> holds_vote (rf_term ?r') (rf_vote ?r') to t" if "in_outbox ?r' f to t" "t < u64_max" for f to t
  proof (cases "in_outbox ?r f to t")
    case True
    with d(7) [OF True that(2)] old that(2) show ?thesis by blast
  next
    case False
    with new [OF that(1)] show ?thesis by (simp add: holds_vote_def)
  qed
  have uniq: "a = b" if ab: "in_outbox ?r' n a t" "in_outbox ?r' n b t \<or> on_net s n b t" "t < u64_max" for a b t
  proof (cases "t = rf_term ?r'")
    case True
    have "holds_vote (rf_term ?r') (rf_vote ?r') a t" "holds_vote (rf_term ?r') (rf_vote ?r') b t"
      using out [OF ab(1,3)] out [of n b t] old [of t b] ab by auto
    with True show ?thesis using holds_vote_same by auto
  next
    case False
    then have "in_outbox ?r n a t" "in_outbox ?r n b t \<or> on_net s n b t"
      using new [of n a t] new [of n b t] ab by auto
    with d(8) ab(3) show ?thesis by blast
  qed
  show ?thesis
    unfolding node_inv_def Let_def
  proof (intro conjI allI impI)
    show "rf_id ?r' = n" "ballot_ok ?r'" "rf_term ?r' \<le> u64_max"
      using e(1) d(1) electoral_ballot [OF el] e(10) d(3) by simp_all
    show "same_ballot (rn_prev_hard_state (node_call S nd c))
        (cl_disk (s\<lparr>cl_nodes := (cl_nodes s)(n := Some (node_call S nd c))\<rparr>) n)"
      using d(4) by (simp add: node_call_prev)
    show "hs_term (cl_disk (s\<lparr>cl_nodes := (cl_nodes s)(n := Some (node_call S nd c))\<rparr>) n) \<le> rf_term ?r'"
      using d(5) e(2) by simp
  next
    assume a: "hs_term (cl_disk (s\<lparr>cl_nodes := (cl_nodes s)(n := Some (node_call S nd c))\<rparr>) n) = rf_term ?r'"
      "rf_term ?r' < u64_max"
    then have "rf_term ?r' = rf_term ?r" "hs_term (cl_disk s n) = rf_term ?r" using d(5) e(2) by simp_all
    with a d(6) e(3) show "hs_voted_for (cl_disk (s\<lparr>cl_nodes := (cl_nodes s)(n := Some (node_call S nd c))\<rparr>) n) = None
        \<or> rf_vote ?r' = hs_voted_for (cl_disk (s\<lparr>cl_nodes := (cl_nodes s)(n := Some (node_call S nd c))\<rparr>) n)"
      by (cases "rf_vote ?r") auto
  next
    assume ld: "rf_role ?r' = Leader"
    show "\<exists>Q. conf_is_quorum C Q \<and>
        (\<forall>m \<in> Q. m = n \<or> on_net (s\<lparr>cl_nodes := (cl_nodes s)(n := Some (node_call S nd c))\<rparr>) m n (rf_term ?r'))"
      using e(9) [OF ld]
    proof
      assume "rf_role ?r = Leader \<and> rf_term ?r' = rf_term ?r"
      with d(10) show ?thesis by simp
    next
      assume "\<exists>Q. conf_is_quorum (ct_current (rf_conf ?r)) Q \<and> (\<forall>n \<in> Q. backed (call_votes c) ?r ?r' n)"
      with bk show ?thesis unfolding conf on_net_nodes by blast
    qed
  next
    fix m assume "rf_role ?r' = Candidate" "(m, True) \<in> set (rf_votes ?r')"
    then show "m = n \<or> on_net (s\<lparr>cl_nodes := (cl_nodes s)(n := Some (node_call S nd c))\<rparr>) m n (rf_term ?r')"
      using bk [OF e(8)] by simp
  next
    fix f to t assume "in_outbox ?r' f to t" "t < u64_max"
    then show "f = n" "holds_vote (rf_term ?r') (rf_vote ?r') to t" using out by blast+
  next
    fix a b t assume "in_outbox ?r' n a t" "in_outbox ?r' n b t
        \<or> on_net (s\<lparr>cl_nodes := (cl_nodes s)(n := Some (node_call S nd c))\<rparr>) n b t" "t < u64_max"
    then show "a = b" using uniq by simp
  qed
qed

text \<open>A node that did not move keeps its part as long as its disk is the same and the network only
  grew, by nothing it said itself.\<close>

lemma node_inv_frame:
  assumes "node_inv C s m nd" "cl_disk s' m = cl_disk s m" "\<And>f to t. on_net s f to t \<Longrightarrow> on_net s' f to t"
    "\<And>b t. on_net s' m b t \<Longrightarrow> t < u64_max \<Longrightarrow> on_net s m b t"
  shows "node_inv C s' m nd"
proof -
  note d = node_invD [OF assms(1)]
  show ?thesis unfolding node_inv_def Let_def assms(2)
  proof (intro conjI allI impI)
    show "rf_id (rn_raft nd) = m" "ballot_ok (rn_raft nd)" "rf_term (rn_raft nd) \<le> u64_max"
      "same_ballot (rn_prev_hard_state nd) (cl_disk s m)" "hs_term (cl_disk s m) \<le> rf_term (rn_raft nd)"
      by (fact d)+
    show "hs_voted_for (cl_disk s m) = None \<or> rf_vote (rn_raft nd) = hs_voted_for (cl_disk s m)"
      if "hs_term (cl_disk s m) = rf_term (rn_raft nd)" "rf_term (rn_raft nd) < u64_max"
      by (rule d(6) [OF that])
    show "a = b" if "in_outbox (rn_raft nd) m a t" "in_outbox (rn_raft nd) m b t \<or> on_net s' m b t" "t < u64_max" for a b t
      using d(8) [OF that(1) _ that(3), of b] assms(4) [OF _ that(3), of b] that(2) by blast
    show "k = m \<or> on_net s' k m (rf_term (rn_raft nd))"
      if "rf_role (rn_raft nd) = Candidate" "(k, True) \<in> set (rf_votes (rn_raft nd))" for k
      using d(9) [OF that] assms(3) by blast
    show "\<exists>Q. conf_is_quorum C Q \<and> (\<forall>k \<in> Q. k = m \<or> on_net s' k m (rf_term (rn_raft nd)))"
      if "rf_role (rn_raft nd) = Leader"
      using d(10) [OF that] assms(3) by blast
  qed (use d(7) in auto)
qed

lemma ct_commit_loop_current:
  "ct_current (ct_commit_loop base bi h i) = ct_current \<lparr>ct_base = base, ct_base_index = bi, ct_appended = h\<rparr>"
  by (induction base bi h i rule: ct_commit_loop.induct) (auto simp: ct_current_def)

lemma ct_commit_to_current [simp]: "ct_current (ct_commit_to t i) = ct_current t"
  by (cases t) (simp add: ct_commit_to_def ct_commit_loop_current)

text \<open>A discharge empties the outbox and touches nothing else of the election.\<close>

lemma node_advance_fields:
  "rf_id (rn_raft (node_advance S n d)) = rf_id (rn_raft n)"
  "rf_term (rn_raft (node_advance S n d)) = rf_term (rn_raft n)"
  "rf_vote (rn_raft (node_advance S n d)) = rf_vote (rn_raft n)"
  "rf_role (rn_raft (node_advance S n d)) = rf_role (rn_raft n)"
  "rf_votes (rn_raft (node_advance S n d)) = rf_votes (rn_raft n)"
  "rf_messages (rn_raft (node_advance S n d)) = rf_messages (rn_raft n)"
  "rn_prev_hard_state (node_advance S n d) =
     (case rd_hard_state d of Some h \<Rightarrow> h | None \<Rightarrow> rn_prev_hard_state n)"
  by (simp_all add: node_advance_def Let_def split: option.split)

lemma discharge_fields:
  assumes "node_ready S nd = (nd1, d)" and nd': "nd' = node_advance S (with_storage nd1 st) d"
  shows "rf_id (rn_raft nd') = rf_id (rn_raft nd)" "rf_term (rn_raft nd') = rf_term (rn_raft nd)"
    "rf_vote (rn_raft nd') = rf_vote (rn_raft nd)" "rf_role (rn_raft nd') = rf_role (rn_raft nd)"
    "rf_votes (rn_raft nd') = rf_votes (rn_raft nd)" "rf_messages (rn_raft nd') = []"
    "rd_messages d = rf_messages (rn_raft nd)"
    "rd_hard_state d = (if hs_differs_from (raft_hard_state (rn_raft nd)) (rn_prev_hard_state nd)
       then Some (raft_hard_state (rn_raft nd)) else None)"
    "rn_prev_hard_state nd' = (case rd_hard_state d of Some h \<Rightarrow> h | None \<Rightarrow> rn_prev_hard_state nd)"
proof -
  have nd1: "nd1 = nd\<lparr>rn_raft := (rn_raft nd)\<lparr>rf_messages := [], rf_read_states := []\<rparr>\<rparr>"
    and d: "rd_messages d = rf_messages (rn_raft nd)"
      "rd_hard_state d = (if hs_differs_from (raft_hard_state (rn_raft nd)) (rn_prev_hard_state nd)
         then Some (raft_hard_state (rn_raft nd)) else None)"
    using assms(1) by (auto simp: node_ready_def Let_def)
  show "rf_id (rn_raft nd') = rf_id (rn_raft nd)" "rf_term (rn_raft nd') = rf_term (rn_raft nd)"
    "rf_vote (rn_raft nd') = rf_vote (rn_raft nd)" "rf_role (rn_raft nd') = rf_role (rn_raft nd)"
    "rf_votes (rn_raft nd') = rf_votes (rn_raft nd)" "rf_messages (rn_raft nd') = []"
    "rd_messages d = rf_messages (rn_raft nd)"
    "rd_hard_state d = (if hs_differs_from (raft_hard_state (rn_raft nd)) (rn_prev_hard_state nd)
       then Some (raft_hard_state (rn_raft nd)) else None)"
    by (simp_all add: nd' nd1 node_advance_fields with_storage_def d)
  show "rn_prev_hard_state nd' = (case rd_hard_state d of Some h \<Rightarrow> h | None \<Rightarrow> rn_prev_hard_state nd)"
    by (cases "rd_hard_state d") (simp_all add: nd' nd1 node_advance_fields with_storage_def)
qed

lemma replay_conf_changes_steady [steady_intros]:
  "steady r s \<Longrightarrow> steady r (fst (replay_conf_changes S s))"
  by (auto simp: replay_conf_changes_def intro!: steady_intros)

lemma reset_election_timeout_steady: "steady r s \<Longrightarrow> steady r (reset_election_timeout s)"
  by (simp add: steady_def sent_since_def)

lemma opened_ballot:
  assumes "and_then (replay_conf_changes S r0) (\<lambda>r _. rebuild_progress S r) = (r1, y)"
    "reset_election_timeout r1 = r" "rf_role r0 = Follower" "rf_votes r0 = []" "rf_messages r0 = []"
  shows "rf_id r = rf_id r0 \<and> rf_term r = rf_term r0 \<and> rf_vote r = rf_vote r0 \<and> rf_role r = Follower \<and> rf_votes r = []
    \<and> \<not> in_outbox r f to t"
proof -
  have "steady r0 (fst (and_then (replay_conf_changes S r0) (\<lambda>r _. rebuild_progress S r)))"
    by (intro steady_intros) simp
  then have "steady r0 r" using assms(1,2) by (auto simp: reset_election_timeout_steady)
  from steadyD [OF this] assms(3-) show ?thesis
    by (auto simp: in_outbox_def sent_since_def)
qed

lemma raft_new_ballot:
  assumes "raft_new S c st = Ok r" "st_initial_state S st = Ok ini"
  shows "rf_id r = cfg_id c \<and> rf_term r = hs_term (is_hard_state ini) \<and> rf_vote r = hs_voted_for (is_hard_state ini)
    \<and> rf_role r = Follower \<and> rf_votes r = [] \<and> \<not> in_outbox r f to t"
  using assms
  apply (simp add: raft_new_def Let_def split: result.split_asm prod.split_asm)
   apply (drule (1) opened_ballot; simp)+
  done

lemma restart_keeps_node:
  assumes inv: "cluster_inv C s" and new: "node_new S c st = Ok nd" "st_initial_state S st = Ok ini"
    "is_hard_state ini = cl_disk s (cfg_id c)"
  shows "node_inv C s (cfg_id c) nd"
proof -
  obtain r where r: "raft_new S c st = Ok r" and nd: "nd = \<lparr>rn_raft = r, rn_prev_hard_state = raft_hard_state r\<rparr>"
    using new(1) by (auto simp: node_new_def split: result.split_asm)
  note b = raft_new_ballot [OF r new(2), unfolded new(3)]
  have "hs_term (cl_disk s (cfg_id c)) \<le> u64_max" using inv by (simp add: cluster_inv_def)
  with b show ?thesis
    by (auto simp: node_inv_def nd ballot_ok_def same_ballot_def raft_hard_state_def)
qed

lemma discharge_keeps:
  assumes inv: "cluster_inv C s" and nd: "cl_nodes s n = Some nd" "node_ready S nd = (nd1, d)"
    and s': "s' = \<lparr>cl_nodes = (cl_nodes s)(n := Some (node_advance S (with_storage nd1 st) d)),
       cl_disk = (case rd_hard_state d of None \<Rightarrow> cl_disk s | Some h \<Rightarrow> (cl_disk s)(n := h)),
       cl_net = cl_net s \<union> set (rd_messages d)\<rparr>"
  shows "cluster_inv C s'"
proof -
  let ?r = "rn_raft nd" and ?nd' = "node_advance S (with_storage nd1 st) d"
  have ni: "node_inv C s n nd" using inv nd(1) by (simp add: cluster_inv_def)
  note dn = node_invD [OF ni]
  note f = discharge_fields [where st = st and nd' = "node_advance S (with_storage nd1 st) d", OF nd(2) refl]
  have net: "on_net s' g to t \<longleftrightarrow> on_net s g to t \<or> in_outbox ?r g to t" for g to t
    by (auto simp: s' on_net_def in_outbox_def f)
  have disk: "hs_term (cl_disk s' n) = rf_term ?r" "hs_voted_for (cl_disk s' n) = rf_vote ?r"
      "same_ballot (rn_prev_hard_state ?nd') (cl_disk s' n)"
    using dn(4) by (cases "rn_prev_hard_state nd"; force simp: s' f hs_differs_from_def same_ballot_def raft_hard_state_def)+
  have other: "cl_disk s' m = cl_disk s m" if "m \<noteq> n" for m
    using that by (simp add: s' split: option.split)
  have own: "g = n" if "in_outbox ?r g to t" "t < u64_max" for g to t using dn(7) [OF that] by simp
  have moved: "node_inv C s' n ?nd'"
    unfolding node_inv_def Let_def f disk
  proof (intro conjI allI impI)
    show "ballot_ok (rn_raft ?nd')" using dn(2) by (simp add: ballot_ok_def f)
    show "\<exists>Q. conf_is_quorum C Q \<and> (\<forall>m\<in>Q. m = n \<or> on_net s' m n (rf_term ?r))" if "rf_role ?r = Leader"
      using dn(10) [OF that] net by blast
    show "m = n \<or> on_net s' m n (rf_term ?r)" if "rf_role ?r = Candidate" "(m, True) \<in> set (rf_votes ?r)" for m
      using dn(9) [OF that] net by blast
  qed (use dn(1,3) disk(3) in \<open>simp_all add: in_outbox_def f\<close>)
  have kept: "node_inv C s' m nd2" if "m \<noteq> n" "cl_nodes s m = Some nd2" for m nd2
  proof (rule node_inv_frame)
    show "node_inv C s m nd2" using inv that(2) by (simp add: cluster_inv_def)
  qed (use that(1) other net own in auto)
  have held: "holds_vote (hs_term (cl_disk s' g)) (hs_voted_for (cl_disk s' g)) to t"
    if "on_net s' g to t" "t < u64_max" for g to t
  proof (cases "g = n")
    case True
    then show ?thesis using that dn(7) net_vote_held [OF inv ni] by (auto simp: net disk)
  next
    case False
    then show ?thesis using that own inv by (auto simp: net other cluster_inv_def)
  qed
  have uniq: "a = b" if ab: "on_net s' g a t" "on_net s' g b t" "t < u64_max" for g a b t
  proof -
    consider "on_net s g a t" "on_net s g b t" | "g = n" "in_outbox ?r n a t" | "g = n" "in_outbox ?r n b t"
      using ab(1,2) own [OF _ ab(3), of g] unfolding net by blast
    then show ?thesis
    proof cases
      case 1
      with inv ab(3) show ?thesis unfolding cluster_inv_def by blast
    next
      case 2
      with dn(8) [of a t b] ab(2,3) show ?thesis unfolding net by blast
    next
      case 3
      with dn(8) [of b t a] ab(1,3) show ?thesis unfolding net by blast
    qed
  qed
  show ?thesis
    unfolding cluster_inv_def
  proof (intro conjI allI impI)
    show "node_inv C s' m nd2" if "cl_nodes s' m = Some nd2" for m nd2
      using that moved kept by (auto simp: s' split: if_splits)
    show "hs_term (cl_disk s' m) \<le> u64_max" for m
      using inv other [of m] disk(1) dn(3) by (cases "m = n") (simp_all add: cluster_inv_def)
  qed (use held uniq in blast)+
qed

lemma cluster_inv_nodes:
  assumes "cluster_inv C s" "node_inv C s n nd"
  shows "cluster_inv C (s\<lparr>cl_nodes := (cl_nodes s)(n := Some nd)\<rparr>)"
proof -
  have "node_inv C (s\<lparr>cl_nodes := (cl_nodes s)(n := Some nd)\<rparr>) m nd2 = node_inv C s m nd2" for m nd2
    by (simp add: node_inv_def)
  then show ?thesis using assms unfolding cluster_inv_def by auto
qed

lemma cluster_step_inv:
  assumes "cluster_step S s s'" "cluster_inv C s" "conf_ok C" "membership_is C s"
  shows "cluster_inv C s'"
  using assms(1)
proof cases
  case (call n nd c)
  have "node_inv C s n (node_call S nd c)"
    by (rule node_inv_frame [OF call_keeps_node [OF assms(2) call(2) assms(3,4) call(3,4)]]) simp_all
  then show ?thesis unfolding call(1) by (rule cluster_inv_nodes [OF assms(2)])
next
  case (discharge n nd nd1 d st)
  then show ?thesis using discharge_keeps [OF assms(2)] by blast
next
  case (restart c st nd n ini)
  then show ?thesis using restart_keeps_node [OF assms(2)] cluster_inv_nodes [OF assms(2)] by auto
qed

lemma reachable_membership: "reachable S C s \<Longrightarrow> membership_is C s"
  by (induction rule: reachable.induct) (simp_all add: membership_is_def cluster_init_def)

lemma reachable_inv: "reachable S C s \<Longrightarrow> conf_ok C \<Longrightarrow> cluster_inv C s"
proof (induction rule: reachable.induct)
  case init
  show ?case by (simp add: cluster_inv_def cluster_init_def on_net_def)
next
  case (step s s')
  then show ?case using cluster_step_inv reachable_membership by blast
qed

text \<open>The vote of a member of a leader's quorum went to that leader.\<close>

lemma leader_backer:
  assumes inv: "cluster_inv C s" and nd: "cl_nodes s a = Some nd" "rf_role (rn_raft nd) = Leader"
    "rf_term (rn_raft nd) < u64_max"
  shows "\<exists>Q. conf_is_quorum C Q \<and> (\<forall>m \<in> Q. m = a \<or> on_net s m a (rf_term (rn_raft nd)))
    \<and> (\<forall>b. on_net s a b (rf_term (rn_raft nd)) \<longrightarrow> b = a)"
proof -
  have ni: "node_inv C s a nd" using inv nd(1) by (simp add: cluster_inv_def)
  note d = node_invD [OF ni]
  have "rf_vote (rn_raft nd) = Some a" using d(1,2) nd(2) by (simp add: ballot_ok_def)
  then have "b = a" if "on_net s a b (rf_term (rn_raft nd))" for b
    using net_vote_held [OF inv ni that nd(3)] by (simp add: holds_vote_def)
  with d(10) [OF nd(2)] show ?thesis by blast
qed

text \<open>C1. Election Safety. In every run of the group (any interleaving of ticks, deliveries, proposals,
  crashes and restarts, with messages lost, reordered and duplicated) whose membership does not
  change, two nodes that lead in the same term, below the last representable one, are the same node.\<close>

theorem election_safety:
  assumes "reachable S C s" "conf_ok C"
    and "cl_nodes s a = Some x" "rf_role (rn_raft x) = Leader"
    and "cl_nodes s b = Some y" "rf_role (rn_raft y) = Leader"
    and "rf_term (rn_raft x) = rf_term (rn_raft y)" "rf_term (rn_raft x) < u64_max"
  shows "a = b"
proof -
  have inv: "cluster_inv C s" by (rule reachable_inv [OF assms(1,2)])
  obtain P where P: "conf_is_quorum C P" "\<And>m. m \<in> P \<Longrightarrow> m = a \<or> on_net s m a (rf_term (rn_raft x))"
      "\<And>c. on_net s a c (rf_term (rn_raft x)) \<Longrightarrow> c = a"
    using leader_backer [OF inv assms(3,4,8)] by blast
  obtain Q where Q: "conf_is_quorum C Q" "\<And>m. m \<in> Q \<Longrightarrow> m = b \<or> on_net s m b (rf_term (rn_raft x))"
      "\<And>c. on_net s b c (rf_term (rn_raft x)) \<Longrightarrow> c = b"
    using leader_backer [OF inv assms(5,6)] assms(7,8) by auto
  obtain m where m: "m \<in> P" "m \<in> Q"
    using same_conf.quorums_meet [OF P(1) Q(1)] by blast
  have "on_net s m a t \<Longrightarrow> on_net s m b t \<Longrightarrow> t < u64_max \<Longrightarrow> a = b" for t
    using inv unfolding cluster_inv_def by blast
  with P(2,3) Q(2,3) m assms(8) show ?thesis by blast
qed

subsection \<open>A group that elects\<close>

definition solo_config :: config where
  "solo_config = (config_new 1 [1] 7)\<lparr>cfg_pre_vote := False\<rparr>"

lemma reset_timeout_params [simp]:
  "rf_pre_vote (reset_election_timeout r) = rf_pre_vote r"
  "rf_max_size_per_msg (reset_election_timeout r) = rf_max_size_per_msg r"
  by (simp_all add: reset_election_timeout_def split: prod.splits)

lemmas solo_eval = log_eval log_first_index_def log_new_def mem_first_index_def mem_initial_state_def mem_snapshot_def
  log_append_def log_slice_def sat_add_def

lemma solo_conf: "ct_current (ct_new c 0) = c"
  by (simp add: ct_current_def ct_new_def)

lemma solo_members: "conf_members \<lparr>voters = [Suc 0], learners = []\<rparr> = [Suc 0]"
  by (simp add: conf_members_def)

definition solo_log :: "mem_storage raft_log" where
  "solo_log = \<lparr>lg_store = mem_new, lg_unstable = [], lg_unstable_offset = 1, lg_unstable_snapshot = None,
        lg_committed = 0, lg_applied = 0\<rparr>"

definition solo_progress :: progress_map where
  "solo_progress = [(1, (progress_new 1 256 False)\<lparr>pr_recent_active := True\<rparr>)]"

lemma solo_peer: "rebuild_peer \<lparr>voters = [Suc 0], learners = []\<rparr> (Suc 0) 256 [] (Suc 0) = solo_progress"
  by (simp add: rebuild_peer_def pm_get_def pm_index_of_def pm_insert_def conf_is_learner_def insert_at_def solo_progress_def)

lemma solo_ids: "pm_ids solo_progress = [1]"
  by (simp add: pm_ids_def solo_progress_def)

lemma solo_contains: "conf_contains \<lparr>voters = [Suc 0], learners = []\<rparr> (Suc 0)"
  by (simp add: conf_contains_def conf_is_voter_def)

lemma solo_opens:
  "\<exists>nd. node_new mem_log_storage solo_config mem_new = Ok nd
     \<and> rf_id (rn_raft nd) = 1 \<and> rf_term (rn_raft nd) = 0 \<and> rf_role (rn_raft nd) = Follower
     \<and> rf_conf (rn_raft nd) = ct_new \<lparr>voters = [1], learners = []\<rparr> 0 \<and> \<not> rf_pre_vote (rn_raft nd) \<and> rf_votes (rn_raft nd) = []
     \<and> rf_log (rn_raft nd) = solo_log \<and> rf_progress (rn_raft nd) = solo_progress"
  by (simp add: node_new_def raft_new_def solo_config_def config_new_def config_validate_def solo_eval
    ELECTION_TIMEOUT_MIN_TICKS_def ELECTION_TIMEOUT_MAX_TICKS_def HEARTBEAT_TICKS_def MAX_INFLIGHT_MSGS_def MAX_SIZE_PER_MSG_def 
    config_conf_state_def conf_normalize_def replay_conf_changes_def try_read_def and_then_def rebuild_progress_def solo_conf solo_members solo_peer solo_ids solo_contains solo_log_def)



text \<open>A voter that wins its election is in office, and committing does not unseat it.\<close>

lemma maybe_commit_office:
  assumes "raft_is_voter r (rf_id r)"
  shows "rf_role (fst (maybe_commit S r)) = rf_role r \<and> ct_current (rf_conf (fst (maybe_commit S r))) = ct_current (rf_conf r)"
proof -
  let ?q = "\<lambda>l. step_down_if_removed (advance_conf_commit (r\<lparr>rf_log := l\<rparr>))"
  have q: "rf_role (?q l) = rf_role r \<and> ct_current (rf_conf (?q l)) = ct_current (rf_conf r)" for l
    using assms by (simp add: step_down_if_removed_def advance_conf_commit_def raft_is_voter_def)
  have "rf_role (fst (flush_postponed_reads S (?q l))) = rf_role r
     \<and> ct_current (rf_conf (fst (flush_postponed_reads S (?q l)))) = ct_current (rf_conf r)" for l
    using calmD [OF flush_postponed_reads_calm [of "?q l" S]] q [of l] by simp
  then show ?thesis
    by (auto simp: maybe_commit_def Let_def and_then_def split: result.splits prod.splits)
qed

lemma become_leader_office:
  assumes "raft_is_voter r (rf_id r)"
  shows "rf_role (fst (become_leader S r)) = Leader \<and> ct_current (rf_conf (fst (become_leader S r))) = ct_current (rf_conf r)"
proof -
  have step: "rf_role (fst (and_then (maybe_commit S q) (\<lambda>r _. bcast_append S r))) = rf_role q
      \<and> ct_current (rf_conf (fst (and_then (maybe_commit S q) (\<lambda>r _. bcast_append S r)))) = ct_current (rf_conf q)"
    if "raft_is_voter q (rf_id q)" for q
    using maybe_commit_office [OF that, of S] calmD [OF bcast_append_calm [of "fst (maybe_commit S q)" S]]
    by (auto simp: and_then_def split: result.splits prod.splits)
  show ?thesis
    using assms
    by (auto simp: become_leader_def Let_def try_read_def raft_is_voter_def and_then_def [of "(_, _)"] step split: result.splits prod.splits)
qed

lemma solo_wins:
  assumes "rf_id r = 1" "rf_term r = 0" "rf_role r = Follower" "ct_current (rf_conf r) = \<lparr>voters = [1], learners = []\<rparr>"
  shows "rf_role (fst (campaign S r Election)) = Leader \<and> rf_term (fst (campaign S r Election)) = 1
    \<and> ct_current (rf_conf (fst (campaign S r Election))) = \<lparr>voters = [1], learners = []\<rparr>"
proof -
  let ?q = "(become_candidate (bump_campaigns_real r))\<lparr>rf_votes := [(Suc 0, True)]\<rparr>"
  have q: "rf_id ?q = 1" "rf_term ?q = 1" "ct_current (rf_conf ?q) = \<lparr>voters = [1], learners = []\<rparr>"
    using assms by (simp_all add: become_candidate_def bump_campaigns_real_def sat_add_def u64_max_def Let_def)
  have "campaign S r Election = become_leader S ?q"
    using assms by (simp add: campaign.simps [of S r] raft_is_voter_def conf_is_voter_def poll_def Let_def conf_quorum_def
        become_candidate_def bump_campaigns_real_def insert_at_def)
  moreover have "raft_is_voter ?q (rf_id ?q)" using q by (simp add: raft_is_voter_def conf_is_voter_def)
  ultimately show ?thesis
    using become_leader_office [of ?q S] steadyD(2) [OF become_leader_steady [of ?q S]] q(2,3) by (simp add: in_office_def)
qed

text \<open>A group of one voter that opens and campaigns.\<close>

theorem election_safety_witness:
  "\<exists>s :: mem_storage cluster. reachable mem_log_storage \<lparr>voters = [1], learners = []\<rparr> s
     \<and> {b. \<exists>y. cl_nodes s b = Some y \<and> rf_role (rn_raft y) = Leader \<and> rf_term (rn_raft y) = 1} = {1}"
proof -
  let ?C = "\<lparr>voters = [1], learners = []\<rparr> :: conf_state"
  obtain nd where nd: "node_new mem_log_storage solo_config mem_new = Ok nd"
      "rf_id (rn_raft nd) = 1" "rf_term (rn_raft nd) = 0" "rf_role (rn_raft nd) = Follower" "\<not> rf_pre_vote (rn_raft nd)"
      "ct_current (rf_conf (rn_raft nd)) = ?C"
    using solo_opens by (auto simp: solo_conf)
  define x where "x = node_call mem_log_storage nd CallCampaign"
  define s1 where "s1 = (cluster_init :: mem_storage cluster)\<lparr>cl_nodes := (cl_nodes cluster_init)(1 := Some nd)\<rparr>"
  define s2 where "s2 = s1\<lparr>cl_nodes := (cl_nodes s1)(1 := Some x)\<rparr>"
  have x: "rf_role (rn_raft x) = Leader" "rf_term (rn_raft x) = 1" "ct_current (rf_conf (rn_raft x)) = ?C"
    using solo_wins [OF nd(2-4,6), of mem_log_storage] nd(5) by (simp_all add: x_def node_campaign_def lift_raft_def)
  have "cluster_step mem_log_storage cluster_init s1"
    unfolding s1_def
    by (rule cluster_step.restart [OF nd(1), where ini = "\<lparr>is_hard_state = ms_hard_state mem_new, is_conf_state = ms_conf_state mem_new\<rparr>"])
      (simp_all add: solo_config_def config_new_def mem_log_storage_def mem_initial_state_def cluster_init_def mem_new_def)
  moreover have "membership_is ?C s1" using nd(6) by (simp add: membership_is_def s1_def cluster_init_def)
  ultimately have r1: "reachable mem_log_storage ?C s1" using reachable.intros by blast
  moreover have "cluster_step mem_log_storage s1 s2"
    unfolding s2_def x_def by (rule cluster_step.call) (simp_all add: s1_def)
  moreover have "membership_is ?C s2" using x(3) by (simp add: membership_is_def s1_def s2_def cluster_init_def)
  ultimately have r2: "reachable mem_log_storage ?C s2" using reachable.intros by blast
  have s2: "cl_nodes s2 1 = Some x" by (simp add: s2_def)
  have "b = 1" if "cl_nodes s2 b = Some y" "rf_role (rn_raft y) = Leader" "rf_term (rn_raft y) = 1" for b y
    by (rule election_safety [OF r2 _ that(1,2) s2 x(1)]) (use that x in \<open>simp_all add: conf_ok_def u64_max_def\<close>)
  with r2 s2 x show ?thesis by blast
qed

end
