(* ===== verification/Varint.thy ===== *)
theory Varint
  imports Prelude
begin

text \<open>
  LEB128 integers (\<^verbatim>\<open>esker-base/src/varint.rs\<close>): seven bits a byte, low group first, the high
  bit set on every byte but the last. The decoder is strict. The functions that append to a buffer
  return the bytes they append.
\<close>

unbundle bit_operations_syntax

definition MAX_LEN_U64 :: nat where "MAX_LEN_U64 = 10"
definition MAX_LEN_U32 :: nat where "MAX_LEN_U32 = 5"

datatype varint_error =
    Truncated nat
  | Overflow nat
  | NotCanonical nat nat

text \<open>\<^verbatim>\<open>u64::BITS - value.leading_zeros()\<close>.\<close>

fun significant_bits :: "u64 \<Rightarrow> nat" where
  "significant_bits n = (if n = 0 then 0 else Suc (significant_bits (n div 2)))"

declare significant_bits.simps [simp del]

definition encoded_len_u64 :: "u64 \<Rightarrow> nat" where
  "encoded_len_u64 value = (max (significant_bits value) 1 + 6) div 7"

function put_u64 :: "u64 \<Rightarrow> bytes" where
  "put_u64 rest =
     (if 0x80 \<le> rest then (word_of_nat rest OR 0x80) # put_u64 (drop_bit 7 rest) else [word_of_nat rest])"
  by pat_completeness auto
termination
  by (relation "measure id") (auto simp: drop_bit_eq_div)

declare put_u64.simps [simp del]

definition put_u32 :: "nat \<Rightarrow> bytes" where
  "put_u32 value = put_u64 value"

fun get_u64_loop :: "nat \<Rightarrow> nat \<Rightarrow> u64 \<Rightarrow> bytes \<Rightarrow> (u64 \<times> nat, varint_error) result" where
  "get_u64_loop index shift value [] = Err (Truncated index)"
| "get_u64_loop index shift value (byte # rest) =
     (if index = MAX_LEN_U64 then Err (Overflow 64)
      else
        let payload = unat (byte AND 0x7F) in
        if shift = 63 \<and> 1 < payload then Err (Overflow 64)
        else
          let value' = value OR take_bit 64 (push_bit shift payload) in
          if byte AND 0x80 = 0 then
            let len = index + 1; want = encoded_len_u64 value' in
            if len \<noteq> want then Err (NotCanonical len want) else Ok (value', len)
          else get_u64_loop (index + 1) (shift + 7) value' rest)"

definition get_u64 :: "bytes \<Rightarrow> (u64 \<times> nat, varint_error) result" where
  "get_u64 buf = get_u64_loop 0 0 0 buf"

definition get_u32 :: "bytes \<Rightarrow> (nat \<times> nat, varint_error) result" where
  "get_u32 buf = (case get_u64 buf of Err e \<Rightarrow> Err e
     | Ok (value, len) \<Rightarrow> if value < 2 ^ 32 then Ok (value, len) else Err (Overflow 32))"

text \<open>Signed values are 64-bit words; the right shift of \<^verbatim>\<open>i64\<close> is arithmetic.\<close>

definition zigzag_encode :: "64 word \<Rightarrow> 64 word" where
  "zigzag_encode value = push_bit 1 value XOR signed_drop_bit 63 value"

definition zigzag_decode :: "64 word \<Rightarrow> 64 word" where
  "zigzag_decode value = drop_bit 1 value XOR (- (value AND 1))"

definition put_i64 :: "64 word \<Rightarrow> bytes" where
  "put_i64 value = put_u64 (unat (zigzag_encode value))"

definition get_i64 :: "bytes \<Rightarrow> (64 word \<times> nat, varint_error) result" where
  "get_i64 buf = (case get_u64 buf of Err e \<Rightarrow> Err e
     | Ok (raw, len) \<Rightarrow> Ok (zigzag_decode (word_of_nat raw), len))"

subsection \<open>Seven-bit groups\<close>

lemma unat_byte_less: "unat (b :: byte) < 256"
  using unsigned_less [of b] by simp

lemma unat_low7: "unat (b AND 0x7F :: byte) = unat b mod 128"
proof -
  have "(0x7F :: byte) = mask 7" by (simp add: mask_eq_exp_minus_1)
  then have "b AND 0x7F = take_bit 7 b" unfolding take_bit_eq_mask by (rule arg_cong)
  then show ?thesis by (simp only: unsigned_take_bit_eq) (simp add: take_bit_eq_mod)
qed

lemma high_bit_clear: "b AND 0x80 = 0 \<longleftrightarrow> unat (b :: byte) < 128"
proof -
  have "b AND 0x80 = 0 \<longleftrightarrow> \<not> bit b 7" using and_exp_eq_0_iff_not_bit [of b 7] by simp
  also have "bit b 7 \<longleftrightarrow> odd (unat b div 128)"
    using bit_unsigned_iff [of b 7, where 'a = nat] by (simp add: bit_iff_odd)
  also have "\<dots> \<longleftrightarrow> 128 \<le> unat b"
  proof -
    have "unat b div 128 < 2" using unat_byte_less [of b] by (simp add: less_mult_imp_div_less)
    then have "odd (unat b div 128) \<longleftrightarrow> unat b div 128 \<noteq> 0" by (auto simp: less_2_cases_iff)
    then show ?thesis by (simp add: div_eq_0_iff not_less)
  qed
  finally show ?thesis by (simp only: not_le)
qed

text \<open>Or-ing a group above the bits already read adds it.\<close>

lemma or_group:
  assumes "v < 2 ^ shift"
  shows "v OR push_bit shift (p :: nat) = v + p * 2 ^ shift"
proof -
  have "take_bit shift v = v" using assms by (simp add: take_bit_nat_eq_self)
  then have "bit v n \<Longrightarrow> n < shift" for n by (metis bit_take_bit_iff)
  then have "v + push_bit shift p = v OR push_bit shift p"
    by (intro disjunctive_add) (auto simp: bit_push_bit_iff_nat not_le [symmetric])
  then show ?thesis by (simp add: push_bit_eq_mult)
qed

lemma unat_put_byte: "unat (word_of_nat rest OR 0x80 :: byte) = rest mod 128 + 128"
proof -
  have "unat (word_of_nat rest OR 0x80 :: byte) = rest mod 256 OR 128"
    by (simp add: unsigned_or_eq unat_of_nat)
  also have "rest mod 256 = rest mod 128 + (rest div 128 mod 2) * 2 ^ 7"
    using mod_mult2_eq [of rest 128 2] by (simp add: mult.commute)
  also have "\<dots> = rest mod 128 OR push_bit 7 (rest div 128 mod 2)" by (simp add: or_group)
  also have "\<dots> OR 128 = rest mod 128 OR push_bit 7 ((rest div 128 mod 2) OR 1)"
    by (simp add: push_bit_or or.assoc)
  also have "(rest div 128 mod 2) OR 1 = 1" by (cases "even (rest div 128)") (auto simp: even_iff_mod_2_eq_zero odd_iff_mod_2_eq_one)
  also have "rest mod 128 OR push_bit 7 1 = rest mod 128 + 128"
    using or_group [of "rest mod 128" 7 1] by simp
  finally show ?thesis .
qed

lemma put_u64_small: "rest < 128 \<Longrightarrow> put_u64 rest = [word_of_nat rest]"
  by (simp add: put_u64.simps)

lemma put_u64_big: "128 \<le> rest \<Longrightarrow> put_u64 rest = (word_of_nat rest OR 0x80) # put_u64 (rest div 128)"
  by (subst put_u64.simps) (simp add: drop_bit_eq_div)

lemma significant_bits_small: "n < 2 ^ k \<Longrightarrow> significant_bits n \<le> k"
proof (induction k arbitrary: n)
  case 0
  then show ?case by (simp add: significant_bits.simps)
next
  case (Suc k)
  then have "n div 2 < 2 ^ k" by (simp add: less_mult_imp_div_less mult.commute)
  with Suc.IH show ?case by (subst significant_bits.simps) auto
qed

lemma significant_bits_pos: "0 < n \<Longrightarrow> 0 < significant_bits n"
  by (subst significant_bits.simps) simp

lemma significant_bits_shift: "0 < n div 2 ^ k \<Longrightarrow> significant_bits n = k + significant_bits (n div 2 ^ k)"
proof (induction k arbitrary: n)
  case (Suc k)
  from Suc.prems have "0 < n div 2 div 2 ^ k" by (simp add: div_mult2_eq)
  with Suc.IH [of "n div 2"] have "significant_bits (n div 2) = k + significant_bits (n div 2 ^ Suc k)"
    by (simp add: div_mult2_eq)
  moreover have "n \<noteq> 0" using Suc.prems by (rule_tac notI) simp
  ultimately show ?case by (subst significant_bits.simps) simp
qed simp

lemma encoded_len_small: "n < 128 \<Longrightarrow> encoded_len_u64 n = 1"
proof -
  assume "n < 128"
  then have "significant_bits n \<le> 7" using significant_bits_small [of n 7] by simp
  then have "max (significant_bits n) 1 + 6 < 14" "7 \<le> max (significant_bits n) 1 + 6" by auto
  then show ?thesis by (simp add: encoded_len_u64_def)
qed

lemma encoded_len_big: "128 \<le> n \<Longrightarrow> encoded_len_u64 n = Suc (encoded_len_u64 (n div 128))"
proof -
  assume n: "128 \<le> n"
  then have "0 < n div 128" by (simp add: div_greater_zero_iff)
  with significant_bits_shift [of n 7] have "significant_bits n = 7 + significant_bits (n div 128)" by simp
  moreover have "max (significant_bits (n div 128)) 1 = significant_bits (n div 128)"
    using significant_bits_pos [of "n div 128"] \<open>0 < n div 128\<close> by simp
  moreover have "(7 + s + 6) div 7 = Suc ((s + 6) div 7)" for s :: nat by (simp add: add.assoc)
  ultimately show ?thesis by (simp add: encoded_len_u64_def)
qed

lemma encoded_len_put: "encoded_len_u64 n = length (put_u64 n)"
proof (induction n rule: less_induct)
  case (less n)
  show ?case
  proof (cases "n < 128")
    case False
    then have "n div 128 < n" by simp
    with less [of "n div 128"] False show ?thesis by (simp add: put_u64_big encoded_len_big)
  qed (simp add: put_u64_small encoded_len_small)
qed

lemma encoded_len_above: "0 < r \<Longrightarrow> v < 128 ^ k \<Longrightarrow> encoded_len_u64 (v + r * 128 ^ k) = k + encoded_len_u64 r"
proof (induction k arbitrary: v)
  case (Suc k)
  have v: "v div 128 < 128 ^ k" using Suc.prems by (simp add: less_mult_imp_div_less mult.commute)
  have "(v + r * 128 ^ Suc k) div 128 = v div 128 + r * 128 ^ k"
    by (simp add: mult.assoc [symmetric] mult.commute [of r] div_plus_div_distrib_dvd_right)
  moreover have "128 \<le> v + r * 128 ^ Suc k"
  proof -
    have "1 * 128 \<le> r * 128 ^ Suc k" using Suc.prems(1) by (intro mult_le_mono) simp_all
    then show ?thesis by linarith
  qed
  ultimately show ?case using encoded_len_big Suc.IH [OF Suc.prems(1) v] by simp
qed simp

lemma encoded_len_le: "0 < k \<Longrightarrow> v < 128 ^ k \<Longrightarrow> encoded_len_u64 v \<le> k"
proof (induction k arbitrary: v)
  case (Suc k)
  show ?case
  proof (cases "v < 128")
    case False
    have "v div 128 < 128 ^ k" using Suc.prems by (simp add: less_mult_imp_div_less mult.commute)
    moreover have "0 < k" using False Suc.prems by (cases k) auto
    ultimately show ?thesis using Suc.IH False by (simp add: encoded_len_big)
  qed (simp add: encoded_len_small)
qed simp


subsection \<open>One round of the loop\<close>

lemma group_in_range:
  assumes "shift \<le> 63" "p < 128" "\<not> (shift = 63 \<and> 1 < p)" "shift = 7 * index" "v < 2 ^ shift"
  shows "v + p * 2 ^ shift \<le> u64_max" "take_bit 64 (push_bit shift p) = push_bit shift p"
    "v + p * 2 ^ shift < 2 ^ (shift + 7)"
proof -
  have b: "p * 2 ^ shift \<le> 127 * 2 ^ shift" using assms(2) by simp
  have "v + p * 2 ^ shift < 2 ^ shift + 127 * 2 ^ shift" by (rule add_less_le_mono [OF assms(5) b])
  then show "v + p * 2 ^ shift < 2 ^ (shift + 7)" by (simp add: power_add)
  have c: "p * 2 ^ shift + 2 ^ shift \<le> 2 ^ 64"
  proof (cases "shift = 63")
    case True
    with assms(3) have "p \<le> 1" by simp
    with True show ?thesis by (cases p) auto
  next
    case False
    with assms(1,4) have "shift \<le> 56" by presburger
    then have s: "(2 :: nat) ^ shift \<le> 2 ^ 56" by (rule power_increasing) simp
    with assms(2) have "p * 2 ^ shift \<le> 127 * 2 ^ 56" by (intro mult_le_mono) simp_all
    with s show ?thesis by simp
  qed
  with assms(5) show "v + p * 2 ^ shift \<le> u64_max" by (simp add: u64_max_def)
  show "take_bit 64 (push_bit shift p) = push_bit shift p"
  proof (rule take_bit_nat_eq_self)
    have "0 < (2 :: nat) ^ shift" by simp
    with c have "p * 2 ^ shift < 2 ^ 64" by linarith
    then show "push_bit shift p < 2 ^ 64" by (simp add: push_bit_eq_mult)
  qed
qed

lemma group_or:
  fixes v p :: nat
  assumes "shift \<le> 63" "p < 128" "\<not> (shift = 63 \<and> 1 < p)" "shift = 7 * index" "v < 2 ^ shift"
  shows "v OR take_bit 64 (push_bit shift p) = v + p * 2 ^ shift"
  using group_in_range(2) [OF assms] or_group [OF assms(5)] by simp

lemma get_u64_step:
  assumes "shift = 7 * index" "index < 10" "v < 2 ^ shift"
    "\<not> (shift = 63 \<and> 1 < unat b mod 128)"
  shows "get_u64_loop index shift v (b # rest) =
    (let v' = v + (unat b mod 128) * 2 ^ shift in
     if unat b < 128 then
       if Suc index \<noteq> encoded_len_u64 v' then Err (NotCanonical (Suc index) (encoded_len_u64 v')) else Ok (v', Suc index)
     else get_u64_loop (Suc index) (shift + 7) v' rest)"
proof -
  have o: "v OR take_bit 64 (push_bit shift (unat b mod 128)) = v + unat b mod 128 * 2 ^ shift"
    by (rule group_or) (use assms in simp_all)
  have "index \<noteq> MAX_LEN_U64" using assms(2) by (simp add: MAX_LEN_U64_def)
  with assms(4) show ?thesis
    by (simp only: get_u64_loop.simps unat_low7 high_bit_clear Let_def o if_False Suc_eq_plus1)
qed

lemma get_u64_loop_put:
  assumes "shift = 7 * index" "index < 10" "v < 2 ^ shift" "0 < r \<or> index = 0" "v + r * 2 ^ shift \<le> u64_max"
  shows "get_u64_loop index shift v (put_u64 r @ rest) = Ok (v + r * 2 ^ shift, index + length (put_u64 r))"
  using assms
proof (induction r arbitrary: index shift v rule: less_induct)
  case (less r)
  have pow: "(2 :: nat) ^ shift = 128 ^ index" using less.prems(1) by (simp add: power_mult)
  have len: "encoded_len_u64 (v + r * 2 ^ shift) = index + length (put_u64 r)"
  proof (cases "r = 0")
    case True
    with less.prems show ?thesis by (simp add: encoded_len_put)
  next
    case False
    then show ?thesis using encoded_len_above [of r v index] less.prems(3) by (simp add: pow encoded_len_put)
  qed
  show ?case
  proof (cases "r < 128")
    case True
    have "\<not> (shift = 63 \<and> 1 < r)"
    proof
      assume "shift = 63 \<and> 1 < r"
      then have "2 * 2 ^ 63 \<le> r * 2 ^ shift" by (intro mult_le_mono) simp_all
      with less.prems(5) show False by (simp add: u64_max_def)
    qed
    then show ?thesis
      using get_u64_step [OF less.prems(1-3), of "word_of_nat r"] True len
      by (simp add: put_u64_small unat_of_nat Let_def)
  next
    case False
    let ?b = "word_of_nat r OR 0x80 :: byte"
    have b: "unat ?b = r mod 128 + 128" "unat ?b mod 128 = r mod 128" by (simp_all add: unat_put_byte)
    have split: "v + r * 2 ^ shift = (v + r mod 128 * 2 ^ shift) + r div 128 * 2 ^ (shift + 7)"
    proof -
      have "r * 2 ^ shift = (r mod 128 + 128 * (r div 128)) * 2 ^ shift" by (simp only: mod_mult_div_eq)
      also have "\<dots> = r mod 128 * 2 ^ shift + r div 128 * 2 ^ (shift + 7)"
        by (simp only: add_mult_distrib power_add) simp
      finally show ?thesis by simp
    qed
    have sh: "shift \<le> 56" "index < 9"
    proof -
      have "shift \<noteq> 63" using False less.prems(5)
        by (rule_tac notI) (simp add: u64_max_def)
      with less.prems(1,2) show "shift \<le> 56" "index < 9" by presburger+
    qed
    have r: "0 < r div 128" "r div 128 < r" using False by (simp_all add: div_greater_zero_iff)
    have v': "v + r mod 128 * 2 ^ shift < 2 ^ (shift + 7)"
      by (rule group_in_range(3)) (use less.prems(1,3) sh in simp_all)
    have "get_u64_loop index shift v (put_u64 r @ rest)
        = get_u64_loop (Suc index) (shift + 7) (v + r mod 128 * 2 ^ shift) (put_u64 (r div 128) @ rest)"
      using get_u64_step [OF less.prems(1-3), of ?b] sh False b
      by (simp add: put_u64_big Let_def)
    also have "\<dots> = Ok (v + r * 2 ^ shift, Suc index + length (put_u64 (r div 128)))"
      using less.IH [OF r(2), of "shift + 7" "Suc index"] less.prems(1,5) sh(2) v' r(1) split by simp
    finally show ?thesis using False by (simp add: put_u64_big)
  qed
qed

lemma get_u64_loop_canonical:
  assumes "get_u64_loop index shift v buf = Ok (w, n)" "shift = 7 * index" "index \<le> 10" "v < 2 ^ shift"
  shows "\<exists>r. w = v + r * 2 ^ shift \<and> index < n \<and> n = encoded_len_u64 w \<and> take (n - index) buf = put_u64 r \<and> w \<le> u64_max"
  using assms
proof (induction index shift v buf rule: get_u64_loop.induct)
  case (2 index shift v b buf)
  let ?p = "unat b mod 128" and ?v = "v + unat b mod 128 * 2 ^ shift"
  have i: "index < 10" "\<not> (shift = 63 \<and> 1 < ?p)" "shift \<le> 63"
    using "2.prems" by (auto simp: MAX_LEN_U64_def unat_low7 Let_def split: if_splits)
  note step = get_u64_step [OF "2.prems"(2) i(1) "2.prems"(4) i(2), of buf, unfolded "2.prems"(1) Let_def]
  note rng = group_in_range [OF i(3) _ i(2) "2.prems"(2,4), simplified]
  have o: "v OR take_bit 64 (push_bit shift ?p) = ?v"
    using group_or [OF i(3) _ i(2) "2.prems"(2,4)] by simp
  show ?case
  proof (cases "unat b < 128")
    case True
    then have "put_u64 ?p = [b]" by (simp add: put_u64_small)
    moreover have "n = Suc index" "w = ?v" "Suc index = encoded_len_u64 ?v"
      using True step by (simp_all split: if_splits)
    moreover have "take (Suc index - index) (b # buf) = [b]" by simp
    ultimately show ?thesis using rng(1) by (metis lessI)
  next
    case False
    then have cont: "get_u64_loop (index + 1) (shift + 7) ?v buf = Ok (w, n)" using step by simp
    have "\<exists>r. w = ?v + r * 2 ^ (shift + 7) \<and> index + 1 < n \<and> n = encoded_len_u64 w \<and> take (n - (index + 1)) buf = put_u64 r
        \<and> w \<le> u64_max"
    proof (rule "2.IH" [OF _ refl _ refl, unfolded unat_low7 o])
      show "get_u64_loop (index + 1) (shift + 7) ?v buf = Ok (w, n)" by (fact cont)
    qed (use i rng(3) "2.prems"(2) False in \<open>simp_all add: MAX_LEN_U64_def high_bit_clear\<close>)
    then obtain r where r: "w = ?v + r * 2 ^ (shift + 7)" "index + 1 < n" "n = encoded_len_u64 w"
        "take (n - (index + 1)) buf = put_u64 r" "w \<le> u64_max" by blast
    have "0 < r"
    proof (rule ccontr)
      assume "\<not> 0 < r"
      then have "w < 128 ^ (index + 1)" using r(1) rng(3) "2.prems"(2) by (simp add: power_mult power_add)
      then have "encoded_len_u64 w \<le> index + 1" by (intro encoded_len_le) simp_all
      with r(2,3) show False by simp
    qed
    have q: "(?p + 128 * r) mod 128 = ?p" "(?p + 128 * r) div 128 = r" by simp_all
    have "?p + 128 = unat b" using False unat_byte_less [of b] by (simp add: le_mod_geq)
    then have "unat (word_of_nat (?p + 128 * r) OR 0x80 :: byte) = unat b" by (simp only: unat_put_byte q)
    then have "word_of_nat (?p + 128 * r) OR 0x80 = b" by (simp only: word_unat_eq_iff)
    then have "put_u64 (?p + 128 * r) = b # put_u64 r" using \<open>0 < r\<close> q(2) by (simp add: put_u64_big)
    moreover have "w = v + (?p + 128 * r) * 2 ^ shift" using r(1) by (simp add: power_add add_mult_distrib)
    moreover have "take (n - index) (b # buf) = b # put_u64 r"
      using r(2,4) Suc_diff_Suc [of index n] by (metis Suc_eq_plus1 Suc_lessD take_Suc_Cons)
    ultimately show ?thesis using r(2,3,5) by (intro exI [of _ "?p + 128 * r"]) auto
  qed
qed simp

lemma get_u64_iff:
  "get_u64 buf = Ok (v, n) \<longleftrightarrow> v \<le> u64_max \<and> n = length (put_u64 v) \<and> take n buf = put_u64 v"
proof
  assume "get_u64 buf = Ok (v, n)"
  from get_u64_loop_canonical [OF this [unfolded get_u64_def]]
  show "v \<le> u64_max \<and> n = length (put_u64 v) \<and> take n buf = put_u64 v"
    by (auto simp: encoded_len_put)
next
  assume a: "v \<le> u64_max \<and> n = length (put_u64 v) \<and> take n buf = put_u64 v"
  then have "buf = put_u64 v @ drop n buf" by (metis append_take_drop_id)
  with get_u64_loop_put [of 0 0 0 v "drop n buf"] a show "get_u64 buf = Ok (v, n)"
    unfolding get_u64_def by simp
qed


lemma zigzag_roundtrip: "zigzag_decode (zigzag_encode w) = w"
proof (rule bit_word_eqI)
  fix n assume n: "n < LENGTH(64)"
  have e: "bit (zigzag_encode w) k \<longleftrightarrow> (1 \<le> k \<and> bit w (k - 1)) \<noteq> bit w 63" if "k < 64" for k
    using that unfolding zigzag_encode_def bit_xor_iff bit_push_bit_iff bit_signed_drop_bit_iff
    by (cases k) auto
  have "zigzag_encode w AND 1 = of_bool (bit w 63)"
    using e [of 0] by (auto simp: and_one_eq mod2_eq_if bit_0)
  then show "bit (zigzag_decode (zigzag_encode w)) n = bit w n"
    using n e [of "Suc n"] bit_imp_le_length [of "zigzag_encode w" 64]
    by (cases "n = 63") (auto simp: zigzag_decode_def bit_xor_iff bit_drop_bit_eq)
qed

lemma get_i64_put [simp]: "get_i64 (put_i64 w @ rest) = Ok (w, length (put_i64 w))"
proof -
  have "unat (zigzag_encode w) \<le> u64_max"
    using unsigned_less [of "zigzag_encode w", where 'a = nat] by (simp add: u64_max_def)
  then have "get_u64 (put_i64 w @ rest) = Ok (unat (zigzag_encode w), length (put_i64 w))"
    by (simp add: get_u64_iff put_i64_def)
  then show ?thesis by (simp add: get_i64_def zigzag_roundtrip)
qed

end
