(* ===== verification/KeyCodec.thy ===== *)
theory KeyCodec
  imports Prelude "HOL-Library.List_Lexorder"
begin

text \<open>
  The memcomparable codec (\<^verbatim>\<open>esker-keys/src/codec.rs\<close>): encodings whose bytewise order is the
  order of the values. Byte strings are compared as slices are in Rust, which is the lexicographic
  order of \<^verbatim>\<open>List_Lexorder\<close>. The functions that append to a buffer return the bytes they
  append.
\<close>

unbundle bit_operations_syntax

definition GROUP_SIZE :: nat where "GROUP_SIZE = 8"
definition ENCODED_GROUP_SIZE :: nat where "ENCODED_GROUP_SIZE = GROUP_SIZE + 1"
definition MARKER_FULL :: byte where "MARKER_FULL = 0xFF"
definition FIXED_INT_SIZE :: nat where "FIXED_INT_SIZE = 8"

datatype codec_error =
    CodecTruncated nat nat
  | BadGroupMarker byte
  | DirtyPadding
  | TrailingBytes nat

datatype key_value = U64 "64 word" | I64 "64 word" | Bytes bytes

datatype value_kind = KindU64 | KindI64 | KindBytes

fun value_kind_of :: "key_value \<Rightarrow> value_kind" where
  "value_kind_of (U64 _) = KindU64"
| "value_kind_of (I64 _) = KindI64"
| "value_kind_of (Bytes _) = KindBytes"

text \<open>\<^verbatim>\<open>to_be_bytes\<close> and \<^verbatim>\<open>from_be_bytes\<close>.\<close>

definition be_bytes :: "64 word \<Rightarrow> bytes" where
  "be_bytes w = rev (le_bytes 8 (unat w))"

definition of_be_bytes :: "bytes \<Rightarrow> 64 word" where
  "of_be_bytes bs = word_of_nat (of_le_bytes (rev bs))"

definition encode_u64 :: "64 word \<Rightarrow> bytes" where
  "encode_u64 v = be_bytes v"

definition split_fixed :: "bytes \<Rightarrow> (bytes \<times> bytes, codec_error) result" where
  "split_fixed buf =
     (if length buf < FIXED_INT_SIZE then Err (CodecTruncated FIXED_INT_SIZE (length buf))
      else Ok (take FIXED_INT_SIZE buf, drop FIXED_INT_SIZE buf))"

definition decode_u64 :: "bytes \<Rightarrow> (64 word \<times> bytes, codec_error) result" where
  "decode_u64 buf = (case split_fixed buf of Err e \<Rightarrow> Err e | Ok (hed, rest) \<Rightarrow> Ok (of_be_bytes hed, rest))"

text \<open>An \<^verbatim>\<open>i64\<close> is a word read with \<open>sint\<close>.\<close>

definition flip_sign :: "64 word \<Rightarrow> 64 word" where
  "flip_sign v = v XOR push_bit 63 1"

definition unflip_sign :: "64 word \<Rightarrow> 64 word" where
  "unflip_sign v = v XOR push_bit 63 1"

definition encode_i64 :: "64 word \<Rightarrow> bytes" where
  "encode_i64 v = be_bytes (flip_sign v)"

definition decode_i64 :: "bytes \<Rightarrow> (64 word \<times> bytes, codec_error) result" where
  "decode_i64 buf =
     (case split_fixed buf of Err e \<Rightarrow> Err e | Ok (hed, rest) \<Rightarrow> Ok (unflip_sign (of_be_bytes hed), rest))"

definition encoded_bytes_len :: "nat \<Rightarrow> nat" where
  "encoded_bytes_len len = (len div GROUP_SIZE + 1) * ENCODED_GROUP_SIZE"

text \<open>\<^verbatim>\<open>chunks_exact\<close> yields full groups while one is left; the remainder is the final group.\<close>

function encode_bytes :: "bytes \<Rightarrow> bytes" where
  "encode_bytes v =
     (if GROUP_SIZE \<le> length v then take GROUP_SIZE v @ [MARKER_FULL] @ encode_bytes (drop GROUP_SIZE v)
      else
        let padding = GROUP_SIZE - length v
        in v @ replicate padding 0 @ [MARKER_FULL - word_of_nat padding])"
  by pat_completeness auto
termination
  by (relation "measure length") (auto simp: GROUP_SIZE_def)

function decode_bytes_loop :: "bytes \<Rightarrow> bytes \<Rightarrow> (bytes \<times> bytes, codec_error) result" where
  "decode_bytes_loop out rest =
     (if length rest < ENCODED_GROUP_SIZE then Err (CodecTruncated ENCODED_GROUP_SIZE (length rest))
      else
        let payload = take GROUP_SIZE rest; marker = rest ! GROUP_SIZE; tail = drop ENCODED_GROUP_SIZE rest in
        if marker = MARKER_FULL then decode_bytes_loop (out @ payload) tail
        else
          let padding = unat (MARKER_FULL - marker) in
          if GROUP_SIZE < padding then Err (BadGroupMarker marker)
          else
            let kept = GROUP_SIZE - padding in
            if list_ex (\<lambda>b. b \<noteq> 0) (drop kept payload) then Err DirtyPadding
            else Ok (out @ take kept payload, tail))"
  by pat_completeness auto
termination
  by (relation "measure (length \<circ> snd)") (auto simp: GROUP_SIZE_def ENCODED_GROUP_SIZE_def)

declare encode_bytes.simps [simp del] decode_bytes_loop.simps [simp del]

definition decode_bytes :: "bytes \<Rightarrow> (bytes \<times> bytes, codec_error) result" where
  "decode_bytes buf = decode_bytes_loop [] buf"

fun encode_value :: "key_value \<Rightarrow> bytes" where
  "encode_value (U64 v) = encode_u64 v"
| "encode_value (I64 v) = encode_i64 v"
| "encode_value (Bytes v) = encode_bytes v"

definition encode_tuple :: "key_value list \<Rightarrow> bytes" where
  "encode_tuple vs = concat (map encode_value vs)"

fun decode_tuple :: "value_kind list \<Rightarrow> bytes \<Rightarrow> (key_value list \<times> bytes, codec_error) result" where
  "decode_tuple [] rest = Ok ([], rest)"
| "decode_tuple (kind # schema) rest =
     (case (case kind of
              KindU64 \<Rightarrow> (case decode_u64 rest of Err e \<Rightarrow> Err e | Ok (v, tail) \<Rightarrow> Ok (U64 v, tail))
            | KindI64 \<Rightarrow> (case decode_i64 rest of Err e \<Rightarrow> Err e | Ok (v, tail) \<Rightarrow> Ok (I64 v, tail))
            | KindBytes \<Rightarrow> (case decode_bytes rest of Err e \<Rightarrow> Err e | Ok (v, tail) \<Rightarrow> Ok (Bytes v, tail))) of
        Err e \<Rightarrow> Err e
      | Ok (v, tail) \<Rightarrow>
          (case decode_tuple schema tail of Err e \<Rightarrow> Err e | Ok (vs, rest') \<Rightarrow> Ok (v # vs, rest')))"

definition enc_ts :: "u64 \<Rightarrow> bytes" where
  "enc_ts ts = be_bytes (NOT (word_of_nat ts))"

definition dec_ts :: "bytes \<Rightarrow> (u64, codec_error) result" where
  "dec_ts buf = (case split_fixed buf of Err e \<Rightarrow> Err e | Ok (enc, _) \<Rightarrow> Ok (unat (NOT (of_be_bytes enc))))"

subsection \<open>The lexicographic order\<close>

lemma lex_append_same_length:
  fixes xs :: "'a::linorder list"
  assumes "length xs = length ys"
  shows "xs @ u < ys @ v \<longleftrightarrow> xs < ys \<or> xs = ys \<and> u < v"
  using assms by (induction xs ys rule: list_induct2) auto

lemma lex_append_prefix: "xs @ u < xs @ v \<longleftrightarrow> u < (v :: 'a::linorder list)"
  by (induction xs) auto

lemma less_by_digits:
  "m < n \<longleftrightarrow> m div 256 < n div 256 \<or> m div 256 = n div 256 \<and> m mod 256 < n mod (256 :: nat)"
proof -
  have e: "m = 256 * (m div 256) + m mod 256" "n = 256 * (n div 256) + n mod 256" by simp_all
  have b: "m mod 256 < 256" "n mod 256 < 256" by simp_all
  show ?thesis
  proof (cases "m div 256 = n div 256")
    case True
    with e show ?thesis by linarith
  next
    case False
    with e b show ?thesis by linarith
  qed
qed

lemma le_bytes_less:
  assumes "m < 256 ^ k" "n < 256 ^ k"
  shows "rev (le_bytes k m) < rev (le_bytes k n) \<longleftrightarrow> m < n"
  using assms
proof (induction k arbitrary: m n)
  case (Suc k)
  have d: "m div 256 < 256 ^ k" "n div 256 < 256 ^ k"
    using Suc.prems by (simp_all add: less_mult_imp_div_less mult.commute)
  have w: "(word_of_nat (m mod 256) :: byte) < word_of_nat (n mod 256) \<longleftrightarrow> m mod 256 < n mod 256"
    by (simp add: word_less_nat_alt unat_of_nat)
  have eq: "rev (le_bytes k (m div 256)) = rev (le_bytes k (n div 256)) \<longleftrightarrow> m div 256 = n div 256"
    using of_le_bytes_le_bytes [of k "m div 256"] of_le_bytes_le_bytes [of k "n div 256"] d by (metis mod_less rev_is_rev_conv)
  have "m < n \<longleftrightarrow> m div 256 < n div 256 \<or> m div 256 = n div 256 \<and> m mod 256 < n mod 256"
    by (rule less_by_digits)
  with Suc.IH [OF d] w eq show ?case by (simp add: lex_append_same_length)
qed simp

lemma be_bytes_less: "be_bytes v < be_bytes w \<longleftrightarrow> v < w"
  using le_bytes_less [of "unat v" 8 "unat w"] unsigned_less [of v, where 'a = nat] unsigned_less [of w, where 'a = nat]
  by (simp add: be_bytes_def word_less_nat_alt)

lemma length_be_bytes [simp]: "length (be_bytes w) = 8"
  by (simp add: be_bytes_def)

lemma of_be_bytes_be_bytes [simp]: "of_be_bytes (be_bytes w) = w"
  using unsigned_less [of w, where 'a = nat] by (simp add: of_be_bytes_def be_bytes_def of_le_bytes_le_bytes)

lemma be_bytes_of_be_bytes: "length bs = 8 \<Longrightarrow> be_bytes (of_be_bytes bs) = bs"
  using le_bytes_of_le_bytes [of "rev bs"] of_le_bytes_bound [of "rev bs"]
  by (simp add: of_be_bytes_def be_bytes_def unat_of_nat rev_swap)

lemma split_fixed_be [simp]: "split_fixed (be_bytes w @ rest) = Ok (be_bytes w, rest)"
  by (simp add: split_fixed_def FIXED_INT_SIZE_def)

subsection \<open>Groups\<close>

text \<open>A group of \<open>k\<close> payload bytes with its marker; a full chunk is a group with no padding.\<close>

definition pad :: "nat \<Rightarrow> bytes \<Rightarrow> bytes" where
  "pad k v = v @ replicate (k - length v) 0 @ [word_of_nat (255 - (k - length v))]"

lemma length_pad [simp]: "length v \<le> k \<Longrightarrow> length (pad k v) = Suc k"
  by (simp add: pad_def)

lemma pad_Cons: "pad (Suc k) (c # v) = c # pad k v"
  by (simp add: pad_def)

lemma pad_Nil: "pad k [] = replicate k 0 @ [word_of_nat (255 - k)]"
  by (simp add: pad_def)

lemma byte_of_nat_less: "m < n \<Longrightarrow> n < 256 \<Longrightarrow> (word_of_nat m :: byte) < word_of_nat n"
  by (simp only: word_less_nat_alt unat_of_nat) simp

lemma zeros_less_pad:
  assumes "length v \<le> k" "k \<le> 8" "m < 255 - k"
  shows "replicate k 0 @ [word_of_nat m] < pad k v"
  using assms
proof (induction k arbitrary: v)
  case 0
  then show ?case by (simp add: pad_def word_less_nat_alt unat_of_nat)
next
  case (Suc k)
  show ?case
  proof (cases v)
    case Nil
    have "(word_of_nat m :: byte) < word_of_nat (255 - Suc k)"
      by (rule byte_of_nat_less) (use Suc.prems in simp_all)
    then show ?thesis unfolding Nil pad_Nil lex_append_prefix by simp
  next
    case (Cons c v')
    with Suc show ?thesis by (cases "c = 0") (simp_all add: pad_Cons word_neq_0_conv)
  qed
qed

lemma pad_less:
  assumes "length v \<le> k" "length w \<le> k" "k \<le> 8"
  shows "pad k v < pad k w \<longleftrightarrow> v < w"
  using assms
proof (induction k arbitrary: v w)
  case (Suc k)
  have nil: "pad (Suc k) [] < pad (Suc k) (c # u)" if "length u \<le> k" for c u
  proof (cases "c = 0")
    case True
    with that Suc.prems zeros_less_pad [of u k "255 - Suc k"] show ?thesis by (simp add: pad_Nil pad_Cons)
  qed (simp add: pad_Nil pad_Cons word_neq_0_conv)
  show ?case
  proof (cases v; cases w)
    fix c u assume "v = c # u" "w = []"
    then show ?thesis using nil [of u c] Suc.prems(1) by (simp add: order.asym)
  next
    fix c u d t assume "v = c # u" "w = d # t"
    with Suc show ?thesis by (simp add: pad_Cons)
  qed (use nil Suc.prems in simp_all)
qed simp

lemma lex_take: "a < (b :: 'a::linorder list) \<Longrightarrow> take n a < take n b \<or> take n a = take n b"
proof (induction n arbitrary: a b)
  case (Suc n)
  then show ?case by (cases a; cases b) auto
qed simp

lemma MARKER_sub: "p \<le> 8 \<Longrightarrow> MARKER_FULL - word_of_nat p = word_of_nat (255 - p)"
  by (simp add: MARKER_FULL_def of_nat_diff)

lemma encode_bytes_rec:
  "encode_bytes v = pad 8 (take 8 v) @ (if 8 \<le> length v then encode_bytes (drop 8 v) else [])"
  by (subst encode_bytes.simps) (auto simp: pad_def GROUP_SIZE_def MARKER_sub, auto simp: MARKER_FULL_def)

lemma encode_bytes_less:
  "a < b \<Longrightarrow> encode_bytes a @ x < encode_bytes b @ y"
proof (induction a arbitrary: b rule: encode_bytes.induct)
  case (1 a)
  show ?case
  proof (cases "take 8 a = take 8 b")
    case True
    have "8 \<le> length a"
    proof (rule ccontr)
      assume "\<not> 8 \<le> length a"
      with True have "length (take 8 b) < 8" "take 8 b = a" by auto
      then have "b = a" by (metis length_take min_less_iff_conj nat_less_le take_all not_less)
      with 1(2) show False by simp
    qed
    moreover have "length (take 8 a) = length (take 8 b)" using True by simp
    with \<open>8 \<le> length a\<close> have "8 \<le> length b" by simp
    moreover have "drop 8 a < drop 8 b"
      using 1(2) lex_append_prefix [of "take 8 a" "drop 8 a" "drop 8 b"] True by (metis append_take_drop_id)
    ultimately show ?thesis
      using 1(1) [of "drop 8 b"] True
      by (simp add: encode_bytes_rec [of a] encode_bytes_rec [of b] GROUP_SIZE_def lex_append_prefix)
  next
    case False
    with lex_take [OF 1(2), of 8] have "pad 8 (take 8 a) < pad 8 (take 8 b)" by (simp add: pad_less)
    then show ?thesis
      by (simp add: encode_bytes_rec [of a] encode_bytes_rec [of b] lex_append_same_length)
  qed
qed

lemma encode_bytes_less_iff:
  "encode_bytes a @ x < encode_bytes b @ y \<longleftrightarrow> a < b \<or> a = b \<and> x < y"
  using encode_bytes_less [of a b x y] encode_bytes_less [of b a y x]
  by (cases a b rule: linorder_cases) (auto simp: lex_append_prefix dest: order.asym)

lemma encode_bytes_inject: "encode_bytes a @ x = encode_bytes b @ y \<longleftrightarrow> a = b \<and> x = y"
  using encode_bytes_less [of a b x y] encode_bytes_less [of b a y x]
  by (cases a b rule: linorder_cases) auto

lemma length_encode_bytes: "length (encode_bytes v) = encoded_bytes_len (length v)"
proof (induction v rule: encode_bytes.induct)
  case (1 v)
  show ?case
  proof (cases "8 \<le> length v")
    case True
    then have "length v div 8 = Suc ((length v - 8) div 8)" by (simp add: le_div_geq)
    with 1 True show ?thesis
      by (subst encode_bytes.simps) (simp add: GROUP_SIZE_def ENCODED_GROUP_SIZE_def encoded_bytes_len_def)
  next
    case False
    then show ?thesis
      by (subst encode_bytes.simps) (simp add: GROUP_SIZE_def ENCODED_GROUP_SIZE_def encoded_bytes_len_def Let_def)
  qed
qed

lemma decode_bytes_loop_encode:
  "decode_bytes_loop out (encode_bytes a @ rest) = Ok (out @ a, rest)"
proof (induction a arbitrary: out rule: encode_bytes.induct)
  case (1 a)
  show ?case
  proof (cases "8 \<le> length a")
    case True
    then have "encode_bytes a @ rest = take 8 a @ MARKER_FULL # encode_bytes (drop 8 a) @ rest"
      by (subst encode_bytes.simps) (simp add: GROUP_SIZE_def)
    with 1 True show ?thesis
      by (subst decode_bytes_loop.simps) (simp add: GROUP_SIZE_def ENCODED_GROUP_SIZE_def nth_append)
  next
    case False
    let ?p = "8 - length a"
    have m: "MARKER_FULL - (MARKER_FULL - word_of_nat ?p) = (word_of_nat ?p :: byte)" by simp
    have "unat (word_of_nat ?p :: byte) = ?p" by (simp add: unat_of_nat)
    moreover have "MARKER_FULL - word_of_nat ?p \<noteq> MARKER_FULL"
    proof
      assume "MARKER_FULL - word_of_nat ?p = MARKER_FULL"
      then have "(word_of_nat ?p :: byte) = 0" by (metis m cancel_comm_monoid_add_class.diff_cancel)
      with calculation False show False by simp
    qed
    moreover have "encode_bytes a = a @ replicate ?p 0 @ [MARKER_FULL - word_of_nat ?p]"
      using False by (subst encode_bytes.simps) (simp add: GROUP_SIZE_def Let_def)
    ultimately show ?thesis using False
      by (subst decode_bytes_loop.simps)
        (simp add: GROUP_SIZE_def ENCODED_GROUP_SIZE_def nth_append Let_def m list_ex_iff del: diff_diff_cancel)
  qed
qed

lemma decode_bytes_loop_canonical:
  "decode_bytes_loop out buf = Ok (r, rest) \<Longrightarrow> \<exists>a. r = out @ a \<and> buf = encode_bytes a @ rest"
proof (induction out buf rule: decode_bytes_loop.induct)
  case (1 out buf)
  let ?g = "take 8 buf" and ?m = "buf ! 8" and ?t = "drop 9 buf"
  have len: "9 \<le> length buf"
    using 1(2) by (subst (asm) decode_bytes_loop.simps) (auto simp: ENCODED_GROUP_SIZE_def GROUP_SIZE_def split: if_splits)
  then have buf: "buf = ?g @ ?m # ?t" by (metis Suc_le_lessD eval_nat_numeral(3) id_take_nth_drop numeral_nat(2) semiring_norm(26,27,28))
  note unf = 1(2) [unfolded decode_bytes_loop.simps [of out buf] ENCODED_GROUP_SIZE_def GROUP_SIZE_def Let_def, simplified]
  show ?case
  proof (cases "?m = MARKER_FULL")
    case True
    then have "decode_bytes_loop (out @ ?g) ?t = Ok (r, rest)" using unf len by simp
    then obtain a where "r = (out @ ?g) @ a" "?t = encode_bytes a @ rest"
      using 1(1) [of ?g ?m ?t] len True by (auto simp: ENCODED_GROUP_SIZE_def GROUP_SIZE_def)
    moreover have "encode_bytes (?g @ a) = ?g @ MARKER_FULL # encode_bytes a"
      using len by (subst encode_bytes.simps) (simp add: GROUP_SIZE_def)
    ultimately show ?thesis using buf True by (intro exI [of _ "?g @ a"]) simp
  next
    case False
    let ?p = "unat (MARKER_FULL - ?m)"
    have p: "?p \<le> 8" "\<not> list_ex (\<lambda>b. b \<noteq> 0) (drop (8 - ?p) ?g)" "r = out @ take (8 - ?p) ?g" "rest = ?t"
      using unf len False by (auto split: if_splits)
    have "0 < ?p" using False by (metis unsigned_0 gr0I right_minus_eq unat_eq_zero)
    have "\<forall>b \<in> set (drop (8 - ?p) ?g). b = 0" using p(2) by (auto simp: list_ex_iff)
    then have "drop (8 - ?p) ?g = replicate ?p 0"
      using len p(1) by (intro replicate_eqI) auto
    then have g: "?g = take (8 - ?p) ?g @ replicate ?p 0" by (metis append_take_drop_id)
    have "encode_bytes (take (8 - ?p) ?g) = (take (8 - ?p) ?g @ replicate ?p 0) @ [?m]"
      using len p(1) \<open>0 < ?p\<close> by (subst encode_bytes.simps) (auto simp: GROUP_SIZE_def Let_def min_def)
    then have "encode_bytes (take (8 - ?p) ?g) @ rest = ?g @ ?m # ?t"
      unfolding g [symmetric] p(4) by simp
    with p(3) buf show ?thesis by metis
  qed
qed

lemma decode_bytes_encode [simp]: "decode_bytes (encode_bytes a @ rest) = Ok (a, rest)"
  by (simp add: decode_bytes_def decode_bytes_loop_encode)

lemma decode_bytes_Ok: "decode_bytes buf = Ok (a, rest) \<longleftrightarrow> buf = encode_bytes a @ rest"
  using decode_bytes_loop_canonical [of "[]" buf a rest] decode_bytes_loop_encode [of "[]" a rest]
  by (auto simp: decode_bytes_def)

subsection \<open>Integers and timestamps\<close>

lemma sint_eq_iff: "sint (v :: 64 word) = sint w \<longleftrightarrow> v = w"
  using signed_word_eqI [of v w] by blast

lemma flip_sign_uint: "uint (flip_sign v) = sint v + 2 ^ 63"
proof -
  have s: "sint v = signed_take_bit 63 (uint v)" by (simp add: sint_uint)
  have b: "bit (flip_sign v) n \<longleftrightarrow> (n < 63 \<and> bit v n) \<or> (n = 63 \<and> \<not> bit v 63)" if "n < 64" for n
    using that unfolding flip_sign_def bit_xor_iff bit_push_bit_iff by (cases "n = 63") (auto simp: bit_1_iff)
  show ?thesis
  proof (cases "bit v 63")
    case True
    then have "flip_sign v = take_bit 63 v"
      by (intro bit_word_eqI) (auto simp: b bit_take_bit_iff)
    moreover have "bit (uint v) 63" using True by (simp add: bit_uint_iff)
    then have "sint v = take_bit 63 (uint v) - 2 ^ 63" 
      unfolding s signed_take_bit_eq_take_bit_minus take_bit_Suc_from_most by simp
    ultimately show ?thesis by (simp add: unsigned_take_bit_eq)
  next
    case False
    then have "flip_sign v = take_bit 63 v OR push_bit 63 1"
      unfolding bit_eq_iff bit_or_iff bit_take_bit_iff bit_push_bit_iff by (auto simp: b bit_1_iff dest: bit_imp_le_length)
    then have "uint (flip_sign v) = take_bit 63 (uint v) OR 2 ^ 63"
      by (simp add: unsigned_or_eq unsigned_take_bit_eq)
    also have "\<dots> = take_bit 63 (uint v) + 2 ^ 63"
      by (intro disjunctive_add [symmetric]) (unfold bit_take_bit_iff bit_exp_iff, auto)
    also have "\<not> bit (uint v) 63" using False by (simp add: bit_uint_iff)
    then have "take_bit 63 (uint v) = sint v" 
      unfolding s signed_take_bit_eq_take_bit_minus take_bit_Suc_from_most by simp
    finally show ?thesis .
  qed
qed

lemma encode_i64_less: "encode_i64 v < encode_i64 w \<longleftrightarrow> sint v < sint w"
  by (simp add: encode_i64_def be_bytes_less word_less_def flip_sign_uint)

lemma unflip_flip [simp]: "unflip_sign (flip_sign v) = v"
  by (simp add: unflip_sign_def flip_sign_def xor.assoc)

lemma length_encode_i64 [simp]: "length (encode_i64 v) = 8"
  by (simp add: encode_i64_def)

lemma unat_not_64: "unat (NOT w :: 64 word) = u64_max - unat w"
proof -
  have "NOT w = - 1 - w" by (simp add: not_eq_complement)
  moreover have "w \<le> - 1" by simp
  ultimately have "unat (NOT w) = unat (- 1 :: 64 word) - unat w" by (simp add: unat_sub)
  then show ?thesis by (simp add: unsigned_minus_1_eq_mask mask_eq_exp_minus_1 u64_max_def)
qed

lemma enc_ts_less: "a \<le> u64_max \<Longrightarrow> b \<le> u64_max \<Longrightarrow> enc_ts a < enc_ts b \<longleftrightarrow> b < a"
  by (auto simp: enc_ts_def be_bytes_less word_less_nat_alt unat_not_64 unat_of_nat u64_max_def)

lemma length_enc_ts [simp]: "length (enc_ts t) = 8"
  by (simp add: enc_ts_def)

lemma dec_ts_enc_ts: "t \<le> u64_max \<Longrightarrow> dec_ts (enc_ts t) = Ok t"
  using split_fixed_be [of "NOT (word_of_nat t)" "[]"] by (simp add: enc_ts_def dec_ts_def unat_of_nat u64_max_def)

lemma dec_ts_Ok: "length b = 8 \<Longrightarrow> dec_ts b = Ok t \<Longrightarrow> t \<le> u64_max \<and> enc_ts t = b"
proof -
  assume b: "length b = 8" "dec_ts b = Ok t"
  then have t: "t = unat (NOT (of_be_bytes b))" by (simp add: dec_ts_def split_fixed_def FIXED_INT_SIZE_def)
  then have "NOT (word_of_nat t) = of_be_bytes b" by simp
  with b t show ?thesis by (simp add: unat_not_64 enc_ts_def be_bytes_of_be_bytes)
qed

subsection \<open>Tuples\<close>

text \<open>The derived order of \<^verbatim>\<open>Value\<close>: by variant, then by payload.\<close>

instantiation key_value :: linorder
begin

fun less_key_value :: "key_value \<Rightarrow> key_value \<Rightarrow> bool" where
  "less_key_value (U64 a) (U64 b) = (a < b)"
| "less_key_value (I64 a) (I64 b) = (sint a < sint b)"
| "less_key_value (Bytes a) (Bytes b) = (a < b)"
| "less_key_value (U64 _) _ = True"
| "less_key_value (I64 _) (Bytes _) = True"
| "less_key_value _ _ = False"

definition less_eq_key_value :: "key_value \<Rightarrow> key_value \<Rightarrow> bool" where
  "less_eq_key_value x y \<longleftrightarrow> x < y \<or> x = y"

instance
proof
  fix x y z :: key_value
  show "(x < y) = (x \<le> y \<and> \<not> y \<le> x)"
    by (cases x; cases y) (auto simp: less_eq_key_value_def)
  show "x \<le> x" by (simp add: less_eq_key_value_def)
  show "x \<le> y \<Longrightarrow> y \<le> z \<Longrightarrow> x \<le> z"
    by (cases x; cases y; cases z) (auto simp: less_eq_key_value_def)
  show "x \<le> y \<Longrightarrow> y \<le> x \<Longrightarrow> x = y"
    by (cases x; cases y) (auto simp: less_eq_key_value_def)
  show "x \<le> y \<or> y \<le> x"
    by (cases x; cases y) (auto simp: less_eq_key_value_def sint_eq_iff not_less_iff_gr_or_eq)
qed

end

lemma be_bytes_inject: "be_bytes v = be_bytes w \<longleftrightarrow> v = w"
  by (metis of_be_bytes_be_bytes)

lemma flip_sign_inject: "flip_sign v = flip_sign w \<longleftrightarrow> v = w"
  by (metis unflip_flip)

lemma encode_value_less_iff:
  assumes "value_kind_of x = value_kind_of y"
  shows "encode_value x @ u < encode_value y @ v \<longleftrightarrow> x < y \<or> x = y \<and> u < v"
  using assms
  by (cases x; cases y)
    (auto simp: encode_u64_def encode_i64_def lex_append_same_length be_bytes_less encode_bytes_less_iff
      word_less_def flip_sign_uint be_bytes_inject flip_sign_inject)

text \<open>C28. Encoded order is logical order: for two tuples of the same schema, comparing the encodings
  bytewise, whatever follows them, is comparing the tuples field by field, and on equal tuples what
  follows decides. In particular no encoding of a tuple is a proper prefix of another of its schema.\<close>

theorem encode_tuple_order:
  assumes "map value_kind_of xs = map value_kind_of ys"
  shows "encode_tuple xs @ u < encode_tuple ys @ v \<longleftrightarrow> xs < ys \<or> xs = ys \<and> u < v"
proof -
  have "length xs = length ys" using assms by (rule map_eq_imp_length_eq)
  then show ?thesis using assms
  proof (induction xs ys rule: list_induct2)
    case (Cons x xs y ys)
    then show ?case
      using encode_value_less_iff [of x y "encode_tuple xs @ u" "encode_tuple ys @ v"]
      by (auto simp: encode_tuple_def)
  qed (simp add: encode_tuple_def)
qed

theorem encode_tuple_order_witness:
  "encode_tuple [Bytes [97], U64 2] @ [255] < encode_tuple [Bytes [97, 0], U64 1] @ []"
  by (subst encode_tuple_order) simp_all

lemma decode_encode_value:
  "decode_tuple [value_kind_of x] (encode_value x @ rest) = Ok ([x], rest)"
  by (cases x) (simp_all add: decode_u64_def decode_i64_def encode_u64_def encode_i64_def)

text \<open>A tuple is read back with its schema, leaving what follows it.\<close>

theorem tuple_roundtrip: "decode_tuple (map value_kind_of xs) (encode_tuple xs @ rest) = Ok (xs, rest)"
proof (induction xs)
  case (Cons x xs)
  then show ?case using decode_encode_value [of x "encode_tuple xs @ rest"]
    by (cases x) (auto simp: encode_tuple_def split: result.splits)
qed (simp add: encode_tuple_def)

text \<open>C29. The byte-string decoder accepts exactly what the encoder writes: a prefix of the buffer
  decodes to a string exactly when it is that string's encoding. Truncated groups, foreign markers
  and dirty padding are refused.\<close>

theorem decode_bytes_exact: "decode_bytes buf = Ok (a, rest) \<longleftrightarrow> buf = encode_bytes a @ rest"
  by (rule decode_bytes_Ok)

end
