(* ===== verification/TxnCodec.thy ===== *)
theory TxnCodec
  imports Varint KeyCodec
begin

text \<open>
  The records and the engine keys of the transaction layer (\<^verbatim>\<open>esker-txn/src/codec.rs\<close>,
  \<^verbatim>\<open>key.rs\<close>, \<^verbatim>\<open>error.rs\<close>, \<^verbatim>\<open>mutation.rs\<close>): the value of the \<^verbatim>\<open>lock\<close> column family, the
  value of the \<^verbatim>\<open>write\<close> column family, and the keys \<^verbatim>\<open>'x' ++ enc(user_key) [++ !ts]\<close>. The
  text of a corruption error is replaced by the values it is formatted from.
\<close>

subsection \<open>Records\<close>

definition SHORT_VALUE_MAX_LEN :: nat where "SHORT_VALUE_MAX_LEN = 255"
definition LOCK_TTL_MS :: u64 where "LOCK_TTL_MS = 3000"
definition SHORT_VALUE_ABSENT :: byte where "SHORT_VALUE_ABSENT = 0"
definition SHORT_VALUE_PRESENT :: byte where "SHORT_VALUE_PRESENT = 1"

datatype kind = KPut | KDelete | KRollback | KLock

fun kind_as_u8 :: "kind \<Rightarrow> byte" where
  "kind_as_u8 KPut = 1"
| "kind_as_u8 KDelete = 2"
| "kind_as_u8 KRollback = 3"
| "kind_as_u8 KLock = 4"

definition kind_from_u8 :: "byte \<Rightarrow> kind option" where
  "kind_from_u8 tag =
     (if tag = 1 then Some KPut else if tag = 2 then Some KDelete
      else if tag = 3 then Some KRollback else if tag = 4 then Some KLock else None)"

fun carries_a_value :: "kind \<Rightarrow> bool" where
  "carries_a_value k = (k = KPut)"

fun is_a_version :: "kind \<Rightarrow> bool" where
  "is_a_version k = (k = KPut \<or> k = KDelete)"

datatype corrupt_detail =
    EmptyRecord
  | UnknownKind byte
  | FieldVarint string varint_error
  | FieldBytesWanted string nat nat
  | NoShortValueMarker
  | KindCarriesNoValue kind
  | NoShortValueLength
  | ShortValueWanted nat nat
  | BadShortValueMarker byte
  | TrailingRecordBytes nat
  | RollbackIsNotALock
  | LockWithNoPrimary
  | NotInTxnNamespace bytes
  | SuffixLength nat
  | BytesAfterKey nat
  | BadKey codec_error
  | EngineText string
  | ValueNotThere u64

datatype txn_error =
    Corrupt string corrupt_detail
  | WriteConflict u64 u64
  | KeyIsLocked bytes u64
  | TxnLockNotFound u64
  | AlreadyRolledBack u64
  | AlreadyCommitted u64 u64
  | MissingValue u64
  | Misuse string

definition is_resolvable :: "txn_error \<Rightarrow> bool" where
  "is_resolvable e = (case e of KeyIsLocked _ _ \<Rightarrow> True | _ \<Rightarrow> False)"

type_synonym 'a txn_result = "('a, txn_error) result"

record lock_record =
  lk_kind :: kind
  lk_start_ts :: u64
  lk_ttl_ms :: u64
  lk_primary :: bytes
  lk_short_value :: "bytes option"

definition lock_record_new :: "kind \<Rightarrow> u64 \<Rightarrow> bytes \<Rightarrow> lock_record" where
  "lock_record_new k start_ts prim =
     \<lparr>lk_kind = k, lk_start_ts = start_ts, lk_ttl_ms = LOCK_TTL_MS, lk_primary = prim, lk_short_value = None\<rparr>"

definition lock_is_primary :: "lock_record \<Rightarrow> bytes \<Rightarrow> bool" where
  "lock_is_primary l user_key = (lk_primary l = user_key)"

record write_record =
  wr_kind :: kind
  wr_start_ts :: u64
  wr_short_value :: "bytes option"

definition write_record_new :: "kind \<Rightarrow> u64 \<Rightarrow> write_record" where
  "write_record_new k start_ts = \<lparr>wr_kind = k, wr_start_ts = start_ts, wr_short_value = None\<rparr>"

definition write_record_rollback :: "u64 \<Rightarrow> write_record" where
  "write_record_rollback start_ts = write_record_new KRollback start_ts"

definition put_short_value :: "bytes option \<Rightarrow> bytes" where
  "put_short_value v =
     (case v of
        None \<Rightarrow> [SHORT_VALUE_ABSENT]
      | Some b \<Rightarrow>
          [SHORT_VALUE_PRESENT, if length b \<le> 255 then word_of_nat (length b) else 255]
          @ take (min (length b) SHORT_VALUE_MAX_LEN) b)"

definition lock_encode :: "lock_record \<Rightarrow> bytes" where
  "lock_encode l =
     kind_as_u8 (lk_kind l) # put_u64 (lk_start_ts l) @ put_u64 (lk_ttl_ms l)
       @ put_u64 (length (lk_primary l)) @ lk_primary l @ put_short_value (lk_short_value l)"

definition write_encode :: "write_record \<Rightarrow> bytes" where
  "write_encode w = kind_as_u8 (wr_kind w) # put_u64 (wr_start_ts w) @ put_short_value (wr_short_value w)"

text \<open>The reader is a cursor; here it is the bytes still to read. Lengths are \<^verbatim>\<open>usize\<close>, 64 bits
  wide, so the conversion of a length never fails.\<close>

definition rd_kind :: "string \<Rightarrow> bytes \<Rightarrow> (kind \<times> bytes) txn_result" where
  "rd_kind what rest =
     (case rest of
        [] \<Rightarrow> Err (Corrupt what EmptyRecord)
      | tag # rest' \<Rightarrow>
          (case kind_from_u8 tag of
             None \<Rightarrow> Err (Corrupt what (UnknownKind tag))
           | Some k \<Rightarrow> Ok (k, rest')))"

definition rd_varint :: "string \<Rightarrow> string \<Rightarrow> bytes \<Rightarrow> (u64 \<times> bytes) txn_result" where
  "rd_varint what field rest =
     (case get_u64 rest of
        Err e \<Rightarrow> Err (Corrupt what (FieldVarint field e))
      | Ok (v, n) \<Rightarrow> Ok (v, drop n rest))"

definition rd_length_prefixed :: "string \<Rightarrow> string \<Rightarrow> bytes \<Rightarrow> (bytes \<times> bytes) txn_result" where
  "rd_length_prefixed what field rest0 =
     ok_then (rd_varint what field rest0) (\<lambda>(len, rest).
       if length rest < len then Err (Corrupt what (FieldBytesWanted field len (length rest)))
       else Ok (take len rest, drop len rest))"

definition rd_short_value :: "string \<Rightarrow> kind \<Rightarrow> bytes \<Rightarrow> (bytes option \<times> bytes) txn_result" where
  "rd_short_value what k rest0 =
     (case rest0 of
        [] \<Rightarrow> Err (Corrupt what NoShortValueMarker)
      | marker # rest1 \<Rightarrow>
          if marker = SHORT_VALUE_ABSENT then Ok (None, rest1)
          else if marker = SHORT_VALUE_PRESENT then
            if \<not> carries_a_value k then Err (Corrupt what (KindCarriesNoValue k))
            else
              (case rest1 of
                 [] \<Rightarrow> Err (Corrupt what NoShortValueLength)
               | l # rest \<Rightarrow>
                   let len = unat l in
                   if length rest < len then Err (Corrupt what (ShortValueWanted len (length rest)))
                   else Ok (Some (take len rest), drop len rest))
          else Err (Corrupt what (BadShortValueMarker marker)))"

definition rd_finish :: "string \<Rightarrow> bytes \<Rightarrow> unit txn_result" where
  "rd_finish what rest = (if rest = [] then Ok () else Err (Corrupt what (TrailingRecordBytes (length rest))))"

definition lock_decode :: "bytes \<Rightarrow> lock_record txn_result" where
  "lock_decode bs =
     ok_then (rd_kind ''lock'' bs) (\<lambda>(k, r0).
       if k = KRollback then Err (Corrupt ''lock'' RollbackIsNotALock)
       else
         ok_then (rd_varint ''lock'' ''start_ts'' r0) (\<lambda>(start_ts, r1).
         ok_then (rd_varint ''lock'' ''ttl_ms'' r1) (\<lambda>(ttl_ms, r2).
         ok_then (rd_length_prefixed ''lock'' ''primary'' r2) (\<lambda>(prim, r3).
           if prim = [] then Err (Corrupt ''lock'' LockWithNoPrimary)
           else
             ok_then (rd_short_value ''lock'' k r3) (\<lambda>(sv, r4).
             ok_then (rd_finish ''lock'' r4) (\<lambda>_.
               Ok \<lparr>lk_kind = k, lk_start_ts = start_ts, lk_ttl_ms = ttl_ms, lk_primary = prim,
                   lk_short_value = sv\<rparr>))))))"

definition write_decode :: "bytes \<Rightarrow> write_record txn_result" where
  "write_decode bs =
     ok_then (rd_kind ''write'' bs) (\<lambda>(k, r0).
     ok_then (rd_varint ''write'' ''start_ts'' r0) (\<lambda>(start_ts, r1).
     ok_then (rd_short_value ''write'' k r1) (\<lambda>(sv, r2).
     ok_then (rd_finish ''write'' r2) (\<lambda>_.
       Ok \<lparr>wr_kind = k, wr_start_ts = start_ts, wr_short_value = sv\<rparr>))))"

subsection \<open>Engine keys\<close>

definition TXN :: byte where "TXN = 0x78"
definition TS_SUFFIX_LEN :: nat where "TS_SUFFIX_LEN = FIXED_INT_SIZE"

definition key_lock :: "bytes \<Rightarrow> bytes" where
  "key_lock user_key = TXN # encode_bytes user_key"

definition key_prefix :: "bytes \<Rightarrow> bytes" where
  "key_prefix user_key = key_lock user_key"

definition key_versioned :: "bytes \<Rightarrow> u64 \<Rightarrow> bytes" where
  "key_versioned user_key ts = key_prefix user_key @ enc_ts ts"

definition key_write :: "bytes \<Rightarrow> u64 \<Rightarrow> bytes" where
  "key_write user_key commit_ts = key_versioned user_key commit_ts"

definition key_value_at :: "bytes \<Rightarrow> u64 \<Rightarrow> bytes" where
  "key_value_at user_key start_ts = key_versioned user_key start_ts"

definition key_seek_write :: "bytes \<Rightarrow> u64 \<Rightarrow> bytes" where
  "key_seek_write user_key ts = key_versioned user_key ts"

text \<open>The last byte, if there is one, incremented with saturation.\<close>

definition bump_last :: "bytes \<Rightarrow> bytes" where
  "bump_last bs = (if bs = [] then [] else butlast bs @ [if last bs = 255 then 255 else last bs + 1])"

definition version_range :: "bytes \<Rightarrow> bytes \<times> bytes" where
  "version_range user_key = (key_versioned user_key u64_max, bump_last (key_prefix user_key))"

definition key_split :: "bytes \<Rightarrow> (bytes \<times> u64) txn_result" where
  "key_split engine_key =
     (case engine_key of
        [] \<Rightarrow> Err (Corrupt ''key'' (NotInTxnNamespace engine_key))
      | b # rest0 \<Rightarrow>
          if b \<noteq> TXN then Err (Corrupt ''key'' (NotInTxnNamespace engine_key))
          else (case decode_bytes rest0 of
                  Err e \<Rightarrow> Err (Corrupt ''key'' (BadKey e))
                | Ok (user_key, rest) \<Rightarrow>
                    if length rest \<noteq> TS_SUFFIX_LEN then Err (Corrupt ''key'' (SuffixLength (length rest)))
                    else (case dec_ts rest of
                            Err e \<Rightarrow> Err (Corrupt ''key'' (BadKey e))
                          | Ok ts \<Rightarrow> Ok (user_key, ts))))"

definition key_split_lock :: "bytes \<Rightarrow> bytes txn_result" where
  "key_split_lock engine_key =
     (case engine_key of
        [] \<Rightarrow> Err (Corrupt ''key'' (NotInTxnNamespace engine_key))
      | b # rest0 \<Rightarrow>
          if b \<noteq> TXN then Err (Corrupt ''key'' (NotInTxnNamespace engine_key))
          else (case decode_bytes rest0 of
                  Err e \<Rightarrow> Err (Corrupt ''key'' (BadKey e))
                | Ok (user_key, rest) \<Rightarrow>
                    if rest \<noteq> [] then Err (Corrupt ''key'' (BytesAfterKey (length rest)))
                    else Ok user_key))"

subsection \<open>Write batches\<close>

datatype cf = CfLock | CfWrite | CfDefault

fun cf_name :: "cf \<Rightarrow> string" where
  "cf_name CfLock = ''lock''"
| "cf_name CfWrite = ''write''"
| "cf_name CfDefault = ''default''"

datatype mutation = MPut (mut_cf: cf) (mut_key: bytes) bytes | MDelete (mut_cf: cf) (mut_key: bytes)

type_synonym mutations = "mutation list"

definition put_lock :: "mutations \<Rightarrow> bytes \<Rightarrow> lock_record \<Rightarrow> mutations" where
  "put_lock ms user_key rec = ms @ [MPut CfLock (key_lock user_key) (lock_encode rec)]"

definition delete_lock :: "mutations \<Rightarrow> bytes \<Rightarrow> mutations" where
  "delete_lock ms user_key = ms @ [MDelete CfLock (key_lock user_key)]"

definition put_write :: "mutations \<Rightarrow> bytes \<Rightarrow> u64 \<Rightarrow> write_record \<Rightarrow> mutations" where
  "put_write ms user_key commit_ts rec = ms @ [MPut CfWrite (key_write user_key commit_ts) (write_encode rec)]"

definition put_value :: "mutations \<Rightarrow> bytes \<Rightarrow> u64 \<Rightarrow> bytes \<Rightarrow> mutations" where
  "put_value ms user_key start_ts v = ms @ [MPut CfDefault (key_value_at user_key start_ts) v]"

definition delete_value :: "mutations \<Rightarrow> bytes \<Rightarrow> u64 \<Rightarrow> mutations" where
  "delete_value ms user_key start_ts = ms @ [MDelete CfDefault (key_value_at user_key start_ts)]"

subsection \<open>Decoding is exact\<close>

definition short_ok :: "kind \<Rightarrow> bytes option \<Rightarrow> bool" where
  "short_ok k sv \<longleftrightarrow> (case sv of None \<Rightarrow> True | Some v \<Rightarrow> k = KPut \<and> length v \<le> SHORT_VALUE_MAX_LEN)"

definition lock_ok :: "lock_record \<Rightarrow> bool" where
  "lock_ok l \<longleftrightarrow> lk_kind l \<noteq> KRollback \<and> lk_start_ts l \<le> u64_max \<and> lk_ttl_ms l \<le> u64_max
     \<and> lk_primary l \<noteq> [] \<and> length (lk_primary l) \<le> u64_max \<and> short_ok (lk_kind l) (lk_short_value l)"

definition write_ok :: "write_record \<Rightarrow> bool" where
  "write_ok w \<longleftrightarrow> wr_start_ts w \<le> u64_max \<and> short_ok (wr_kind w) (wr_short_value w)"

lemma kind_from_u8_iff: "kind_from_u8 t = Some k \<longleftrightarrow> t = kind_as_u8 k"
  by (cases k) (auto simp: kind_from_u8_def)

lemma kind_from_as_u8 [simp]: "kind_from_u8 (kind_as_u8 k) = Some k"
  by (simp add: kind_from_u8_iff)

lemma kind_as_u8_inject [simp]: "kind_as_u8 a = kind_as_u8 b \<longleftrightarrow> a = b"
  by (metis kind_from_as_u8 option.inject)

lemma rd_kind_iff: "rd_kind what bs = Ok (k, r) \<longleftrightarrow> bs = kind_as_u8 k # r"
  by (auto simp: rd_kind_def kind_from_u8_iff split: list.splits option.splits)

lemma rd_varint_iff: "rd_varint what f bs = Ok (v, r) \<longleftrightarrow> v \<le> u64_max \<and> bs = put_u64 v @ r"
proof
  assume "rd_varint what f bs = Ok (v, r)"
  then obtain n where "get_u64 bs = Ok (v, n)" "r = drop n bs"
    by (auto simp: rd_varint_def split: result.splits)
  then show "v \<le> u64_max \<and> bs = put_u64 v @ r" by (metis append_take_drop_id get_u64_iff)
next
  assume "v \<le> u64_max \<and> bs = put_u64 v @ r"
  moreover from this have "get_u64 bs = Ok (v, length (put_u64 v))" by (simp add: get_u64_iff)
  ultimately show "rd_varint what f bs = Ok (v, r)" by (simp add: rd_varint_def)
qed

lemma rd_length_prefixed_iff:
  "rd_length_prefixed what f bs = Ok (p, r) \<longleftrightarrow> length p \<le> u64_max \<and> bs = put_u64 (length p) @ p @ r"
proof
  assume "rd_length_prefixed what f bs = Ok (p, r)"
  then obtain len rest where "rd_varint what f bs = Ok (len, rest)" "len \<le> length rest" "p = take len rest" "r = drop len rest"
    by (auto simp: rd_length_prefixed_def ok_then_Ok not_less split: if_splits)
  then show "length p \<le> u64_max \<and> bs = put_u64 (length p) @ p @ r" by (simp add: rd_varint_iff)
next
  assume "length p \<le> u64_max \<and> bs = put_u64 (length p) @ p @ r"
  then have "rd_varint what f bs = Ok (length p, p @ r)" by (simp add: rd_varint_iff)
  then show "rd_length_prefixed what f bs = Ok (p, r)" by (simp add: rd_length_prefixed_def)
qed

lemma rd_short_value_iff:
  "rd_short_value what k bs = Ok (sv, r) \<longleftrightarrow> short_ok k sv \<and> bs = put_short_value sv @ r"
proof (cases sv)
  case None
  then show ?thesis
    by (auto simp: rd_short_value_def short_ok_def put_short_value_def SHORT_VALUE_ABSENT_def SHORT_VALUE_PRESENT_def
        Let_def split: list.splits if_splits)
next
  case (Some v)
  have "rd_short_value what k bs = Ok (Some v, r) \<longleftrightarrow>
      (\<exists>l rest. bs = SHORT_VALUE_PRESENT # l # rest \<and> k = KPut \<and> unat l \<le> length rest \<and> v = take (unat l) rest \<and> r = drop (unat l) rest)"
    by (auto simp: rd_short_value_def SHORT_VALUE_ABSENT_def SHORT_VALUE_PRESENT_def Let_def split: list.splits if_splits)
  also have "\<dots> \<longleftrightarrow> k = KPut \<and> length v \<le> 255 \<and> bs = SHORT_VALUE_PRESENT # word_of_nat (length v) # v @ r"
  proof
    assume "\<exists>l rest. bs = SHORT_VALUE_PRESENT # l # rest \<and> k = KPut \<and> unat l \<le> length rest \<and> v = take (unat l) rest
        \<and> r = drop (unat l) rest"
    then obtain l rest where a: "bs = SHORT_VALUE_PRESENT # l # rest" "k = KPut" "unat l \<le> length rest"
        "v = take (unat l) rest" "r = drop (unat l) rest" by blast
    moreover have "unat l < 256" by (rule unat_byte_less)
    moreover have "length v = unat l" using a by simp
    ultimately show "k = KPut \<and> length v \<le> 255 \<and> bs = SHORT_VALUE_PRESENT # word_of_nat (length v) # v @ r" by simp
  next
    assume "k = KPut \<and> length v \<le> 255 \<and> bs = SHORT_VALUE_PRESENT # word_of_nat (length v) # v @ r"
    moreover from this have "unat (word_of_nat (length v) :: byte) = length v" by (simp add: unat_of_nat)
    ultimately show "\<exists>l rest. bs = SHORT_VALUE_PRESENT # l # rest \<and> k = KPut \<and> unat l \<le> length rest
        \<and> v = take (unat l) rest \<and> r = drop (unat l) rest"
      by (intro exI [of _ "word_of_nat (length v)"] exI [of _ "v @ r"]) simp
  qed
  finally show ?thesis
    unfolding Some by (auto simp: short_ok_def put_short_value_def SHORT_VALUE_MAX_LEN_def)
qed

lemma rd_finish_iff: "rd_finish what bs = Ok u \<longleftrightarrow> bs = []"
  by (simp add: rd_finish_def)

lemmas reader_iffs = ok_then_Ok rd_kind_iff rd_varint_iff rd_length_prefixed_iff rd_short_value_iff rd_finish_iff

lemma reader_simps [simp]:
  "rd_kind what (kind_as_u8 k # r) = Ok (k, r)"
  "v \<le> u64_max \<Longrightarrow> rd_varint what f (put_u64 v @ r) = Ok (v, r)"
  "length p \<le> u64_max \<Longrightarrow> rd_length_prefixed what f (put_u64 (length p) @ p @ r) = Ok (p, r)"
  "short_ok k sv \<Longrightarrow> rd_short_value what k (put_short_value sv) = Ok (sv, [])"
  "rd_finish what [] = Ok ()"
  by (simp_all add: rd_kind_iff rd_varint_iff rd_length_prefixed_iff rd_short_value_iff rd_finish_iff)

lemma write_decode_iff: "write_decode bs = Ok w \<longleftrightarrow> write_ok w \<and> bs = write_encode w"
proof
  show "write_decode bs = Ok w \<Longrightarrow> write_ok w \<and> bs = write_encode w"
    by (auto simp: write_decode_def write_ok_def write_encode_def reader_iffs split: prod.splits)
  show "write_ok w \<and> bs = write_encode w \<Longrightarrow> write_decode bs = Ok w"
    by (simp add: write_decode_def write_ok_def write_encode_def)
qed

lemma lock_decode_iff: "lock_decode bs = Ok l \<longleftrightarrow> lock_ok l \<and> bs = lock_encode l"
proof
  show "lock_decode bs = Ok l \<Longrightarrow> lock_ok l \<and> bs = lock_encode l"
    by (auto simp: lock_decode_def lock_ok_def lock_encode_def reader_iffs split: prod.splits if_splits)
  show "lock_ok l \<and> bs = lock_encode l \<Longrightarrow> lock_decode bs = Ok l"
    by (simp add: lock_decode_def lock_ok_def lock_encode_def)
qed

text \<open>C31. The record formats are exact: bytes decode to a lock or a write record exactly when they are
  the encoding of that record and the record is one the format defines (no rollback in the
  \<^verbatim>\<open>lock\<close> family, a primary that is not empty, an inline value only on a put and at most 255 bytes
  long). Every other byte string is refused.\<close>

theorem records_exact:
  "(lock_decode bs = Ok l \<longleftrightarrow> lock_ok l \<and> bs = lock_encode l)
   \<and> (write_decode bs = Ok w \<longleftrightarrow> write_ok w \<and> bs = write_encode w)"
  by (simp add: lock_decode_iff write_decode_iff)

subsection \<open>The order of engine keys\<close>

lemma key_lock_less: "key_lock a < key_lock b \<longleftrightarrow> a < b"
  using encode_bytes_less_iff [of a "[]" b "[]"] by (simp add: key_lock_def)

lemma key_lock_inject [simp]: "key_lock a = key_lock b \<longleftrightarrow> a = b"
  using encode_bytes_inject [of a "[]" b "[]"] by (simp add: key_lock_def)

lemma key_versioned_less:
  assumes "s \<le> u64_max" "t \<le> u64_max"
  shows "key_versioned a s < key_versioned b t \<longleftrightarrow> a < b \<or> a = b \<and> t < s"
  using assms by (simp add: key_versioned_def key_prefix_def key_lock_def encode_bytes_less_iff enc_ts_less)

lemma enc_ts_inject: "s \<le> u64_max \<Longrightarrow> t \<le> u64_max \<Longrightarrow> enc_ts s = enc_ts t \<longleftrightarrow> s = t"
  by (metis dec_ts_enc_ts result.inject(1))

lemma key_versioned_inject:
  "s \<le> u64_max \<Longrightarrow> t \<le> u64_max \<Longrightarrow> key_versioned a s = key_versioned b t \<longleftrightarrow> a = b \<and> s = t"
  by (simp add: key_versioned_def key_prefix_def key_lock_def encode_bytes_inject enc_ts_inject)

lemma key_split_iff: "key_split x = Ok (k, t) \<longleftrightarrow> t \<le> u64_max \<and> x = key_versioned k t"
proof
  show "key_split x = Ok (k, t) \<Longrightarrow> t \<le> u64_max \<and> x = key_versioned k t"
    using dec_ts_Ok [of _ t]
    by (auto simp: key_split_def key_versioned_def key_prefix_def key_lock_def decode_bytes_Ok TS_SUFFIX_LEN_def
        FIXED_INT_SIZE_def split: list.splits if_splits result.splits prod.splits)
  show "t \<le> u64_max \<and> x = key_versioned k t \<Longrightarrow> key_split x = Ok (k, t)"
    by (simp add: key_split_def key_versioned_def key_prefix_def key_lock_def TS_SUFFIX_LEN_def FIXED_INT_SIZE_def
        dec_ts_enc_ts)
qed

lemma key_split_lock_iff: "key_split_lock x = Ok k \<longleftrightarrow> x = key_lock k"
proof
  show "key_split_lock x = Ok k \<Longrightarrow> x = key_lock k"
    by (auto simp: key_split_lock_def key_lock_def decode_bytes_Ok
        split: list.splits if_splits result.splits prod.splits)
  have "decode_bytes (encode_bytes k) = Ok (k, [])" by (simp add: decode_bytes_Ok)
  then show "x = key_lock k \<Longrightarrow> key_split_lock x = Ok k" by (simp add: key_split_lock_def key_lock_def)
qed

lemma last_encode_bytes: "encode_bytes v \<noteq> [] \<and> last (encode_bytes v) \<noteq> 255"
proof (induction v rule: encode_bytes.induct)
  case (1 v)
  show ?case
  proof (cases "8 \<le> length v")
    case True
    with 1 show ?thesis by (subst (1 2) encode_bytes.simps) (simp add: GROUP_SIZE_def)
  next
    case False
    then have "unat (word_of_nat (8 - length v) :: byte) = 8 - length v" by (simp only: unat_of_nat) simp
    with False have "(word_of_nat (8 - length v) :: byte) \<noteq> 0" by (metis diff_is_0_eq unat_0)
    then have "MARKER_FULL - word_of_nat (8 - length v) \<noteq> 255"
      by (auto simp: MARKER_FULL_def)
    with False show ?thesis by (subst (1 2) encode_bytes.simps) (simp add: GROUP_SIZE_def Let_def)
  qed
qed

lemma less_bump_last:
  assumes "p \<noteq> []" "last p \<noteq> 255"
  shows "x < bump_last p \<longleftrightarrow> x < p \<or> (\<exists>w. x = p @ w)"
proof -
  have "x < q @ [b + 1] \<longleftrightarrow> x < q @ [b] \<or> (\<exists>w. x = (q @ [b]) @ w)" if b: "b \<noteq> 255" for q and b :: byte
  proof (induction q arbitrary: x)
    case Nil
    have "unat b \<noteq> 255" using b by (metis of_nat_numeral of_nat_unat ucast_id)
    then have "unat (b + 1) = unat b + 1" using unat_byte_less [of b] by (simp add: unat_word_ariths)
    then have less: "c < b + 1 \<longleftrightarrow> c \<le> b" for c
      by (simp add: word_less_nat_alt word_le_nat_alt less_Suc_eq_le)
    then show ?case by (cases x) (auto simp: order_le_less)
  next
    case (Cons a q)
    then show ?case by (cases x) auto
  qed
  from this [OF assms(2), of "butlast p"] assms show ?thesis by (simp add: bump_last_def)
qed

lemma key_prefix_last: "key_prefix k \<noteq> []" "last (key_prefix k) \<noteq> 255"
  using last_encode_bytes [of k] by (simp_all add: key_prefix_def key_lock_def)

lemma versioned_below_range_end:
  "key_versioned k' t < snd (version_range k) \<longleftrightarrow> k' \<le> k"
proof -
  have "key_versioned k' t < key_prefix k \<longleftrightarrow> k' < k"
    using encode_bytes_less_iff [of k' "enc_ts t" k "[]"] by (simp add: key_versioned_def key_prefix_def key_lock_def)
  moreover have "(\<exists>w. key_versioned k' t = key_prefix k @ w) \<longleftrightarrow> k' = k"
    by (auto simp: key_versioned_def key_prefix_def key_lock_def encode_bytes_inject)
  ultimately show ?thesis
    by (auto simp: version_range_def less_bump_last [OF key_prefix_last])
qed

lemma versioned_above_range_start:
  "t \<le> u64_max \<Longrightarrow> fst (version_range k) \<le> key_versioned k' t \<longleftrightarrow> k \<le> k'"
  by (auto simp: version_range_def not_less [symmetric] key_versioned_less)

lemma in_version_range:
  "t \<le> u64_max \<Longrightarrow>
   fst (version_range k) \<le> key_versioned k' t \<and> key_versioned k' t < snd (version_range k) \<longleftrightarrow> k' = k"
  by (auto simp: versioned_below_range_end versioned_above_range_start)

text \<open>C32. In the \<^verbatim>\<open>write\<close> and \<^verbatim>\<open>default\<close> families the versions of a key are contiguous and newest first: the
  engine order of version keys is ascending in the user key and descending in the timestamp, the range
  of a key holds every version of that key and of no other key, and a version key splits back into
  exactly its user key and timestamp.\<close>

theorem versions_newest_first:
  assumes "s \<le> u64_max" "t \<le> u64_max"
  shows "(key_write a s < key_write b t \<longleftrightarrow> a < b \<or> a = b \<and> t < s)
    \<and> (fst (version_range a) \<le> key_write b t \<and> key_write b t < snd (version_range a) \<longleftrightarrow> a = b)
    \<and> key_split (key_write b t) = Ok (b, t)"
  using assms key_versioned_less [OF assms] in_version_range [OF assms(2), of a b]
  by (auto simp: key_write_def key_split_iff)

theorem versions_newest_first_witness:
  "key_write [0, 1] 9 < key_write [0, 1] 8 \<and> \<not> key_write [0, 1] 8 < snd (version_range [0])
   \<and> key_split (key_write [0, 1] 8) = Ok ([0, 1], 8)"
proof -
  have ts: "(9::nat) \<le> u64_max" "(8::nat) \<le> u64_max" by (simp_all add: u64_max_def)
  have "fst (version_range [0]) \<le> key_write [0, 1] 8"
    using versioned_above_range_start [OF ts(2), of "[0]" "[0, 1]"] by (simp add: key_write_def)
  then show ?thesis
    using versions_newest_first [OF ts, of "[0, 1]" "[0, 1]"] versions_newest_first [OF ts, of "[0]" "[0, 1]"]
    by auto
qed

end
