(* ===== verification/BTree.thy ===== *)
theory BTree
  imports Prelude
begin

text \<open>
  Ordered maps. The sources keep ordered maps as \<^verbatim>\<open>BTreeMap\<close>s and walk them in key order; here such a
  map is the list of its entries in strictly ascending key order. The operations are those the sources
  use: \<^verbatim>\<open>get\<close> (\<^term>\<open>map_of\<close>), \<^verbatim>\<open>insert\<close>, \<^verbatim>\<open>remove\<close> and \<^verbatim>\<open>range\<close> over a half-open interval.
\<close>

section \<open>Ordered maps\<close>

type_synonym ('k, 'v) btree = "('k \<times> 'v) list"

fun bt_insert :: "'k::linorder \<Rightarrow> 'v \<Rightarrow> ('k, 'v) btree \<Rightarrow> ('k, 'v) btree" where
  "bt_insert k v [] = [(k, v)]"
| "bt_insert k v ((a, b) # m) =
     (if k < a then (k, v) # (a, b) # m else if k = a then (k, v) # m else (a, b) # bt_insert k v m)"

definition bt_remove :: "'k \<Rightarrow> ('k, 'v) btree \<Rightarrow> ('k, 'v) btree" where
  "bt_remove k m = filter (\<lambda>(a, _). a \<noteq> k) m"

definition bt_from :: "'k::linorder \<Rightarrow> ('k, 'v) btree \<Rightarrow> ('k, 'v) btree" where
  "bt_from lo m = dropWhile (\<lambda>(a, _). a < lo) m"

definition bt_range :: "'k::linorder \<Rightarrow> 'k \<Rightarrow> ('k, 'v) btree \<Rightarrow> ('k, 'v) btree" where
  "bt_range lo hi m = takeWhile (\<lambda>(a, _). a < hi) (bt_from lo m)"

definition bt_ok :: "('k::linorder, 'v) btree \<Rightarrow> bool" where
  "bt_ok m \<longleftrightarrow> sorted_wrt (<) (map fst m)"

lemma bt_ok_simps [simp]: "bt_ok []" "bt_ok ((a, b) # m) \<longleftrightarrow> (\<forall>(k, _) \<in> set m. a < k) \<and> bt_ok m"
  by (auto simp: bt_ok_def)

lemma bt_ok_distinct: "bt_ok m \<Longrightarrow> distinct (map fst m)"
  by (auto simp: bt_ok_def strict_sorted_iff)

lemma set_bt_insert: "bt_ok m \<Longrightarrow> set (bt_insert k v m) = insert (k, v) {e \<in> set m. fst e \<noteq> k}"
  by (induction k v m rule: bt_insert.induct) auto

lemma bt_ok_insert [simp]: "bt_ok m \<Longrightarrow> bt_ok (bt_insert k v m)"
  by (induction k v m rule: bt_insert.induct) (auto simp: set_bt_insert)

lemma map_of_bt_insert [simp]: "bt_ok m \<Longrightarrow> map_of (bt_insert k v m) = (map_of m)(k \<mapsto> v)"
proof (induction k v m rule: bt_insert.induct)
  case (2 k v a b m)
  then show ?case by (cases k a rule: linorder_cases) (auto simp: fun_eq_iff)
qed simp

lemma set_bt_remove: "set (bt_remove k m) = {e \<in> set m. fst e \<noteq> k}"
  by (auto simp: bt_remove_def)

lemma bt_ok_remove [simp]: "bt_ok m \<Longrightarrow> bt_ok (bt_remove k m)"
  by (induction m) (auto simp: bt_remove_def)

lemma map_of_bt_remove [simp]: "map_of (bt_remove k m) = (map_of m)(k := None)"
  by (induction m) (auto simp: bt_remove_def fun_eq_iff)

lemma bt_from_filter: "bt_ok m \<Longrightarrow> bt_from lo m = filter (\<lambda>(a, _). lo \<le> a) m"
proof (induction m)
  case (Cons e m)
  obtain a b where e: "e = (a, b)" by fastforce
  show ?case
  proof (cases "a < lo")
    case True
    with Cons e show ?thesis by (simp add: bt_from_def)
  next
    case False
    with Cons.prems e have "filter (\<lambda>(a, _). lo \<le> a) m = m" by (intro filter_True) auto
    with False e show ?thesis by (simp add: bt_from_def)
  qed
qed (simp add: bt_from_def)

lemma bt_ok_filter [simp]: "bt_ok m \<Longrightarrow> bt_ok (filter P m)"
  by (induction m) auto

lemma takeWhile_below: "bt_ok m \<Longrightarrow> takeWhile (\<lambda>(a, _). a < hi) m = filter (\<lambda>(a, _). a < hi) m"
proof (induction m)
  case (Cons e m)
  obtain a b where e: "e = (a, b)" by fastforce
  show ?case
  proof (cases "a < hi")
    case False
    with Cons.prems e have "filter (\<lambda>(a, _). a < hi) m = []" by (force simp: filter_empty_conv)
    with False e show ?thesis by simp
  qed (use Cons e in simp)
qed simp

lemma bt_range_filter: "bt_ok m \<Longrightarrow> bt_range lo hi m = filter (\<lambda>(a, _). lo \<le> a \<and> a < hi) m"
  by (simp add: bt_range_def bt_from_filter takeWhile_below filter_filter) (auto intro!: filter_cong)

lemma map_of_bt_in: "bt_ok m \<Longrightarrow> map_of m k = Some v \<longleftrightarrow> (k, v) \<in> set m"
  by (simp add: bt_ok_distinct)

end
