(* ===== verification/TxnSnapshot.thy ===== *)
theory TxnSnapshot
  imports TxnCodec BTree
begin

text \<open>
  The questions the transaction protocol asks of stored state (\<^verbatim>\<open>esker-txn/src/snapshot.rs\<close>) and the two
  implementations of them: \<^verbatim>\<open>MemoryStore\<close>, three ordered maps keyed by engine keys, and
  \<^verbatim>\<open>EngineSnapshot\<close> (\<^verbatim>\<open>esker-store/src/txnkv.rs\<close>), which walks the iterators of an engine. The trait is a
  record of methods; its contract is the locale \<^verbatim>\<open>txn_view\<close>, stated over the lock, the write records and
  the values that a store holds for a user key, and both implementations are shown to meet it. The
  engine is a record of its read methods at a pinned snapshot, where every call may fail.
\<close>

section \<open>The trait\<close>

record version =
  vn_commit_ts :: u64
  vn_record :: write_record

definition version_new :: "u64 \<Rightarrow> write_record \<Rightarrow> version" where
  "version_new c w = \<lparr>vn_commit_ts = c, vn_record = w\<rparr>"

lemma version_new_simps [simp]:
  "version_new (vn_commit_ts v) (vn_record v) = v" "vn_commit_ts (version_new c w) = c" "vn_record (version_new c w) = w"
  by (simp_all add: version_new_def)

text \<open>A scan that reseeks the iterator may run for ever on an engine that breaks its contract, so the
  range question answers an option: None is a call that does not return.\<close>

record txn_snapshot =
  ts_get_lock :: "bytes \<Rightarrow> lock_record option txn_result"
  ts_seek_write :: "bytes \<Rightarrow> u64 \<Rightarrow> version option txn_result"
  ts_newest_write_after :: "bytes \<Rightarrow> u64 \<Rightarrow> version option txn_result"
  ts_newest_write_in_range :: "bytes \<Rightarrow> bytes \<Rightarrow> u64 \<Rightarrow> version option txn_result option"
  ts_foreign_lock_in_range :: "bytes \<Rightarrow> bytes \<Rightarrow> u64 \<Rightarrow> (bytes \<times> lock_record) option txn_result"
  ts_write_of_txn :: "bytes \<Rightarrow> u64 \<Rightarrow> version option txn_result"
  ts_get_value :: "bytes \<Rightarrow> u64 \<Rightarrow> bytes option txn_result"

definition default_newest_write_in_range :: "bytes \<Rightarrow> bytes \<Rightarrow> u64 \<Rightarrow> version option txn_result option" where
  "default_newest_write_in_range start end' ts = Some (Ok None)"

definition opt_decode :: "('a \<Rightarrow> 'b txn_result) \<Rightarrow> 'a option \<Rightarrow> 'b option txn_result" where
  "opt_decode f x = (case x of None \<Rightarrow> Ok None | Some a \<Rightarrow> ok_then (f a) (\<lambda>b. Ok (Some b)))"

lemma opt_decode_simps [simp]:
  "opt_decode f None = Ok None" "opt_decode f (Some a) = ok_then (f a) (\<lambda>b. Ok (Some b))"
  by (simp_all add: opt_decode_def)

section \<open>The in-memory store\<close>

record memory_store =
  ms_lock :: "(bytes, bytes) btree"
  ms_write :: "(bytes, bytes) btree"
  ms_default :: "(bytes, bytes) btree"

definition mem_store_new :: memory_store where
  "mem_store_new = \<lparr>ms_lock = [], ms_write = [], ms_default = []\<rparr>"

fun mem_cf :: "memory_store \<Rightarrow> cf \<Rightarrow> (bytes, bytes) btree" where
  "mem_cf m CfLock = ms_lock m"
| "mem_cf m CfWrite = ms_write m"
| "mem_cf m CfDefault = ms_default m"

fun mem_cf_mut :: "memory_store \<Rightarrow> cf \<Rightarrow> ((bytes, bytes) btree \<Rightarrow> (bytes, bytes) btree) \<Rightarrow> memory_store" where
  "mem_cf_mut m CfLock f = m\<lparr>ms_lock := f (ms_lock m)\<rparr>"
| "mem_cf_mut m CfWrite f = m\<lparr>ms_write := f (ms_write m)\<rparr>"
| "mem_cf_mut m CfDefault f = m\<lparr>ms_default := f (ms_default m)\<rparr>"

fun mem_apply_one :: "memory_store \<Rightarrow> mutation \<Rightarrow> memory_store" where
  "mem_apply_one m (MPut c key v) = mem_cf_mut m c (bt_insert key v)"
| "mem_apply_one m (MDelete c key) = mem_cf_mut m c (bt_remove key)"

definition mem_apply :: "memory_store \<Rightarrow> mutations \<Rightarrow> memory_store" where
  "mem_apply m ms = foldl mem_apply_one m ms"

definition mem_len :: "memory_store \<Rightarrow> cf \<Rightarrow> nat" where
  "mem_len m c = length (mem_cf m c)"

definition mem_is_empty :: "memory_store \<Rightarrow> cf \<Rightarrow> bool" where
  "mem_is_empty m c \<longleftrightarrow> mem_cf m c = []"

definition mem_put_raw :: "memory_store \<Rightarrow> cf \<Rightarrow> bytes \<Rightarrow> bytes \<Rightarrow> memory_store" where
  "mem_put_raw m c key v = mem_cf_mut m c (bt_insert key v)"

definition decode_version :: "bytes \<times> bytes \<Rightarrow> version txn_result" where
  "decode_version e =
     ok_then (key_split (fst e)) (\<lambda>(_, c). ok_then (write_decode (snd e)) (\<lambda>w. Ok (version_new c w)))"

definition mem_versions :: "memory_store \<Rightarrow> bytes \<Rightarrow> version txn_result list" where
  "mem_versions m user_key =
     (let (start, end') = version_range user_key in map decode_version (bt_range start end' (ms_write m)))"

definition mem_get_lock :: "memory_store \<Rightarrow> bytes \<Rightarrow> lock_record option txn_result" where
  "mem_get_lock m user_key = opt_decode lock_decode (map_of (ms_lock m) (key_lock user_key))"

fun mem_foreign_loop :: "u64 \<Rightarrow> (bytes, bytes) btree \<Rightarrow> (bytes \<times> lock_record) option txn_result" where
  "mem_foreign_loop mine [] = Ok None"
| "mem_foreign_loop mine ((key, v) # es) =
     ok_then (lock_decode v) (\<lambda>rec.
       if lk_start_ts rec \<noteq> mine then ok_then (key_split_lock key) (\<lambda>k. Ok (Some (k, rec)))
       else mem_foreign_loop mine es)"

definition mem_foreign_lock_in_range ::
  "memory_store \<Rightarrow> bytes \<Rightarrow> bytes \<Rightarrow> u64 \<Rightarrow> (bytes \<times> lock_record) option txn_result" where
  "mem_foreign_lock_in_range m start end' mine =
     (if end' \<le> start then Ok None
      else mem_foreign_loop mine (bt_range (key_lock start) (key_lock end') (ms_lock m)))"

definition mem_seek_write :: "memory_store \<Rightarrow> bytes \<Rightarrow> u64 \<Rightarrow> version option txn_result" where
  "mem_seek_write m user_key ts =
     (case bt_range (key_seek_write user_key ts) (snd (version_range user_key)) (ms_write m) of
        [] \<Rightarrow> Ok None
      | e # _ \<Rightarrow> ok_then (decode_version e) (\<lambda>v. Ok (Some v)))"

fun mem_after_loop :: "u64 \<Rightarrow> version txn_result list \<Rightarrow> version option txn_result" where
  "mem_after_loop ts [] = Ok None"
| "mem_after_loop ts (r # rs) =
     ok_then r (\<lambda>v.
       if vn_commit_ts v \<le> ts then Ok None
       else if wr_kind (vn_record v) \<notin> {KRollback, KLock} then Ok (Some v)
       else mem_after_loop ts rs)"

definition mem_newest_write_after :: "memory_store \<Rightarrow> bytes \<Rightarrow> u64 \<Rightarrow> version option txn_result" where
  "mem_newest_write_after m user_key ts = mem_after_loop ts (mem_versions m user_key)"

fun mem_txn_loop :: "u64 \<Rightarrow> version txn_result list \<Rightarrow> version option txn_result" where
  "mem_txn_loop start_ts [] = Ok None"
| "mem_txn_loop start_ts (r # rs) =
     ok_then r (\<lambda>v.
       if vn_commit_ts v < start_ts then Ok None
       else if wr_start_ts (vn_record v) = start_ts then Ok (Some v)
       else mem_txn_loop start_ts rs)"

definition mem_write_of_txn :: "memory_store \<Rightarrow> bytes \<Rightarrow> u64 \<Rightarrow> version option txn_result" where
  "mem_write_of_txn m user_key start_ts = mem_txn_loop start_ts (mem_versions m user_key)"

definition mem_get_value :: "memory_store \<Rightarrow> bytes \<Rightarrow> u64 \<Rightarrow> bytes option txn_result" where
  "mem_get_value m user_key start_ts = Ok (map_of (ms_default m) (key_value_at user_key start_ts))"

definition memory_snapshot :: "memory_store \<Rightarrow> txn_snapshot" where
  "memory_snapshot m =
     \<lparr>ts_get_lock = mem_get_lock m, ts_seek_write = mem_seek_write m,
      ts_newest_write_after = mem_newest_write_after m,
      ts_newest_write_in_range = default_newest_write_in_range,
      ts_foreign_lock_in_range = mem_foreign_lock_in_range m,
      ts_write_of_txn = mem_write_of_txn m, ts_get_value = mem_get_value m\<rparr>"

section \<open>The engine snapshot\<close>

text \<open>The reads of an engine at a pinned snapshot: a point get, opening an iterator, and what an iterator
  of a column family yields from a seek target on, with the status it reports after each number of steps
  (a merge of sources goes on yielding entries when one source has failed), and the number a column
  family is registered under. Errors are their text.\<close>

record engine =
  en_get :: "cf \<Rightarrow> bytes \<Rightarrow> (bytes option, string) result"
  en_iter :: "cf \<Rightarrow> (unit, string) result"
  en_seek :: "cf \<Rightarrow> bytes \<Rightarrow> (bytes \<times> bytes) list \<times> (nat \<Rightarrow> string option)"
  en_cf_id :: "cf \<Rightarrow> nat option"

definition storage :: "string \<Rightarrow> txn_error" where
  "storage e = Corrupt ''engine'' (EngineText e)"

fun map_storage :: "('a, string) result \<Rightarrow> 'a txn_result" where
  "map_storage (Ok a) = Ok a"
| "map_storage (Err e) = Err (storage e)"

fun iter_status :: "string option \<Rightarrow> unit txn_result" where
  "iter_status None = Ok ()"
| "iter_status (Some e) = Err (storage e)"

definition starts_with :: "bytes \<Rightarrow> bytes \<Rightarrow> bool" where
  "starts_with p key \<longleftrightarrow> take (length p) key = p"

fun walk_loop :: "bytes \<Rightarrow> u64 \<Rightarrow> (version \<Rightarrow> 'a option) \<Rightarrow> (bytes \<times> bytes) list \<Rightarrow> (nat \<Rightarrow> string option) \<Rightarrow> 'a option txn_result" where
  "walk_loop pre stop_below tk [] st = ok_then (iter_status (st 0)) (\<lambda>_. Ok None)"
| "walk_loop pre stop_below tk ((key, v) # es) st =
     (if \<not> starts_with pre key then ok_then (iter_status (st 0)) (\<lambda>_. Ok None)
      else ok_then (key_split key) (\<lambda>(_, commit_ts).
        if commit_ts < stop_below then ok_then (iter_status (st 0)) (\<lambda>_. Ok None)
        else ok_then (write_decode v) (\<lambda>rec.
          case tk (version_new commit_ts rec) of
            Some found \<Rightarrow> Ok (Some found)
          | None \<Rightarrow> walk_loop pre stop_below tk es (\<lambda>i. st (Suc i)))))"

definition eng_walk :: "engine \<Rightarrow> bytes \<Rightarrow> u64 \<Rightarrow> u64 \<Rightarrow> (version \<Rightarrow> 'a option) \<Rightarrow> 'a option txn_result" where
  "eng_walk db user_key from_ts stop_below tk =
     ok_then (map_storage (en_iter db CfWrite)) (\<lambda>_.
       let (es, st) = en_seek db CfWrite (key_seek_write user_key from_ts)
       in walk_loop (key_prefix user_key) stop_below tk es st)"

definition eng_get :: "engine \<Rightarrow> cf \<Rightarrow> bytes \<Rightarrow> bytes option txn_result" where
  "eng_get db c key = map_storage (en_get db c key)"

definition eng_get_lock :: "engine \<Rightarrow> bytes \<Rightarrow> lock_record option txn_result" where
  "eng_get_lock db user_key = ok_then (eng_get db CfLock (key_lock user_key)) (opt_decode lock_decode)"

definition eng_seek_write :: "engine \<Rightarrow> bytes \<Rightarrow> u64 \<Rightarrow> version option txn_result" where
  "eng_seek_write db user_key ts = eng_walk db user_key ts 0 Some"

definition eng_newest_write_after :: "engine \<Rightarrow> bytes \<Rightarrow> u64 \<Rightarrow> version option txn_result" where
  "eng_newest_write_after db user_key ts =
     eng_walk db user_key u64_max (sat_add ts 1)
       (\<lambda>v. if wr_kind (vn_record v) \<notin> {KRollback, KLock} then Some v else None)"

text \<open>The phantom scan: a marker is stepped past entry by entry, a key whose newest record is at or below
  the timestamp is skipped as a whole by reseeking past its version range.\<close>

partial_function (option) range_loop ::
  "engine \<Rightarrow> bytes \<Rightarrow> u64 \<Rightarrow> (bytes \<times> bytes) list \<Rightarrow> (nat \<Rightarrow> string option) \<Rightarrow> version option txn_result option" where
  "range_loop db upper ts es st =
     (case es of
        [] \<Rightarrow> Some (ok_then (iter_status (st 0)) (\<lambda>_. Ok None))
      | e # rest \<Rightarrow>
          if upper \<le> fst e then Some (ok_then (iter_status (st 0)) (\<lambda>_. Ok None))
          else (case key_split (fst e) of
                  Err x \<Rightarrow> Some (Err x)
                | Ok p \<Rightarrow>
                    if ts < snd p then
                      (case write_decode (snd e) of
                         Err x \<Rightarrow> Some (Err x)
                       | Ok rec \<Rightarrow>
                           if wr_kind rec \<noteq> KRollback then Some (Ok (Some (version_new (snd p) rec)))
                           else range_loop db upper ts rest (\<lambda>i. st (Suc i)))
                    else (let r = en_seek db CfWrite (snd (version_range (fst p)))
                          in range_loop db upper ts (fst r) (snd r))))"

definition eng_newest_write_in_range :: "engine \<Rightarrow> bytes \<Rightarrow> bytes \<Rightarrow> u64 \<Rightarrow> version option txn_result option" where
  "eng_newest_write_in_range db start end' ts =
     (if end' \<le> start then Some (Ok None)
      else (case map_storage (en_iter db CfWrite) of
              Err x \<Rightarrow> Some (Err x)
            | Ok _ \<Rightarrow>
                let r = en_seek db CfWrite (key_prefix start)
                in range_loop db (key_prefix end') ts (fst r) (snd r)))"

fun foreign_loop :: "bytes \<Rightarrow> u64 \<Rightarrow> (bytes \<times> bytes) list \<Rightarrow> (nat \<Rightarrow> string option) \<Rightarrow> (bytes \<times> lock_record) option txn_result" where
  "foreign_loop upper mine [] st = ok_then (iter_status (st 0)) (\<lambda>_. Ok None)"
| "foreign_loop upper mine ((key, v) # es) st =
     (if upper \<le> key then ok_then (iter_status (st 0)) (\<lambda>_. Ok None)
      else ok_then (lock_decode v) (\<lambda>rec.
        if lk_start_ts rec \<noteq> mine then ok_then (key_split_lock key) (\<lambda>k. Ok (Some (k, rec)))
        else foreign_loop upper mine es (\<lambda>i. st (Suc i))))"

definition eng_foreign_lock_in_range ::
  "engine \<Rightarrow> bytes \<Rightarrow> bytes \<Rightarrow> u64 \<Rightarrow> (bytes \<times> lock_record) option txn_result" where
  "eng_foreign_lock_in_range db start end' mine =
     (if end' \<le> start then Ok None
      else ok_then (map_storage (en_iter db CfLock)) (\<lambda>_.
        let (es, st) = en_seek db CfLock (key_prefix start) in foreign_loop (key_prefix end') mine es st))"

definition eng_write_of_txn :: "engine \<Rightarrow> bytes \<Rightarrow> u64 \<Rightarrow> version option txn_result" where
  "eng_write_of_txn db user_key start_ts =
     eng_walk db user_key u64_max start_ts
       (\<lambda>v. if wr_start_ts (vn_record v) = start_ts then Some v else None)"

definition eng_get_value :: "engine \<Rightarrow> bytes \<Rightarrow> u64 \<Rightarrow> bytes option txn_result" where
  "eng_get_value db user_key start_ts = eng_get db CfDefault (key_value_at user_key start_ts)"

definition engine_snapshot :: "engine \<Rightarrow> txn_snapshot" where
  "engine_snapshot db =
     \<lparr>ts_get_lock = eng_get_lock db, ts_seek_write = eng_seek_write db,
      ts_newest_write_after = eng_newest_write_after db,
      ts_newest_write_in_range = eng_newest_write_in_range db,
      ts_foreign_lock_in_range = eng_foreign_lock_in_range db,
      ts_write_of_txn = eng_write_of_txn db, ts_get_value = eng_get_value db\<rparr>"

section \<open>What a store holds for a user key\<close>

definition lock_at :: "memory_store \<Rightarrow> bytes \<Rightarrow> lock_record option" where
  "lock_at m k =
     (case map_of (ms_lock m) (key_lock k) of
        None \<Rightarrow> None
      | Some b \<Rightarrow> (case lock_decode b of Ok l \<Rightarrow> Some l | Err _ \<Rightarrow> None))"

definition write_at :: "memory_store \<Rightarrow> bytes \<Rightarrow> u64 \<Rightarrow> write_record option" where
  "write_at m k c =
     (if u64_max < c then None
      else case map_of (ms_write m) (key_write k c) of
             None \<Rightarrow> None
           | Some b \<Rightarrow> (case write_decode b of Ok w \<Rightarrow> Some w | Err _ \<Rightarrow> None))"

definition value_at :: "memory_store \<Rightarrow> bytes \<Rightarrow> u64 \<Rightarrow> bytes option" where
  "value_at m k s = (if u64_max < s then None else map_of (ms_default m) (key_value_at k s))"

definition lock_entry :: "bytes \<Rightarrow> lock_record \<Rightarrow> bytes \<times> bytes" where
  "lock_entry k l = (key_lock k, lock_encode l)"

definition version_entry :: "bytes \<Rightarrow> version \<Rightarrow> bytes \<times> bytes" where
  "version_entry k v = (key_write k (vn_commit_ts v), write_encode (vn_record v))"

definition version_ok :: "version \<Rightarrow> bool" where
  "version_ok v \<longleftrightarrow> vn_commit_ts v \<le> u64_max \<and> write_ok (vn_record v)"

definition store_ok :: "memory_store \<Rightarrow> bool" where
  "store_ok m \<longleftrightarrow>
     bt_ok (ms_lock m) \<and> bt_ok (ms_write m) \<and> bt_ok (ms_default m)
     \<and> (\<forall>e \<in> set (ms_lock m). \<exists>k l. lock_ok l \<and> e = lock_entry k l)
     \<and> (\<forall>e \<in> set (ms_write m). \<exists>k v. version_ok v \<and> e = version_entry k v)
     \<and> (\<forall>e \<in> set (ms_default m). \<exists>k s b. s \<le> u64_max \<and> e = (key_value_at k s, b))"

text \<open>The record a question about the newest version asks for: the one with the greatest commit timestamp
  among those that satisfy a condition.\<close>

definition newest_where ::
  "(u64 \<Rightarrow> write_record option) \<Rightarrow> (u64 \<Rightarrow> write_record \<Rightarrow> bool) \<Rightarrow> version option \<Rightarrow> bool" where
  "newest_where W P r \<longleftrightarrow>
     (case r of
        None \<Rightarrow> \<forall>c w. W c = Some w \<longrightarrow> \<not> P c w
      | Some v \<Rightarrow> W (vn_commit_ts v) = Some (vn_record v) \<and> P (vn_commit_ts v) (vn_record v)
                   \<and> (\<forall>c w. W c = Some w \<longrightarrow> P c w \<longrightarrow> c \<le> vn_commit_ts v))"

lemma newest_where_unique: "newest_where W P r \<Longrightarrow> newest_where W P r' \<Longrightarrow> r = r'"
  by (cases r; cases r') (auto simp: newest_where_def intro!: version.equality order.antisym, metis order.antisym option.inject)

locale txn_view =
  fixes snap :: "'s \<Rightarrow> txn_snapshot"
    and ok :: "'s \<Rightarrow> bool"
    and lk :: "'s \<Rightarrow> bytes \<Rightarrow> lock_record option"
    and wr :: "'s \<Rightarrow> bytes \<Rightarrow> u64 \<Rightarrow> write_record option"
    and vl :: "'s \<Rightarrow> bytes \<Rightarrow> u64 \<Rightarrow> bytes option"
  assumes get_lock: "ok s \<Longrightarrow> ts_get_lock (snap s) k = Ok (lk s k)"
    and seek_write: "ok s \<Longrightarrow> ts \<le> u64_max \<Longrightarrow>
      \<exists>r. ts_seek_write (snap s) k ts = Ok r \<and> newest_where (wr s k) (\<lambda>c w. c \<le> ts) r"
    and newest_write_after: "ok s \<Longrightarrow> ts < u64_max \<Longrightarrow>
      \<exists>r. ts_newest_write_after (snap s) k ts = Ok r
        \<and> newest_where (wr s k) (\<lambda>c w. ts < c \<and> wr_kind w \<notin> {KRollback, KLock}) r"
    and write_of_txn: "ok s \<Longrightarrow> st \<le> u64_max \<Longrightarrow>
      \<exists>r. ts_write_of_txn (snap s) k st = Ok r \<and> newest_where (wr s k) (\<lambda>c w. st \<le> c \<and> wr_start_ts w = st) r"
    and get_value: "ok s \<Longrightarrow> st \<le> u64_max \<Longrightarrow> ts_get_value (snap s) k st = Ok (vl s k st)"
    and foreign_lock_in_range: "ok s \<Longrightarrow>
      \<exists>r. ts_foreign_lock_in_range (snap s) a b mine = Ok r
        \<and> (case r of
             None \<Rightarrow> \<forall>k l. lk s k = Some l \<longrightarrow> a \<le> k \<longrightarrow> k < b \<longrightarrow> lk_start_ts l = mine
           | Some (k, l) \<Rightarrow> lk s k = Some l \<and> a \<le> k \<and> k < b \<and> lk_start_ts l \<noteq> mine
               \<and> (\<forall>k' l'. lk s k' = Some l' \<longrightarrow> a \<le> k' \<longrightarrow> k' < k \<longrightarrow> lk_start_ts l' = mine))"
    and wr_bound: "ok s \<Longrightarrow> wr s k c = Some w \<Longrightarrow> c \<le> u64_max"

text \<open>A snapshot that also answers the phantom question: any commit inside a range after a timestamp.\<close>

locale txn_range_view = txn_view +
  assumes newest_write_in_range: "ok s \<Longrightarrow> ts \<le> u64_max \<Longrightarrow>
    \<exists>r. ts_newest_write_in_range (snap s) a b ts = Some (Ok r)
      \<and> (case r of
           None \<Rightarrow> \<forall>k c w. wr s k c = Some w \<longrightarrow> a \<le> k \<longrightarrow> k < b \<longrightarrow> ts < c \<longrightarrow> wr_kind w = KRollback
         | Some v \<Rightarrow> \<exists>k. wr s k (vn_commit_ts v) = Some (vn_record v) \<and> a \<le> k \<and> k < b \<and> ts < vn_commit_ts v
             \<and> wr_kind (vn_record v) \<noteq> KRollback)"

subsection \<open>Reading an ordered run of versions\<close>

lemma store_okD:
  assumes "store_ok m"
  shows "bt_ok (ms_lock m)" "bt_ok (ms_write m)" "bt_ok (ms_default m)"
    "e \<in> set (ms_lock m) \<Longrightarrow> \<exists>k l. lock_ok l \<and> e = lock_entry k l"
    "e \<in> set (ms_write m) \<Longrightarrow> \<exists>k v. version_ok v \<and> e = version_entry k v"
  using assms by (auto simp: store_ok_def)

lemma decode_simps [simp]:
  "lock_ok l \<Longrightarrow> lock_decode (lock_encode l) = Ok l"
  "write_ok w \<Longrightarrow> write_decode (write_encode w) = Ok w"
  "c \<le> u64_max \<Longrightarrow> key_split (key_write k c) = Ok (k, c)"
  "key_split_lock (key_lock k) = Ok k"
  by (simp_all add: lock_decode_iff write_decode_iff key_split_iff key_split_lock_iff key_write_def)

lemma decode_version_entry [simp]: "version_ok v \<Longrightarrow> decode_version (version_entry k v) = Ok v"
  by (simp add: decode_version_def version_entry_def version_ok_def version_new_def)

lemma lock_at_iff:
  assumes m: "store_ok m"
  shows "lock_at m k = Some l \<longleftrightarrow> lock_ok l \<and> lock_entry k l \<in> set (ms_lock m)"
proof (cases "map_of (ms_lock m) (key_lock k)")
  case None
  then have "lock_entry k l \<notin> set (ms_lock m)" by (force simp: lock_entry_def map_of_eq_None_iff)
  with None show ?thesis by (simp add: lock_at_def)
next
  case (Some b)
  then have "(key_lock k, b) \<in> set (ms_lock m)" using map_of_bt_in [OF store_okD(1) [OF m]] by blast
  with store_okD(4) [OF m this] obtain l' where l': "lock_ok l'" "b = lock_encode l'"
    by (auto simp: lock_entry_def)
  then have "lock_at m k = Some l'" using Some by (simp add: lock_at_def)
  moreover have "lock_entry k l \<in> set (ms_lock m) \<longleftrightarrow> lock_encode l = lock_encode l'"
    using Some l' by (auto simp: lock_entry_def map_of_bt_in [OF store_okD(1) [OF m], symmetric])
  moreover have "lock_ok l \<Longrightarrow> lock_encode l = lock_encode l' \<longleftrightarrow> l = l'"
    using l' by (metis decode_simps(1) result.inject(1))
  ultimately show ?thesis using l' by auto
qed

lemma write_at_iff:
  assumes m: "store_ok m"
  shows "write_at m k c = Some w \<longleftrightarrow> c \<le> u64_max \<and> write_ok w \<and> version_entry k (version_new c w) \<in> set (ms_write m)"
proof (cases "c \<le> u64_max")
  case c: True
  show ?thesis
  proof (cases "map_of (ms_write m) (key_write k c)")
    case None
    then have "version_entry k (version_new c w) \<notin> set (ms_write m)"
      by (force simp: version_entry_def version_new_def map_of_eq_None_iff)
    with None show ?thesis by (simp add: write_at_def)
  next
    case (Some b)
    then have "(key_write k c, b) \<in> set (ms_write m)" using map_of_bt_in [OF store_okD(2) [OF m]] by blast
    with store_okD(5) [OF m this] obtain w' where w': "write_ok w'" "b = write_encode w'"
      by (auto simp: version_entry_def version_ok_def)
    then have "write_at m k c = Some w'" using Some c by (simp add: write_at_def)
    moreover have "version_entry k (version_new c w) \<in> set (ms_write m) \<longleftrightarrow> write_encode w = write_encode w'"
      using Some w'
      by (auto simp: version_entry_def version_new_def map_of_bt_in [OF store_okD(2) [OF m], symmetric])
    moreover have "write_ok w \<Longrightarrow> write_encode w = write_encode w' \<longleftrightarrow> w = w'"
      using w' by (metis decode_simps(2) result.inject(1))
    ultimately show ?thesis using w' c by auto
  qed
qed (simp add: write_at_def)

text \<open>The entries of one user key from a timestamp downwards are a run of versions in descending order.\<close>

definition version_run :: "version list \<Rightarrow> bool" where
  "version_run vs \<longleftrightarrow> (\<forall>v \<in> set vs. version_ok v) \<and> sorted_wrt (\<lambda>u v. vn_commit_ts v < vn_commit_ts u) vs"

lemma version_run_simps [simp]:
  "version_run []"
  "version_run (v # vs) \<longleftrightarrow> version_ok v \<and> (\<forall>u \<in> set vs. vn_commit_ts u < vn_commit_ts v) \<and> version_run vs"
  by (auto simp: version_run_def)

lemma run_of_entries:
  assumes "bt_ok es" "\<forall>e \<in> set es. \<exists>v. version_ok v \<and> e = version_entry k v"
  shows "\<exists>vs. es = map (version_entry k) vs \<and> version_run vs"
  using assms
proof (induction es)
  case (Cons e es)
  from Cons.prems(2) obtain v where v: "version_ok v" "e = version_entry k v" by auto
  from Cons obtain vs where vs: "es = map (version_entry k) vs" "version_run vs"
    by (cases e) auto
  have "vn_commit_ts u < vn_commit_ts v" if u: "u \<in> set vs" for u
  proof -
    have "fst (version_entry k v) < fst (version_entry k u)"
      using Cons.prems(1) v vs u by (cases "version_entry k v"; force)
    moreover have "version_ok u" using vs u by (simp add: version_run_def)
    ultimately show ?thesis using v(1)
      by (simp add: version_entry_def key_write_def version_ok_def key_versioned_less)
  qed
  with v vs show ?case by (intro exI [of _ "v # vs"]) simp
qed simp

lemma entries_from:
  assumes m: "store_ok m" and ts: "ts \<le> u64_max"
  shows "\<exists>vs. bt_range (key_seek_write k ts) (snd (version_range k)) (ms_write m) = map (version_entry k) vs
    \<and> version_run vs
    \<and> (\<forall>c w. version_new c w \<in> set vs \<longleftrightarrow> write_at m k c = Some w \<and> c \<le> ts)"
proof -
  let ?es = "bt_range (key_seek_write k ts) (snd (version_range k)) (ms_write m)"
  have bt: "bt_ok (ms_write m)" by (rule store_okD(2) [OF m])
  have inside: "key_seek_write k ts \<le> key_write k' c \<and> key_write k' c < snd (version_range k) \<longleftrightarrow> k' = k \<and> c \<le> ts"
    if "c \<le> u64_max" for k' c
    using key_versioned_less [OF that ts, of k' k]
    by (auto simp: key_seek_write_def key_write_def not_less [symmetric] versioned_below_range_end)
  have mem: "version_entry k' v \<in> set ?es \<longleftrightarrow> version_entry k' v \<in> set (ms_write m) \<and> k' = k \<and> vn_commit_ts v \<le> ts"
    if "version_ok v" for k' v
    using inside [of "vn_commit_ts v" k'] that
    by (auto simp: bt_range_filter [OF bt] version_entry_def version_ok_def)
  have "\<forall>e \<in> set ?es. \<exists>v. version_ok v \<and> e = version_entry k v"
  proof
    fix e assume e: "e \<in> set ?es"
    then have "e \<in> set (ms_write m)" by (simp add: bt_range_filter [OF bt])
    with store_okD(5) [OF m] obtain k' v where v: "version_ok v" "e = version_entry k' v" by blast
    with mem [of v k'] e show "\<exists>v. version_ok v \<and> e = version_entry k v" by blast
  qed
  moreover have "bt_ok ?es" by (simp add: bt_range_filter [OF bt] bt)
  ultimately obtain vs where vs: "?es = map (version_entry k) vs" "version_run vs" using run_of_entries by blast
  have "version_new c w \<in> set vs \<longleftrightarrow> write_at m k c = Some w \<and> c \<le> ts" for c w
  proof
    assume v: "version_new c w \<in> set vs"
    then have ok: "version_ok (version_new c w)" using vs by (auto simp: version_run_def)
    from v have "version_entry k (version_new c w) \<in> set ?es" unfolding vs by simp
    with mem [OF ok, of k] ok show "write_at m k c = Some w \<and> c \<le> ts"
      by (simp add: write_at_iff [OF m] version_ok_def)
  next
    assume w: "write_at m k c = Some w \<and> c \<le> ts"
    then have ok: "version_ok (version_new c w)" by (simp add: write_at_iff [OF m] version_ok_def version_new_def)
    with w mem [OF ok, of k] have "version_entry k (version_new c w) \<in> set ?es"
      by (simp add: write_at_iff [OF m])
    then obtain v where v: "v \<in> set vs" "version_entry k (version_new c w) = version_entry k v" unfolding vs by auto
    moreover have "version_ok v" using v vs by (simp add: version_run_def)
    ultimately have "version_new c w = v" using ok by (metis decode_version_entry result.inject(1))
    with v show "version_new c w \<in> set vs" by simp
  qed
  with vs show ?thesis by blast
qed

subsection \<open>Walks over a run\<close>

lemma newest_where_find:
  assumes run: "version_run vs"
    and vs: "\<And>c w. version_new c w \<in> set vs \<longleftrightarrow> W c = Some w \<and> c \<le> ts"
    and P: "\<And>c w. W c = Some w \<Longrightarrow> P c w \<longleftrightarrow> c \<le> ts \<and> Q (version_new c w)"
  shows "newest_where W P (find Q vs)"
proof -
  have mem: "v \<in> set vs \<longleftrightarrow> W (vn_commit_ts v) = Some (vn_record v) \<and> vn_commit_ts v \<le> ts" for v
    using vs [of "vn_commit_ts v" "vn_record v"] by simp
  show ?thesis
  proof (cases "find Q vs")
    case None
    then have "\<not> Q v" if "v \<in> set vs" for v using that by (auto simp: find_None_iff)
    with vs P None show ?thesis by (auto simp: newest_where_def)
  next
    case (Some v)
    then obtain i where i: "i < length vs" "Q (vs ! i)" "v = vs ! i" "\<And>j. j < i \<Longrightarrow> \<not> Q (vs ! j)"
      by (auto simp: find_Some_iff)
    then have v: "v \<in> set vs" by simp
    have "c \<le> vn_commit_ts v" if w: "W c = Some w" "P c w" for c w
    proof -
      from w P [of c w] vs [of c w] obtain j where j: "j < length vs" "vs ! j = version_new c w" "Q (vs ! j)"
        by (auto simp: in_set_conv_nth)
      with i(4) have "i \<le> j" by (meson not_le)
      then show ?thesis
        using run i(3) j(1,2) sorted_wrt_nth_less [of _ vs i j]
        by (cases "i = j") (fastforce simp: version_run_def)+
    qed
    moreover have "P (vn_commit_ts v) (vn_record v)" using v i mem P [of "vn_commit_ts v" "vn_record v"] by simp
    ultimately show ?thesis using Some v mem by (auto simp: newest_where_def)
  qed
qed

lemma mem_after_loop_run:
  "version_run vs \<Longrightarrow>
   mem_after_loop ts (map decode_version (map (version_entry k) vs))
     = Ok (find (\<lambda>v. ts < vn_commit_ts v \<and> wr_kind (vn_record v) \<notin> {KRollback, KLock}) vs)"
proof (induction vs)
  case (Cons v vs)
  have "vn_commit_ts v \<le> ts \<Longrightarrow> find (\<lambda>v. ts < vn_commit_ts v \<and> wr_kind (vn_record v) \<notin> {KRollback, KLock}) vs = None"
    using Cons.prems by (fastforce simp: find_None_iff)
  with Cons show ?case by auto
qed simp

lemma mem_txn_loop_run:
  "version_run vs \<Longrightarrow>
   mem_txn_loop st (map decode_version (map (version_entry k) vs))
     = Ok (find (\<lambda>v. st \<le> vn_commit_ts v \<and> wr_start_ts (vn_record v) = st) vs)"
proof (induction vs)
  case (Cons v vs)
  have "vn_commit_ts v < st \<Longrightarrow> find (\<lambda>v. st \<le> vn_commit_ts v \<and> wr_start_ts (vn_record v) = st) vs = None"
    using Cons.prems by (fastforce simp: find_None_iff)
  with Cons show ?case by auto
qed simp

lemma starts_with_key: "starts_with (key_prefix k) (key_prefix k @ w)"
  by (simp add: starts_with_def)

lemma starts_with_iff: "starts_with p x \<longleftrightarrow> (\<exists>w. x = p @ w)"
  by (metis append_eq_conv_conj starts_with_def)

lemma prefix_of_version: "starts_with (key_prefix k) (key_write k' c) \<longleftrightarrow> k' = k"
  by (auto simp: starts_with_iff key_write_def key_versioned_def key_prefix_def key_lock_def encode_bytes_inject)

definition walk_find :: "u64 \<Rightarrow> (version \<Rightarrow> 'a option) \<Rightarrow> version list \<Rightarrow> 'a option" where
  "walk_find stop tk vs =
     (case find (\<lambda>v. stop \<le> vn_commit_ts v \<and> tk v \<noteq> None) vs of None \<Rightarrow> None | Some v \<Rightarrow> tk v)"

lemma walk_loop_run:
  assumes "version_run vs" "\<forall>e \<in> set es. \<not> starts_with (key_prefix k) (fst e)"
  shows "walk_loop (key_prefix k) stop tk (map (version_entry k) vs @ es) (\<lambda>_. None) = Ok (walk_find stop tk vs)"
  using assms
proof (induction vs)
  case Nil
  then show ?case by (cases es) (auto simp: walk_find_def)
next
  case (Cons v vs)
  have older: "vn_commit_ts v < stop \<Longrightarrow> find (\<lambda>v. stop \<le> vn_commit_ts v \<and> tk v \<noteq> None) vs = None"
    using Cons.prems by (fastforce simp: find_None_iff)
  have entry: "version_entry k v = (key_write k (vn_commit_ts v), write_encode (vn_record v))"
    by (simp add: version_entry_def)
  have v: "version_new (vn_commit_ts v) (vn_record v) = v" "vn_commit_ts v \<le> u64_max" "write_ok (vn_record v)"
    using Cons.prems by (auto simp: version_new_def version_ok_def)
  show ?case
  proof (cases "vn_commit_ts v < stop")
    case True
    with v older show ?thesis by (simp add: entry prefix_of_version walk_find_def)
  next
    case False
    with v Cons show ?thesis by (cases "tk v") (auto simp: entry prefix_of_version walk_find_def)
  qed
qed

section \<open>The implementations meet the contract\<close>

text \<open>The engine that holds the maps of a store and does not fail.\<close>

definition engine_of :: "memory_store \<Rightarrow> engine" where
  "engine_of m =
     \<lparr>en_get = \<lambda>c key. Ok (map_of (mem_cf m c) key), en_iter = \<lambda>_. Ok (),
      en_seek = \<lambda>c target. (bt_from target (mem_cf m c), \<lambda>_. None),
      en_cf_id = \<lambda>c. Some (case c of CfDefault \<Rightarrow> 0 | CfLock \<Rightarrow> 1 | CfWrite \<Rightarrow> 2)\<rparr>"

lemma engine_of_cf [simp]: "en_cf_id (engine_of m) c \<noteq> None"
  by (simp add: engine_of_def)

lemma engine_of_simps [simp]:
  "en_get (engine_of m) c key = Ok (map_of (mem_cf m c) key)" "en_iter (engine_of m) c = Ok ()"
  "en_seek (engine_of m) c t = (bt_from t (mem_cf m c), \<lambda>_. None)"
  by (simp_all add: engine_of_def)

lemma versions_from_top: "version_range k = (key_seek_write k u64_max, snd (version_range k))"
  by (simp add: version_range_def key_seek_write_def)

lemma opt_decode_lock:
  assumes m: "store_ok m"
  shows "opt_decode lock_decode (map_of (ms_lock m) (key_lock k)) = Ok (lock_at m k)"
proof (cases "map_of (ms_lock m) (key_lock k)")
  case (Some b)
  then have "(key_lock k, b) \<in> set (ms_lock m)" using map_of_bt_in [OF store_okD(1) [OF m]] by blast
  with store_okD(4) [OF m this] obtain l where "lock_ok l" "b = lock_encode l" by (auto simp: lock_entry_def)
  with Some show ?thesis by (simp add: lock_at_def)
qed (simp add: lock_at_def)

lemma mem_seek_write_newest:
  assumes "store_ok m" "ts \<le> u64_max"
  shows "\<exists>r. mem_seek_write m k ts = Ok r \<and> newest_where (write_at m k) (\<lambda>c w. c \<le> ts) r"
proof -
  obtain vs where vs: "bt_range (key_seek_write k ts) (snd (version_range k)) (ms_write m) = map (version_entry k) vs"
    "version_run vs" "\<And>c w. version_new c w \<in> set vs \<longleftrightarrow> write_at m k c = Some w \<and> c \<le> ts"
    using entries_from [OF assms] by blast
  have "newest_where (write_at m k) (\<lambda>c w. c \<le> ts) (find (\<lambda>_. True) vs)"
    by (rule newest_where_find [OF vs(2,3)]) auto
  moreover have "mem_seek_write m k ts = Ok (find (\<lambda>_. True) vs)"
    using vs(1,2) by (cases vs) (auto simp: mem_seek_write_def)
  ultimately show ?thesis by blast
qed

lemma mem_versions_run:
  assumes m: "store_ok m"
  obtains vs where "mem_versions m k = map decode_version (map (version_entry k) vs)"
    "version_run vs" "\<And>c w. version_new c w \<in> set vs \<longleftrightarrow> write_at m k c = Some w \<and> c \<le> u64_max"
proof -
  obtain vs where "bt_range (key_seek_write k u64_max) (snd (version_range k)) (ms_write m) = map (version_entry k) vs"
    "version_run vs" "\<forall>c w. version_new c w \<in> set vs \<longleftrightarrow> write_at m k c = Some w \<and> c \<le> u64_max"
    using entries_from [OF m order.refl] by blast
  then show ?thesis
    by (intro that [of vs]; (subst mem_versions_def, subst versions_from_top)?) simp_all
qed

lemma mem_newest_write_after_newest:
  assumes "store_ok m"
  shows "\<exists>r. mem_newest_write_after m k ts = Ok r
    \<and> newest_where (write_at m k) (\<lambda>c w. ts < c \<and> wr_kind w \<notin> {KRollback, KLock}) r"
proof -
  obtain vs where vs: "mem_versions m k = map decode_version (map (version_entry k) vs)"
    "version_run vs" "\<And>c w. version_new c w \<in> set vs \<longleftrightarrow> write_at m k c = Some w \<and> c \<le> u64_max"
    using mem_versions_run [OF assms] by blast
  have "newest_where (write_at m k) (\<lambda>c w. ts < c \<and> wr_kind w \<notin> {KRollback, KLock})
      (find (\<lambda>v. ts < vn_commit_ts v \<and> wr_kind (vn_record v) \<notin> {KRollback, KLock}) vs)"
    by (rule newest_where_find [OF vs(2,3)]) (auto simp: write_at_iff [OF assms])
  with vs show ?thesis by (simp add: mem_newest_write_after_def mem_after_loop_run del: map_map)
qed

lemma mem_write_of_txn_newest:
  assumes "store_ok m"
  shows "\<exists>r. mem_write_of_txn m k st = Ok r \<and> newest_where (write_at m k) (\<lambda>c w. st \<le> c \<and> wr_start_ts w = st) r"
proof -
  obtain vs where vs: "mem_versions m k = map decode_version (map (version_entry k) vs)"
    "version_run vs" "\<And>c w. version_new c w \<in> set vs \<longleftrightarrow> write_at m k c = Some w \<and> c \<le> u64_max"
    using mem_versions_run [OF assms] by blast
  have "newest_where (write_at m k) (\<lambda>c w. st \<le> c \<and> wr_start_ts w = st)
      (find (\<lambda>v. st \<le> vn_commit_ts v \<and> wr_start_ts (vn_record v) = st) vs)"
    by (rule newest_where_find [OF vs(2,3)]) (auto simp: write_at_iff [OF assms])
  with vs show ?thesis by (simp add: mem_write_of_txn_def mem_txn_loop_run del: map_map)
qed

lemma engine_entries:
  assumes m: "store_ok m" and ts: "ts \<le> u64_max"
  obtains vs es where "bt_from (key_seek_write k ts) (ms_write m) = map (version_entry k) vs @ es"
    "version_run vs" "\<And>c w. version_new c w \<in> set vs \<longleftrightarrow> write_at m k c = Some w \<and> c \<le> ts"
    "\<forall>e \<in> set es. \<not> starts_with (key_prefix k) (fst e)"
proof -
  let ?all = "bt_from (key_seek_write k ts) (ms_write m)"
  let ?hi = "snd (version_range k)"
  have bt: "bt_ok (ms_write m)" by (rule store_okD(2) [OF m])
  obtain vs where vs: "bt_range (key_seek_write k ts) ?hi (ms_write m) = map (version_entry k) vs"
    "version_run vs" "\<forall>c w. version_new c w \<in> set vs \<longleftrightarrow> write_at m k c = Some w \<and> c \<le> ts"
    using entries_from [OF assms] by blast
  let ?es = "dropWhile (\<lambda>(a, _). a < ?hi) ?all"
  have split: "?all = map (version_entry k) vs @ ?es"
    using vs(1) by (metis bt_range_def takeWhile_dropWhile_id)
  have "\<not> starts_with (key_prefix k) (fst e)" if e: "e \<in> set ?es" for e
  proof -
    have "bt_ok ?all" using bt by (simp add: bt_from_filter)
    then have "?es = filter (\<lambda>(a, _). ?hi \<le> a) ?all"
      using bt_from_filter [of ?all ?hi] by (simp add: bt_from_def)
    with e have "e \<in> set ?all" "?hi \<le> fst e" by auto
    then have "e \<in> set (ms_write m)" using bt by (simp add: bt_from_filter)
    with store_okD(5) [OF m] obtain k' v where v: "version_ok v" "e = version_entry k' v" by blast
    with \<open>?hi \<le> fst e\<close> have "k < k'"
      by (simp add: version_entry_def key_write_def not_less [symmetric] versioned_below_range_end)
    with v show ?thesis by (simp add: version_entry_def prefix_of_version)
  qed
  with that [OF split vs(2)] vs(3) show ?thesis by blast
qed

lemma eng_walk_find:
  assumes "store_ok m" "ts \<le> u64_max"
  obtains vs where "eng_walk (engine_of m) k ts stop tk = Ok (walk_find stop tk vs)"
    "version_run vs" "\<And>c w. version_new c w \<in> set vs \<longleftrightarrow> write_at m k c = Some w \<and> c \<le> ts"
proof -
  obtain vs es where vs: "bt_from (key_seek_write k ts) (ms_write m) = map (version_entry k) vs @ es"
    "version_run vs" "\<And>c w. version_new c w \<in> set vs \<longleftrightarrow> write_at m k c = Some w \<and> c \<le> ts"
    "\<forall>e \<in> set es. \<not> starts_with (key_prefix k) (fst e)"
    using engine_entries [OF assms] by blast
  then have "eng_walk (engine_of m) k ts stop tk = Ok (walk_find stop tk vs)"
    by (simp add: eng_walk_def walk_loop_run)
  with that vs show ?thesis by blast
qed

lemma walk_find_filter: "walk_find stop (\<lambda>v. if Q v then Some v else None) vs = find (\<lambda>v. stop \<le> vn_commit_ts v \<and> Q v) vs"
  by (induction vs) (auto simp: walk_find_def)

lemma eng_walk_newest:
  assumes m: "store_ok m" and ts: "ts \<le> u64_max"
    and P: "\<And>c w. write_at m k c = Some w \<Longrightarrow> P c w \<longleftrightarrow> c \<le> ts \<and> stop \<le> c \<and> Q (version_new c w)"
  shows "\<exists>r. eng_walk (engine_of m) k ts stop (\<lambda>v. if Q v then Some v else None) = Ok r \<and> newest_where (write_at m k) P r"
proof -
  obtain vs where vs: "eng_walk (engine_of m) k ts stop (\<lambda>v. if Q v then Some v else None)
        = Ok (walk_find stop (\<lambda>v. if Q v then Some v else None) vs)"
    "version_run vs" "\<And>c w. version_new c w \<in> set vs \<longleftrightarrow> write_at m k c = Some w \<and> c \<le> ts"
    using eng_walk_find [OF m ts] by blast
  have "newest_where (write_at m k) P (find (\<lambda>v. stop \<le> vn_commit_ts v \<and> Q v) vs)"
    by (rule newest_where_find [OF vs(2,3)]) (auto simp: P)
  with vs(1) show ?thesis by (simp add: walk_find_filter)
qed

subsection \<open>Scans of a range\<close>

lemma mem_foreign_loop_first:
  assumes "bt_ok es" "\<forall>e \<in> set es. \<exists>k l. lock_ok l \<and> e = lock_entry k l"
  shows "\<exists>r. mem_foreign_loop mine es = Ok r
    \<and> (case r of
         None \<Rightarrow> \<forall>k l. lock_ok l \<longrightarrow> lock_entry k l \<in> set es \<longrightarrow> lk_start_ts l = mine
       | Some (k, l) \<Rightarrow> lock_ok l \<and> lock_entry k l \<in> set es \<and> lk_start_ts l \<noteq> mine
           \<and> (\<forall>k' l'. lock_ok l' \<longrightarrow> lock_entry k' l' \<in> set es \<longrightarrow> k' < k \<longrightarrow> lk_start_ts l' = mine))"
  using assms
proof (induction es)
  case (Cons e es)
  from Cons.prems(2) obtain k l where l: "lock_ok l" and e: "e = lock_entry k l" by auto
  have same: "lock_entry k' l' = lock_entry k l \<longleftrightarrow> k' = k \<and> l' = l" if "lock_ok l'" for k' l'
    using that l by (auto simp: lock_entry_def) (metis decode_simps(1) result.inject(1))
  have first: "k < k'" if "lock_entry k' l' \<in> set es" for k' l'
    using that Cons.prems(1) e by (auto simp: lock_entry_def key_lock_less)
  show ?case
  proof (cases "lk_start_ts l = mine")
    case True
    have "bt_ok es" using Cons.prems(1) by (cases e) simp
    with Cons obtain r where r: "mem_foreign_loop mine es = Ok r"
      "case r of
         None \<Rightarrow> \<forall>k l. lock_ok l \<longrightarrow> lock_entry k l \<in> set es \<longrightarrow> lk_start_ts l = mine
       | Some (k, l) \<Rightarrow> lock_ok l \<and> lock_entry k l \<in> set es \<and> lk_start_ts l \<noteq> mine
           \<and> (\<forall>k' l'. lock_ok l' \<longrightarrow> lock_entry k' l' \<in> set es \<longrightarrow> k' < k \<longrightarrow> lk_start_ts l' = mine)"
      by auto
    have "mem_foreign_loop mine (e # es) = Ok r" using True l e r(1) by (simp add: lock_entry_def)
    with r(2) True e same show ?thesis by (fastforce split: option.splits)
  next
    case False
    then have "mem_foreign_loop mine (e # es) = Ok (Some (k, l))" using l e by (simp add: lock_entry_def)
    with False l e same first show ?thesis by (fastforce dest: order.asym)
  qed
qed simp

lemma mem_foreign_first:
  assumes m: "store_ok m"
  shows "\<exists>r. mem_foreign_lock_in_range m a b mine = Ok r
    \<and> (case r of
         None \<Rightarrow> \<forall>k l. lock_at m k = Some l \<longrightarrow> a \<le> k \<longrightarrow> k < b \<longrightarrow> lk_start_ts l = mine
       | Some (k, l) \<Rightarrow> lock_at m k = Some l \<and> a \<le> k \<and> k < b \<and> lk_start_ts l \<noteq> mine
           \<and> (\<forall>k' l'. lock_at m k' = Some l' \<longrightarrow> a \<le> k' \<longrightarrow> k' < k \<longrightarrow> lk_start_ts l' = mine))"
proof (cases "b \<le> a")
  case True
  then show ?thesis by (intro exI [of _ None]) (auto simp: mem_foreign_lock_in_range_def)
next
  case False
  let ?es = "bt_range (key_lock a) (key_lock b) (ms_lock m)"
  have bt: "bt_ok (ms_lock m)" by (rule store_okD(1) [OF m])
  have mem: "lock_entry k l \<in> set ?es \<longleftrightarrow> lock_entry k l \<in> set (ms_lock m) \<and> a \<le> k \<and> k < b" for k l
    by (auto simp: bt_range_filter [OF bt] lock_entry_def key_lock_less not_less [symmetric])
  have "bt_ok ?es" by (simp add: bt_range_filter [OF bt] bt)
  moreover have "\<forall>e \<in> set ?es. \<exists>k l. lock_ok l \<and> e = lock_entry k l"
    using store_okD(4) [OF m] by (auto simp: bt_range_filter [OF bt])
  ultimately obtain r where r: "mem_foreign_loop mine ?es = Ok r"
    "case r of
       None \<Rightarrow> \<forall>k l. lock_ok l \<longrightarrow> lock_entry k l \<in> set ?es \<longrightarrow> lk_start_ts l = mine
     | Some (k, l) \<Rightarrow> lock_ok l \<and> lock_entry k l \<in> set ?es \<and> lk_start_ts l \<noteq> mine
         \<and> (\<forall>k' l'. lock_ok l' \<longrightarrow> lock_entry k' l' \<in> set ?es \<longrightarrow> k' < k \<longrightarrow> lk_start_ts l' = mine)"
    using mem_foreign_loop_first [of ?es mine] by blast
  show ?thesis
  proof (cases r)
    case None
    with r False show ?thesis by (auto simp: mem_foreign_lock_in_range_def mem lock_at_iff [OF m])
  next
    case (Some p)
    obtain k l where "p = (k, l)" by fastforce
    with Some r False show ?thesis
      by (auto simp: mem_foreign_lock_in_range_def mem lock_at_iff [OF m]) (meson order.strict_trans)
  qed
qed

lemma foreign_loop_mem:
  "foreign_loop upper mine es (\<lambda>_. None) = mem_foreign_loop mine (takeWhile (\<lambda>(a, _). a < upper) es)"
  by (induction es) (auto simp: ok_then_def not_le split: result.splits)

lemma eng_foreign_eq_mem: "eng_foreign_lock_in_range (engine_of m) = mem_foreign_lock_in_range m"
  by (auto simp: fun_eq_iff eng_foreign_lock_in_range_def mem_foreign_lock_in_range_def foreign_loop_mem
      bt_range_def key_prefix_def)

lemma version_below_prefix: "key_write k c < key_prefix b \<longleftrightarrow> k < b"
  using encode_bytes_less_iff [of k "enc_ts c" b "[]"]
  by (simp add: key_write_def key_versioned_def key_prefix_def key_lock_def)

definition phantom_spec :: "bytes \<Rightarrow> u64 \<Rightarrow> (bytes \<times> bytes) set \<Rightarrow> version option \<Rightarrow> bool" where
  "phantom_spec upper ts es r \<longleftrightarrow>
     (case r of
        None \<Rightarrow> \<forall>k v. version_ok v \<longrightarrow> version_entry k v \<in> es \<longrightarrow> fst (version_entry k v) < upper \<longrightarrow>
                 ts < vn_commit_ts v \<longrightarrow> wr_kind (vn_record v) = KRollback
      | Some v \<Rightarrow> \<exists>k. version_ok v \<and> version_entry k v \<in> es \<and> fst (version_entry k v) < upper
                 \<and> ts < vn_commit_ts v \<and> wr_kind (vn_record v) \<noteq> KRollback)"

lemma phantom_spec_extend:
  assumes "phantom_spec upper ts es' r" "es' \<subseteq> es"
    and "\<And>k v. version_ok v \<Longrightarrow> version_entry k v \<in> es \<Longrightarrow> version_entry k v \<notin> es' \<Longrightarrow> ts < vn_commit_ts v \<Longrightarrow>
      wr_kind (vn_record v) = KRollback"
  shows "phantom_spec upper ts es r"
proof (cases r)
  case None
  with assms(1) have "version_ok v \<Longrightarrow> version_entry k v \<in> es' \<Longrightarrow> fst (version_entry k v) < upper \<Longrightarrow>
      ts < vn_commit_ts v \<Longrightarrow> wr_kind (vn_record v) = KRollback" for k v
    by (simp add: phantom_spec_def)
  with assms(3) show ?thesis unfolding phantom_spec_def None option.case by blast
next
  case (Some v)
  with assms(1,2) show ?thesis unfolding phantom_spec_def Some option.case by blast
qed

lemma range_loop_suffix:
  assumes m: "store_ok m" and suf: "ms_write m = pre @ es"
  shows "\<exists>r. range_loop (engine_of m) upper ts es (\<lambda>_. None) = Some (Ok r) \<and> phantom_spec upper ts (set es) r"
  using suf
proof (induction "length es" arbitrary: es pre rule: less_induct)
  case less
  have bt: "bt_ok (ms_write m)" by (rule store_okD(2) [OF m])
  show ?case
  proof (cases es)
    case Nil
    then show ?thesis by (subst range_loop.simps) (simp add: phantom_spec_def)
  next
    case es: (Cons e rest)
    have "e \<in> set (ms_write m)" using less.prems es by simp
    with store_okD(5) [OF m] obtain k v where v: "version_ok v" and e: "e = version_entry k v" by blast
    then have split: "key_split (fst e) = Ok (k, vn_commit_ts v)" "write_decode (snd e) = Ok (vn_record v)"
      by (simp_all add: version_entry_def version_ok_def)
    have same: "v' = v" if "version_ok v'" "version_entry k' v' = e" for k' v'
      using that v e by (metis decode_version_entry result.inject(1))
    have order: "fst e < fst e'" if "e' \<in> set rest" for e'
      using that bt less.prems es by (auto simp: bt_ok_def sorted_wrt_append)
    consider (stop) "upper \<le> fst e" | (found) "\<not> upper \<le> fst e" "ts < vn_commit_ts v" "wr_kind (vn_record v) \<noteq> KRollback"
      | (marker) "\<not> upper \<le> fst e" "ts < vn_commit_ts v" "wr_kind (vn_record v) = KRollback"
      | (older) "\<not> upper \<le> fst e" "\<not> ts < vn_commit_ts v"
      by blast
    then show ?thesis
    proof cases
      case stop
      then have "\<not> fst (version_entry k' v') < upper" if "version_entry k' v' \<in> set es" for k' v'
        using that es order by (fastforce simp: not_less)
      with stop es show ?thesis by (subst range_loop.simps) (auto simp: phantom_spec_def)
    next
      case found
      then have "range_loop (engine_of m) upper ts es (\<lambda>_. None) = Some (Ok (Some v))"
        using es split by (subst range_loop.simps) simp
      with es found v e show ?thesis by (auto simp: phantom_spec_def)
    next
      case marker
      then have run: "range_loop (engine_of m) upper ts es (\<lambda>_. None) = range_loop (engine_of m) upper ts rest (\<lambda>_. None)"
        using es split by (subst range_loop.simps) simp
      have "length rest < length es" "ms_write m = (pre @ [e]) @ rest" using es less.prems by simp_all
      from less.hyps [OF this] obtain r where r: "range_loop (engine_of m) upper ts rest (\<lambda>_. None) = Some (Ok r)"
        "phantom_spec upper ts (set rest) r" by blast
      have "phantom_spec upper ts (set es) r"
        by (rule phantom_spec_extend [OF r(2)]) (use es same marker in auto)
      with run r show ?thesis by simp
    next
      case older
      let ?hi = "snd (version_range k)"
      let ?new = "dropWhile (\<lambda>(a, _). a < ?hi) rest"
      have "fst e < ?hi" using e v by (simp add: version_entry_def key_write_def versioned_below_range_end)
      then have "\<forall>e' \<in> set (pre @ [e]). case e' of (a, _) \<Rightarrow> a < ?hi"
        using bt less.prems es by (fastforce simp: bt_ok_def sorted_wrt_append)
      then have "dropWhile (\<lambda>(a, _). a < ?hi) ((pre @ [e]) @ rest) = ?new" by (intro dropWhile_append2) blast
      then have "bt_from ?hi (ms_write m) = ?new" using less.prems es by (simp add: bt_from_def)
      then have run: "range_loop (engine_of m) upper ts es (\<lambda>_. None) = range_loop (engine_of m) upper ts ?new (\<lambda>_. None)"
        using es older split by (subst range_loop.simps) simp
      have "length ?new < length es" using es length_dropWhile_le [of _ rest] by (simp add: le_imp_less_Suc)
      moreover have "ms_write m = (pre @ [e] @ takeWhile (\<lambda>(a, _). a < ?hi) rest) @ ?new" using less.prems es by simp
      ultimately obtain r where r: "range_loop (engine_of m) upper ts ?new (\<lambda>_. None) = Some (Ok r)"
        "phantom_spec upper ts (set ?new) r" using less.hyps by blast
      have skipped: "vn_commit_ts v' \<le> ts"
        if v': "version_ok v'" "version_entry k' v' \<in> set es" "version_entry k' v' \<notin> set ?new" for k' v'
      proof (cases "version_entry k' v' = e")
        case True
        with same v' older show ?thesis by auto
      next
        case False
        then have tw: "version_entry k' v' \<in> set (takeWhile (\<lambda>(a, _). a < ?hi) rest)"
          using v' es by (metis Un_iff set_ConsD set_append takeWhile_dropWhile_id)
        then have "fst (version_entry k' v') < ?hi" "fst e < fst (version_entry k' v')"
          using set_takeWhileD [OF tw] order by auto
        with e v v' older show ?thesis
          by (auto simp: version_entry_def version_ok_def key_write_def versioned_below_range_end key_versioned_less)
      qed
      have "phantom_spec upper ts (set es) r"
      proof (rule phantom_spec_extend [OF r(2)])
        show "set ?new \<subseteq> set es" using es by (auto dest: set_dropWhileD)
        show "wr_kind (vn_record v') = KRollback"
          if "version_ok v'" "version_entry k' v' \<in> set es" "version_entry k' v' \<notin> set ?new" "ts < vn_commit_ts v'" for k' v'
          using skipped [OF that(1-3)] that(4) by simp
      qed
      with run r show ?thesis by simp
    qed
  qed
qed

lemma eng_range_phantom:
  assumes m: "store_ok m"
  shows "\<exists>r. eng_newest_write_in_range (engine_of m) a b ts = Some (Ok r)
    \<and> (case r of
         None \<Rightarrow> \<forall>k c w. write_at m k c = Some w \<longrightarrow> a \<le> k \<longrightarrow> k < b \<longrightarrow> ts < c \<longrightarrow> wr_kind w = KRollback
       | Some v \<Rightarrow> \<exists>k. write_at m k (vn_commit_ts v) = Some (vn_record v) \<and> a \<le> k \<and> k < b \<and> ts < vn_commit_ts v
           \<and> wr_kind (vn_record v) \<noteq> KRollback)"
proof (cases "b \<le> a")
  case True
  then show ?thesis by (intro exI [of _ None]) (auto simp: eng_newest_write_in_range_def)
next
  case False
  let ?es = "bt_from (key_prefix a) (ms_write m)"
  have bt: "bt_ok (ms_write m)" by (rule store_okD(2) [OF m])
  have "ms_write m = takeWhile (\<lambda>(x, _). x < key_prefix a) (ms_write m) @ ?es" by (simp add: bt_from_def)
  from range_loop_suffix [OF m this] obtain r
    where r: "range_loop (engine_of m) (key_prefix b) ts ?es (\<lambda>_. None) = Some (Ok r)"
      "phantom_spec (key_prefix b) ts (set ?es) r" by blast
  have "version_entry k v \<in> set ?es \<longleftrightarrow> version_entry k v \<in> set (ms_write m) \<and> a \<le> k" for k v
    using version_below_prefix [of k "vn_commit_ts v" a]
    by (auto simp: bt_from_filter [OF bt] version_entry_def not_less [symmetric])
  moreover have "fst (version_entry k v) < key_prefix b \<longleftrightarrow> k < b" for k v
    by (simp add: version_entry_def version_below_prefix)
  ultimately show ?thesis
    using r False
    by (intro exI [of _ r])
      (cases r; auto simp: eng_newest_write_in_range_def phantom_spec_def write_at_iff [OF m] version_ok_def;
        metis version_new_simps)
qed

subsection \<open>The interpretations\<close>

lemma lock_or_rollback: "k \<notin> {KRollback, KLock} \<longleftrightarrow> k \<noteq> KRollback \<and> k \<noteq> KLock"
  by simp

interpretation memory: txn_view memory_snapshot store_ok lock_at write_at value_at
  by unfold_locales
    (simp_all add: memory_snapshot_def mem_get_lock_def opt_decode_lock mem_seek_write_newest
      mem_newest_write_after_newest [unfolded lock_or_rollback] mem_write_of_txn_newest mem_get_value_def
      value_at_def mem_foreign_first write_at_iff)

lemma eng_get_lock_at: "store_ok m \<Longrightarrow> eng_get_lock (engine_of m) k = Ok (lock_at m k)"
  by (simp add: eng_get_lock_def eng_get_def opt_decode_lock)

lemma eng_seek_write_newest:
  assumes "store_ok m" "ts \<le> u64_max"
  shows "\<exists>r. eng_seek_write (engine_of m) k ts = Ok r \<and> newest_where (write_at m k) (\<lambda>c w. c \<le> ts) r"
  using eng_walk_newest [OF assms, of k _ 0 "\<lambda>_. True"] by (simp add: eng_seek_write_def)

lemma eng_newest_write_after_newest:
  assumes m: "store_ok m" and ts: "ts < u64_max"
  shows "\<exists>r. eng_newest_write_after (engine_of m) k ts = Ok r
    \<and> newest_where (write_at m k) (\<lambda>c w. ts < c \<and> wr_kind w \<notin> {KRollback, KLock}) r"
  unfolding eng_newest_write_after_def
  by (rule eng_walk_newest [OF m order.refl]) (use ts in \<open>auto simp: write_at_iff [OF m] sat_add_eq\<close>)

lemma eng_write_of_txn_newest:
  assumes m: "store_ok m"
  shows "\<exists>r. eng_write_of_txn (engine_of m) k st = Ok r \<and> newest_where (write_at m k) (\<lambda>c w. st \<le> c \<and> wr_start_ts w = st) r"
  unfolding eng_write_of_txn_def
  by (rule eng_walk_newest [OF m order.refl]) (auto simp: write_at_iff [OF m])

interpretation eng: txn_range_view "\<lambda>m. engine_snapshot (engine_of m)" store_ok lock_at write_at value_at
  by unfold_locales
    (simp_all add: engine_snapshot_def eng_get_lock_at eng_seek_write_newest
      eng_newest_write_after_newest [unfolded lock_or_rollback] eng_write_of_txn_newest eng_get_value_def eng_get_def
      value_at_def eng_foreign_eq_mem mem_foreign_first write_at_iff eng_range_phantom)

section \<open>What a batch does to a store\<close>

definition lock_put :: "bytes \<Rightarrow> lock_record \<Rightarrow> mutation" where
  "lock_put k l = MPut CfLock (key_lock k) (lock_encode l)"

definition lock_del :: "bytes \<Rightarrow> mutation" where
  "lock_del k = MDelete CfLock (key_lock k)"

definition write_put :: "bytes \<Rightarrow> u64 \<Rightarrow> write_record \<Rightarrow> mutation" where
  "write_put k c w = MPut CfWrite (key_write k c) (write_encode w)"

definition value_put :: "bytes \<Rightarrow> u64 \<Rightarrow> bytes \<Rightarrow> mutation" where
  "value_put k s v = MPut CfDefault (key_value_at k s) v"

definition value_del :: "bytes \<Rightarrow> u64 \<Rightarrow> mutation" where
  "value_del k s = MDelete CfDefault (key_value_at k s)"

lemma batch_builders:
  "put_lock ms k l = ms @ [lock_put k l]" "delete_lock ms k = ms @ [lock_del k]"
  "put_write ms k c w = ms @ [write_put k c w]" "put_value ms k s v = ms @ [value_put k s v]"
  "delete_value ms k s = ms @ [value_del k s]"
  by (simp_all add: put_lock_def lock_put_def delete_lock_def lock_del_def put_write_def write_put_def
      put_value_def value_put_def delete_value_def value_del_def)

lemma mem_apply_simps [simp]:
  "mem_apply m [] = m" "mem_apply m (x # xs) = mem_apply (mem_apply_one m x) xs"
  "mem_apply m (xs @ ys) = mem_apply (mem_apply m xs) ys"
  by (simp_all add: mem_apply_def)

lemma store_ok_new [simp]: "store_ok mem_store_new"
  by (simp add: store_ok_def mem_store_new_def)

lemma new_store_at [simp]: "lock_at mem_store_new k = None" "write_at mem_store_new k c = None" "value_at mem_store_new k c = None"
  by (simp_all add: lock_at_def write_at_def value_at_def mem_store_new_def)

lemma key_write_inject: "c \<le> u64_max \<Longrightarrow> d \<le> u64_max \<Longrightarrow> key_write k c = key_write j d \<longleftrightarrow> k = j \<and> c = d"
  by (simp add: key_write_def key_versioned_inject)

lemma key_value_inject: "c \<le> u64_max \<Longrightarrow> d \<le> u64_max \<Longrightarrow> key_value_at k c = key_value_at j d \<longleftrightarrow> k = j \<and> c = d"
  by (simp add: key_value_at_def key_versioned_inject)

lemma apply_lock_put:
  assumes m: "store_ok m" and l: "lock_ok l"
  shows "store_ok (mem_apply_one m (lock_put k l))"
    and "lock_at (mem_apply_one m (lock_put k l)) = (lock_at m)(k \<mapsto> l)"
    and "write_at (mem_apply_one m (lock_put k l)) = write_at m"
    and "value_at (mem_apply_one m (lock_put k l)) = value_at m"
proof -
  have bt: "bt_ok (ms_lock m)" by (rule store_okD(1) [OF m])
  have "\<exists>k' l'. lock_ok l' \<and> e = lock_entry k' l'" if "e \<in> set (bt_insert (key_lock k) (lock_encode l) (ms_lock m))" for e
    using that l store_okD(4) [OF m, of e] by (auto simp: set_bt_insert [OF bt] lock_entry_def)
  with m bt show "store_ok (mem_apply_one m (lock_put k l))" by (simp add: lock_put_def store_ok_def)
  show "lock_at (mem_apply_one m (lock_put k l)) = (lock_at m)(k \<mapsto> l)"
    using l by (auto simp: lock_put_def lock_at_def fun_eq_iff bt)
qed (simp_all add: lock_put_def write_at_def value_at_def fun_eq_iff)

lemma apply_lock_del:
  assumes m: "store_ok m"
  shows "store_ok (mem_apply_one m (lock_del k))"
    and "lock_at (mem_apply_one m (lock_del k)) = (lock_at m)(k := None)"
    and "write_at (mem_apply_one m (lock_del k)) = write_at m"
    and "value_at (mem_apply_one m (lock_del k)) = value_at m"
  using m by (auto simp: lock_del_def store_ok_def set_bt_remove lock_at_def write_at_def value_at_def fun_eq_iff)

lemma apply_write_put:
  assumes m: "store_ok m" and w: "write_ok w" and c: "c \<le> u64_max"
  shows "store_ok (mem_apply_one m (write_put k c w))"
    and "lock_at (mem_apply_one m (write_put k c w)) = lock_at m"
    and "write_at (mem_apply_one m (write_put k c w)) = (write_at m)(k := (write_at m k)(c \<mapsto> w))"
    and "value_at (mem_apply_one m (write_put k c w)) = value_at m"
proof -
  have bt: "bt_ok (ms_write m)" by (rule store_okD(2) [OF m])
  have "version_ok (version_new c w) \<and> (key_write k c, write_encode w) = version_entry k (version_new c w)"
    using w c by (simp add: version_entry_def version_ok_def)
  then have "\<exists>k' v. version_ok v \<and> e = version_entry k' v" if "e \<in> set (bt_insert (key_write k c) (write_encode w) (ms_write m))" for e
    using that store_okD(5) [OF m, of e] by (auto simp: set_bt_insert [OF bt])
  with m bt show "store_ok (mem_apply_one m (write_put k c w))" by (simp add: write_put_def store_ok_def)
  show "write_at (mem_apply_one m (write_put k c w)) = (write_at m)(k := (write_at m k)(c \<mapsto> w))"
    using w c by (auto simp: write_put_def write_at_def fun_eq_iff bt key_write_inject)
qed (simp_all add: write_put_def lock_at_def value_at_def fun_eq_iff)

lemma apply_value_put:
  assumes m: "store_ok m" and s: "s \<le> u64_max"
  shows "store_ok (mem_apply_one m (value_put k s v))"
    and "lock_at (mem_apply_one m (value_put k s v)) = lock_at m"
    and "write_at (mem_apply_one m (value_put k s v)) = write_at m"
    and "value_at (mem_apply_one m (value_put k s v)) = (value_at m)(k := (value_at m k)(s \<mapsto> v))"
proof -
  have bt: "bt_ok (ms_default m)" by (rule store_okD(3) [OF m])
  have "\<exists>k' s' b. s' \<le> u64_max \<and> e = (key_value_at k' s', b)" if "e \<in> set (bt_insert (key_value_at k s) v (ms_default m))" for e
    using that m s by (auto simp: set_bt_insert [OF bt] store_ok_def)
  with m bt show "store_ok (mem_apply_one m (value_put k s v))" by (simp add: value_put_def store_ok_def)
  show "value_at (mem_apply_one m (value_put k s v)) = (value_at m)(k := (value_at m k)(s \<mapsto> v))"
    using s by (auto simp: value_put_def value_at_def fun_eq_iff bt key_value_inject)
qed (simp_all add: value_put_def lock_at_def write_at_def fun_eq_iff)

lemma apply_value_del:
  assumes m: "store_ok m" and s: "s \<le> u64_max"
  shows "store_ok (mem_apply_one m (value_del k s))"
    and "lock_at (mem_apply_one m (value_del k s)) = lock_at m"
    and "write_at (mem_apply_one m (value_del k s)) = write_at m"
    and "value_at (mem_apply_one m (value_del k s)) = (value_at m)(k := (value_at m k)(s := None))"
  using m s
  by (auto simp: value_del_def store_ok_def set_bt_remove lock_at_def write_at_def value_at_def fun_eq_iff key_value_inject)

lemmas apply_mutation = apply_lock_put apply_lock_del apply_write_put apply_value_put apply_value_del

section \<open>Properties\<close>


definition demo_store :: memory_store where
  "demo_store =
     mem_apply mem_store_new
       (put_write (put_write [] [107] 20 \<lparr>wr_kind = KPut, wr_start_ts = 10, wr_short_value = Some [1]\<rparr>)
          [107] 30 (write_record_rollback 30))"

lemma demo_store_ok: "store_ok demo_store"
  by (simp add: demo_store_def batch_builders apply_mutation write_ok_def short_ok_def write_record_rollback_def
      write_record_new_def SHORT_VALUE_MAX_LEN_def u64_max_def)

lemma demo_store_writes:
  "write_at demo_store [107] c =
     (if c = 30 then Some (write_record_rollback 30)
      else if c = 20 then Some \<lparr>wr_kind = KPut, wr_start_ts = 10, wr_short_value = Some [1]\<rparr> else None)"
  by (simp add: demo_store_def batch_builders apply_mutation write_ok_def short_ok_def write_record_rollback_def
      write_record_new_def SHORT_VALUE_MAX_LEN_def u64_max_def)


text \<open>C33. The phantom scan always returns, although it reseeks its iterator, and its answer is exact: it
  finds a record exactly when some key of the half-open range has a commit above the timestamp that is
  not a rollback marker.\<close>

theorem phantom_scan_exact:
  assumes "store_ok m"
  shows "\<exists>r. ts_newest_write_in_range (engine_snapshot (engine_of m)) a b ts = Some (Ok r)
    \<and> (r \<noteq> None \<longleftrightarrow> (\<exists>k c w. write_at m k c = Some w \<and> a \<le> k \<and> k < b \<and> ts < c \<and> wr_kind w \<noteq> KRollback))"
proof -
  obtain r where r: "eng_newest_write_in_range (engine_of m) a b ts = Some (Ok r)"
    "case r of
       None \<Rightarrow> \<forall>k c w. write_at m k c = Some w \<longrightarrow> a \<le> k \<longrightarrow> k < b \<longrightarrow> ts < c \<longrightarrow> wr_kind w = KRollback
     | Some v \<Rightarrow> \<exists>k. write_at m k (vn_commit_ts v) = Some (vn_record v) \<and> a \<le> k \<and> k < b \<and> ts < vn_commit_ts v
         \<and> wr_kind (vn_record v) \<noteq> KRollback"
    using eng_range_phantom [OF assms] by blast
  then show ?thesis by (intro exI [of _ r]) (cases r; auto simp: engine_snapshot_def)
qed

theorem phantom_scan_exact_witness:
  "\<exists>r. ts_newest_write_in_range (engine_snapshot (engine_of demo_store)) [107] [108] 15 = Some (Ok r) \<and> r \<noteq> None"
proof -
  have "\<exists>k c w. write_at demo_store k c = Some w \<and> [107] \<le> k \<and> k < [108] \<and> 15 < c \<and> wr_kind w \<noteq> KRollback"
    by (rule exI [of _ "[107]"], rule exI [of _ 20]) (simp add: demo_store_writes)
  with phantom_scan_exact [OF demo_store_ok, of "[107]" "[108]" 15] show ?thesis by auto
qed

text \<open>At the last timestamp the engine's bound saturates: a version committed there is reported as newer than
  the timestamp, which the in-memory store and the trait's comment do not do.\<close>

definition last_store :: memory_store where
  "last_store = mem_apply mem_store_new (put_write [] [107] u64_max (write_record_new KDelete 10))"

lemma saturated_bound:
  "eng_newest_write_after (engine_of last_store) [107] u64_max = Ok (Some (version_new u64_max (write_record_new KDelete 10)))
   \<and> mem_newest_write_after last_store [107] u64_max = Ok None"
proof -
  let ?w = "write_record_new KDelete 10"
  have w: "write_ok ?w" by (simp add: write_ok_def write_record_new_def short_ok_def u64_max_def)
  have ok: "store_ok last_store" using w by (simp add: last_store_def batch_builders apply_mutation)
  have at: "write_at last_store [107] c = (if c = u64_max then Some ?w else None)" for c
    using w by (simp add: last_store_def batch_builders apply_mutation)
  have "\<exists>r. eng_newest_write_after (engine_of last_store) [107] u64_max = Ok r
      \<and> newest_where (write_at last_store [107]) (\<lambda>c w. u64_max \<le> c \<and> wr_kind w \<notin> {KRollback, KLock}) r"
    unfolding eng_newest_write_after_def
    by (rule eng_walk_newest [OF ok order.refl]) (auto simp: at sat_add_def split: if_splits)
  then obtain r where r: "eng_newest_write_after (engine_of last_store) [107] u64_max = Ok r"
    "newest_where (write_at last_store [107]) (\<lambda>c w. u64_max \<le> c \<and> wr_kind w \<notin> {KRollback, KLock}) r"
    by blast
  have "newest_where (write_at last_store [107]) (\<lambda>c w. u64_max \<le> c \<and> wr_kind w \<notin> {KRollback, KLock}) (Some (version_new u64_max ?w))"
    by (simp add: newest_where_def at write_record_new_def)
  with r have "r = Some (version_new u64_max ?w)" using newest_where_unique by blast
  moreover obtain r' where "mem_newest_write_after last_store [107] u64_max = Ok r'"
    "newest_where (write_at last_store [107]) (\<lambda>c w. u64_max < c \<and> wr_kind w \<notin> {KRollback, KLock}) r'"
    using mem_newest_write_after_newest [OF ok] by blast
  moreover from this have "r' = None" by (cases r') (auto simp: newest_where_def at split: if_splits)
  ultimately show ?thesis using r by simp
qed

end
