(* ===== verification/Percolator.thy ===== *)
theory Percolator
  imports TxnSnapshot
begin

text \<open>
  The rules of the transaction protocol (\<^verbatim>\<open>esker-txn/src/percolator.rs\<close>, and the clock arithmetic of
  \<^verbatim>\<open>lib.rs\<close>): reads, prewrite, commit of the primary and of secondaries, rollback, release and the
  resolution of locks, each a function of a snapshot that decides and hands back a batch. The contract
  of the snapshot (\<^verbatim>\<open>txn_view\<close>) turns every decision into a statement about the lock, the write records and
  the values a key has.
\<close>

section \<open>Clock arithmetic\<close>

definition TSO_LOGICAL_BITS :: nat where
  "TSO_LOGICAL_BITS = 18"

definition physical_ms :: "u64 \<Rightarrow> u64" where
  "physical_ms ts = ts div 2 ^ TSO_LOGICAL_BITS"

definition is_expired :: "u64 \<Rightarrow> u64 \<Rightarrow> u64 \<Rightarrow> bool" where
  "is_expired start_ts ttl_ms now_ts \<longleftrightarrow> sat_add (physical_ms start_ts) ttl_ms < physical_ms now_ts"

section \<open>Requests and decisions\<close>

datatype op = OpPut bytes | OpDelete | OpCheck

fun op_kind :: "op \<Rightarrow> kind" where
  "op_kind (OpPut _) = KPut"
| "op_kind OpDelete = KDelete"
| "op_kind OpCheck = KLock"

fun op_short_value :: "op \<Rightarrow> bytes option" where
  "op_short_value (OpPut v) = (if length v \<le> SHORT_VALUE_MAX_LEN then Some v else None)"
| "op_short_value OpDelete = None"
| "op_short_value OpCheck = None"

fun op_long_value :: "op \<Rightarrow> bytes option" where
  "op_long_value (OpPut v) = (if length v > SHORT_VALUE_MAX_LEN then Some v else None)"
| "op_long_value OpDelete = None"
| "op_long_value OpCheck = None"

record prewrite_req =
  pw_key :: bytes
  pw_primary :: bytes
  pw_start_ts :: u64
  pw_read_ts :: u64
  pw_ttl_ms :: u64
  pw_op :: op

definition prewrite_new :: "bytes \<Rightarrow> bytes \<Rightarrow> u64 \<Rightarrow> op \<Rightarrow> prewrite_req" where
  "prewrite_new key prim start_ts o' =
     \<lparr>pw_key = key, pw_primary = prim, pw_start_ts = start_ts, pw_read_ts = start_ts, pw_ttl_ms = LOCK_TTL_MS, pw_op = o'\<rparr>"

definition prewrite_read_at :: "prewrite_req \<Rightarrow> u64 \<Rightarrow> prewrite_req" where
  "prewrite_read_at p read_ts = p\<lparr>pw_read_ts := read_ts\<rparr>"

definition prewrite_is_primary :: "prewrite_req \<Rightarrow> bool" where
  "prewrite_is_primary p \<longleftrightarrow> pw_key p = pw_primary p"

datatype prewrite_decision =
    PwLock mutations
  | PwAlreadyLocked
  | PwLocked lock_record
  | PwConflict u64
  | PwRolledBack

datatype read_outcome = RdValue bytes | RdNotFound | RdLocked lock_record

datatype primary_state = PsCommitted u64 | PsRolledBack | PsLocked lock_record | PsMissing

datatype resolution = RollForward u64 | RollBack | Wait

record primary_committed =
  pc_start_ts :: u64
  pc_commit_ts :: u64
  pc_primary :: bytes

definition on_trust :: "bytes \<Rightarrow> u64 \<Rightarrow> u64 \<Rightarrow> primary_committed" where
  "on_trust prim start_ts commit_ts = \<lparr>pc_start_ts = start_ts, pc_commit_ts = commit_ts, pc_primary = prim\<rparr>"

record primary_commit =
  pl_mutations :: mutations
  pl_token :: primary_committed

definition into_mutations :: "primary_commit \<Rightarrow> mutations" where
  "into_mutations p = pl_mutations p"

definition applied :: "primary_commit \<Rightarrow> primary_committed" where
  "applied p = pl_token p"

datatype commit_decision = CdCommit primary_commit | CdAlreadyCommitted primary_committed

datatype settled = StCommitted u64 | StRolledBack | StUndecided

section \<open>Reads\<close>

partial_function (option) newest_version_at ::
  "txn_snapshot \<Rightarrow> bytes \<Rightarrow> u64 \<Rightarrow> version option txn_result option" where
  "newest_version_at S user_key at =
     (case ts_seek_write S user_key at of
        Err e \<Rightarrow> Some (Err e)
      | Ok r \<Rightarrow>
          (case r of
             None \<Rightarrow> Some (Ok None)
           | Some v \<Rightarrow>
               if is_a_version (wr_kind (vn_record v)) then Some (Ok (Some v))
               else if vn_commit_ts v = 0 then Some (Ok None)
               else newest_version_at S user_key (vn_commit_ts v - 1)))"

definition value_of :: "txn_snapshot \<Rightarrow> bytes \<Rightarrow> write_record \<Rightarrow> read_outcome txn_result" where
  "value_of S user_key rec =
     (case wr_kind rec of
        KPut \<Rightarrow>
          (case wr_short_value rec of
             Some v \<Rightarrow> Ok (RdValue v)
           | None \<Rightarrow>
               ok_then (ts_get_value S user_key (wr_start_ts rec)) (\<lambda>r.
                 case r of Some v \<Rightarrow> Ok (RdValue v) | None \<Rightarrow> Err (MissingValue (wr_start_ts rec))))
      | _ \<Rightarrow> Ok RdNotFound)"

definition blocking_lock :: "u64 \<Rightarrow> lock_record option \<Rightarrow> lock_record option" where
  "blocking_lock ts lock =
     (case lock of Some l \<Rightarrow> if lk_start_ts l \<le> ts \<and> lk_kind l \<noteq> KLock then Some l else None | None \<Rightarrow> None)"

definition read_at :: "txn_snapshot \<Rightarrow> bytes \<Rightarrow> u64 \<Rightarrow> read_outcome txn_result option" where
  "read_at S user_key ts =
     (case ts_get_lock S user_key of
        Err e \<Rightarrow> Some (Err e)
      | Ok lock \<Rightarrow>
          (case blocking_lock ts lock of
             Some l \<Rightarrow> Some (Ok (RdLocked l))
           | None \<Rightarrow>
               (case newest_version_at S user_key ts of
                  None \<Rightarrow> None
                | Some (Err e) \<Rightarrow> Some (Err e)
                | Some (Ok None) \<Rightarrow> Some (Ok RdNotFound)
                | Some (Ok (Some v)) \<Rightarrow> Some (value_of S user_key (vn_record v)))))"

section \<open>Prewrite\<close>

definition settled_state :: "txn_snapshot \<Rightarrow> bytes \<Rightarrow> u64 \<Rightarrow> settled txn_result" where
  "settled_state S user_key start_ts =
     ok_then (ts_write_of_txn S user_key start_ts) (\<lambda>r. Ok (case r of
         None \<Rightarrow> StUndecided
       | Some v \<Rightarrow> if wr_kind (vn_record v) = KRollback then StRolledBack else StCommitted (vn_commit_ts v)))"

definition prewrite_mutations :: "prewrite_req \<Rightarrow> mutations" where
  "prewrite_mutations p =
     (let ms = put_lock [] (pw_key p)
                 \<lparr>lk_kind = op_kind (pw_op p), lk_start_ts = pw_start_ts p, lk_ttl_ms = pw_ttl_ms p,
                  lk_primary = pw_primary p, lk_short_value = op_short_value (pw_op p)\<rparr>
      in case op_long_value (pw_op p) of None \<Rightarrow> ms | Some v \<Rightarrow> put_value ms (pw_key p) (pw_start_ts p) v)"

definition prewrite_against_lock :: "txn_snapshot \<Rightarrow> prewrite_req \<Rightarrow> prewrite_decision txn_result" where
  "prewrite_against_lock S p =
     ok_then (ts_get_lock S (pw_key p)) (\<lambda>lock.
       case lock of
         Some l \<Rightarrow>
           if lk_start_ts l \<noteq> pw_start_ts p then Ok (PwLocked l)
           else if op_kind (pw_op p) = KLock \<or> lk_kind l \<noteq> KLock then Ok PwAlreadyLocked
           else Ok (PwLock (prewrite_mutations p))
       | None \<Rightarrow> Ok (PwLock (prewrite_mutations p)))"

definition check_prewrite :: "txn_snapshot \<Rightarrow> prewrite_req \<Rightarrow> prewrite_decision txn_result" where
  "check_prewrite S p =
     ok_then (ts_write_of_txn S (pw_key p) (pw_start_ts p)) (\<lambda>ours.
       case ours of
         Some v \<Rightarrow> Ok (if wr_kind (vn_record v) = KRollback then PwRolledBack else PwAlreadyLocked)
       | None \<Rightarrow>
           ok_then (ts_newest_write_after S (pw_key p) (pw_read_ts p)) (\<lambda>winner.
             case winner of
               Some w \<Rightarrow>
                 if wr_start_ts (vn_record w) \<noteq> pw_start_ts p then Ok (PwConflict (vn_commit_ts w))
                 else prewrite_against_lock S p
             | None \<Rightarrow> prewrite_against_lock S p))"

section \<open>Commit\<close>

definition commit_mutations :: "bytes \<Rightarrow> u64 \<Rightarrow> lock_record \<Rightarrow> mutations" where
  "commit_mutations user_key commit_ts lock =
     delete_lock
       (put_write [] user_key commit_ts
          \<lparr>wr_kind = lk_kind lock, wr_start_ts = lk_start_ts lock, wr_short_value = lk_short_value lock\<rparr>)
       user_key"

definition held_by :: "u64 \<Rightarrow> lock_record option \<Rightarrow> lock_record option" where
  "held_by start_ts lock = (case lock of Some l \<Rightarrow> if lk_start_ts l = start_ts then Some l else None | None \<Rightarrow> None)"

definition commit_primary :: "txn_snapshot \<Rightarrow> bytes \<Rightarrow> u64 \<Rightarrow> u64 \<Rightarrow> commit_decision txn_result" where
  "commit_primary S prim start_ts commit_ts =
     (if commit_ts \<le> start_ts then Err (Misuse ''a commit timestamp must be above the start timestamp'')
      else
        let token = on_trust prim start_ts commit_ts
        in ok_then (ts_get_lock S prim) (\<lambda>lock.
             case held_by start_ts lock of
               Some l \<Rightarrow>
                 if \<not> lock_is_primary l prim then Err (Misuse ''the lock names another primary'')
                 else Ok (CdCommit \<lparr>pl_mutations = commit_mutations prim commit_ts l, pl_token = token\<rparr>)
             | None \<Rightarrow>
                 ok_then (settled_state S prim start_ts) (\<lambda>st.
                   case st of
                     StCommitted at \<Rightarrow>
                       if at = commit_ts then Ok (CdAlreadyCommitted token) else Err (AlreadyCommitted start_ts at)
                   | StRolledBack \<Rightarrow> Err (AlreadyRolledBack start_ts)
                   | StUndecided \<Rightarrow> Err (TxnLockNotFound start_ts))))"

definition commit_secondary :: "txn_snapshot \<Rightarrow> bytes \<Rightarrow> primary_committed \<Rightarrow> mutations txn_result" where
  "commit_secondary S user_key committed =
     (let start_ts = pc_start_ts committed
      in ok_then (ts_get_lock S user_key) (\<lambda>lock.
           case held_by start_ts lock of
             Some l \<Rightarrow>
               if lk_primary l \<noteq> pc_primary committed then Err (Misuse ''the lock names a different primary from the token'')
               else Ok (commit_mutations user_key (pc_commit_ts committed) l)
           | None \<Rightarrow>
               ok_then (settled_state S user_key start_ts) (\<lambda>st.
                 case st of
                   StCommitted at \<Rightarrow>
                     if at = pc_commit_ts committed then Ok [] else Err (AlreadyCommitted start_ts at)
                 | StRolledBack \<Rightarrow> Err (AlreadyRolledBack start_ts)
                 | StUndecided \<Rightarrow> Err (TxnLockNotFound start_ts))))"

section \<open>Rollback and release\<close>

definition drop_lock :: "mutations \<Rightarrow> bytes \<Rightarrow> u64 \<Rightarrow> lock_record \<Rightarrow> mutations" where
  "drop_lock ms user_key start_ts l =
     (let ms = delete_lock ms user_key
      in if lk_short_value l = None \<and> lk_kind l = KPut then delete_value ms user_key start_ts else ms)"

definition rollback_key :: "txn_snapshot \<Rightarrow> bytes \<Rightarrow> u64 \<Rightarrow> mutations txn_result" where
  "rollback_key S user_key start_ts =
     ok_then (settled_state S user_key start_ts) (\<lambda>st.
       case st of
         StCommitted at \<Rightarrow> Err (AlreadyCommitted start_ts at)
       | StRolledBack \<Rightarrow> Ok []
       | StUndecided \<Rightarrow>
           let ms = put_write [] user_key start_ts (write_record_rollback start_ts)
           in ok_then (ts_get_lock S user_key) (\<lambda>lock.
                Ok (case held_by start_ts lock of Some l \<Rightarrow> drop_lock ms user_key start_ts l | None \<Rightarrow> ms)))"

definition release_key :: "txn_snapshot \<Rightarrow> bytes \<Rightarrow> u64 \<Rightarrow> (mutations \<times> bool) txn_result" where
  "release_key S user_key start_ts =
     ok_then (ts_get_lock S user_key) (\<lambda>lock.
       Ok (case held_by start_ts lock of Some l \<Rightarrow> (drop_lock [] user_key start_ts l, True) | None \<Rightarrow> ([], False)))"

section \<open>Resolution\<close>

definition primary_state_of :: "txn_snapshot \<Rightarrow> bytes \<Rightarrow> u64 \<Rightarrow> primary_state txn_result" where
  "primary_state_of S prim start_ts =
     ok_then (settled_state S prim start_ts) (\<lambda>st.
       case st of
         StCommitted at \<Rightarrow> Ok (PsCommitted at)
       | StRolledBack \<Rightarrow> Ok PsRolledBack
       | StUndecided \<Rightarrow>
           ok_then (ts_get_lock S prim) (\<lambda>lock.
             Ok (case held_by start_ts lock of Some l \<Rightarrow> PsLocked l | None \<Rightarrow> PsMissing)))"

fun resolve :: "lock_record \<Rightarrow> primary_state \<Rightarrow> u64 \<Rightarrow> resolution" where
  "resolve lock (PsCommitted commit_ts) now_ts = RollForward commit_ts"
| "resolve lock PsRolledBack now_ts = RollBack"
| "resolve lock PsMissing now_ts = RollBack"
| "resolve lock (PsLocked primary_lock) now_ts =
     (if is_expired (lk_start_ts primary_lock) (lk_ttl_ms primary_lock) now_ts then RollBack else Wait)"

section \<open>What the decisions mean over a lawful snapshot\<close>

lemma held_by_Some [simp]: "held_by st lock = Some l \<longleftrightarrow> lock = Some l \<and> lk_start_ts l = st"
  by (auto simp: held_by_def split: option.splits)

lemma held_by_simps [simp]:
  "held_by st None = None" "held_by st (Some l) = (if lk_start_ts l = st then Some l else None)"
  by (simp_all add: held_by_def)

lemma held_by_None: "held_by st lock = None \<longleftrightarrow> (\<forall>l. lock = Some l \<longrightarrow> lk_start_ts l \<noteq> st)"
  by (auto simp: held_by_def split: option.splits)

lemma newest_where_SomeD:
  "newest_where W P (Some v) \<Longrightarrow> W (vn_commit_ts v) = Some (vn_record v) \<and> P (vn_commit_ts v) (vn_record v)"
  by (simp add: newest_where_def)

lemma newest_where_NoneD: "newest_where W P None \<Longrightarrow> W c = Some w \<Longrightarrow> \<not> P c w"
  by (simp add: newest_where_def)

context txn_view
begin

lemma newest_version_at_newest:
  assumes "ok s" "ts \<le> u64_max"
  shows "\<exists>r. newest_version_at (snap s) k ts = Some (Ok r)
    \<and> newest_where (wr s k) (\<lambda>c w. c \<le> ts \<and> is_a_version (wr_kind w)) r"
  using assms(2)
proof (induction ts rule: less_induct)
  case (less ts)
  obtain r where r: "ts_seek_write (snap s) k ts = Ok r" "newest_where (wr s k) (\<lambda>c w. c \<le> ts) r"
    using seek_write [OF assms(1) less.prems] by blast
  show ?case
  proof (cases r)
    case None
    with r show ?thesis by (subst newest_version_at.simps) (simp add: newest_where_def)
  next
    case (Some v)
    then have v: "wr s k (vn_commit_ts v) = Some (vn_record v)" "vn_commit_ts v \<le> ts"
      "\<And>c w. wr s k c = Some w \<Longrightarrow> c \<le> ts \<Longrightarrow> c \<le> vn_commit_ts v"
      using r(2) by (auto simp: newest_where_def)
    show ?thesis
    proof (cases "is_a_version (wr_kind (vn_record v))")
      case True
      with Some r(1) v show ?thesis by (subst newest_version_at.simps) (simp add: newest_where_def)
    next
      case marker: False
      show ?thesis
      proof (cases "vn_commit_ts v = 0")
        case True
        then have "newest_where (wr s k) (\<lambda>c w. c \<le> ts \<and> is_a_version (wr_kind w)) None"
          using v marker by (force simp: newest_where_def)
        with Some r(1) True marker show ?thesis by (subst newest_version_at.simps) simp
      next
        case False
        then have below: "vn_commit_ts v - 1 < ts" "vn_commit_ts v - 1 \<le> u64_max" using v(2) less.prems by simp_all
        have "c \<le> ts \<and> is_a_version (wr_kind w) \<longleftrightarrow> c \<le> vn_commit_ts v - 1 \<and> is_a_version (wr_kind w)"
          if "wr s k c = Some w" for c w
          using that v marker False below by (cases "c = vn_commit_ts v") (force dest: v(3))+
        then have "newest_where (wr s k) (\<lambda>c w. c \<le> ts \<and> is_a_version (wr_kind w))
            = newest_where (wr s k) (\<lambda>c w. c \<le> vn_commit_ts v - 1 \<and> is_a_version (wr_kind w))"
          by (auto simp: newest_where_def fun_eq_iff split: option.splits)
        moreover have "newest_version_at (snap s) k ts = newest_version_at (snap s) k (vn_commit_ts v - 1)"
          using Some r(1) marker False by (subst newest_version_at.simps) simp
        ultimately show ?thesis using less.IH [OF below] by simp
      qed
    qed
  qed
qed

lemma read_at_newest:
  assumes "ok s" "ts \<le> u64_max"
  shows "\<exists>r. newest_where (wr s k) (\<lambda>c w. c \<le> ts \<and> is_a_version (wr_kind w)) r
    \<and> read_at (snap s) k ts =
        Some (case blocking_lock ts (lk s k) of
                Some l \<Rightarrow> Ok (RdLocked l)
              | None \<Rightarrow> (case r of None \<Rightarrow> Ok RdNotFound | Some v \<Rightarrow> value_of (snap s) k (vn_record v)))"
proof -
  obtain r where "newest_version_at (snap s) k ts = Some (Ok r)"
    "newest_where (wr s k) (\<lambda>c w. c \<le> ts \<and> is_a_version (wr_kind w)) r"
    using newest_version_at_newest [OF assms] by blast
  then show ?thesis
    by (intro exI [of _ r]) (simp add: read_at_def get_lock [OF assms(1)] split: option.splits)
qed

lemma settled_cases:
  assumes "ok s" "st \<le> u64_max"
  obtains (undecided) "settled_state (snap s) k st = Ok StUndecided"
      "\<And>c w. wr s k c = Some w \<Longrightarrow> st \<le> c \<Longrightarrow> wr_start_ts w \<noteq> st"
  | (rolled_back) c w where "settled_state (snap s) k st = Ok StRolledBack"
      "wr s k c = Some w" "st \<le> c" "wr_start_ts w = st" "wr_kind w = KRollback"
  | (committed) c w where "settled_state (snap s) k st = Ok (StCommitted c)"
      "wr s k c = Some w" "st \<le> c" "wr_start_ts w = st" "wr_kind w \<noteq> KRollback"
proof -
  obtain r where r: "ts_write_of_txn (snap s) k st = Ok r"
    "newest_where (wr s k) (\<lambda>c w. st \<le> c \<and> wr_start_ts w = st) r"
    using write_of_txn [OF assms] by blast
  show ?thesis
  proof (cases r)
    case None
    with r show ?thesis by (intro undecided) (auto simp: settled_state_def newest_where_def)
  next
    case (Some v)
    with r(2) have v: "wr s k (vn_commit_ts v) = Some (vn_record v)" "st \<le> vn_commit_ts v" "wr_start_ts (vn_record v) = st"
      by (auto simp: newest_where_def)
    show ?thesis
    proof (cases "wr_kind (vn_record v) = KRollback")
      case True
      with Some r(1) v show ?thesis by (intro rolled_back) (auto simp: settled_state_def)
    next
      case False
      with Some r(1) v show ?thesis by (intro committed) (auto simp: settled_state_def)
    qed
  qed
qed

lemma check_prewrite_total:
  assumes "ok s" "pw_start_ts p \<le> u64_max" "pw_read_ts p < u64_max"
  shows "\<exists>d. check_prewrite (snap s) p = Ok d"
  using write_of_txn [OF assms(1,2), of "pw_key p"] newest_write_after [OF assms(1,3), of "pw_key p"]
  by (auto simp: check_prewrite_def prewrite_against_lock_def get_lock [OF assms(1)] split: option.splits)

lemma prewrite_lock:
  assumes s: "ok s" and ts: "pw_start_ts p \<le> u64_max" "pw_read_ts p < u64_max"
    and dec: "check_prewrite (snap s) p = Ok (PwLock ms)"
  shows "ms = prewrite_mutations p"
    and "wr s (pw_key p) c = Some w \<Longrightarrow> pw_start_ts p \<le> c \<Longrightarrow> wr_start_ts w \<noteq> pw_start_ts p"
    and "wr s (pw_key p) c = Some w \<Longrightarrow> wr_kind w \<notin> {KRollback, KLock} \<Longrightarrow> c \<le> pw_read_ts p \<or>
      (\<exists>c' w'. wr s (pw_key p) c' = Some w' \<and> pw_read_ts p < c' \<and> wr_start_ts w' = pw_start_ts p)"
    and "lk s (pw_key p) = Some l \<Longrightarrow> lk_start_ts l = pw_start_ts p \<and> lk_kind l = KLock \<and> op_kind (pw_op p) \<noteq> KLock"
proof -
  obtain r where r: "ts_write_of_txn (snap s) (pw_key p) (pw_start_ts p) = Ok r"
    "newest_where (wr s (pw_key p)) (\<lambda>c w. pw_start_ts p \<le> c \<and> wr_start_ts w = pw_start_ts p) r"
    using write_of_txn [OF s ts(1)] by blast
  obtain n where n: "ts_newest_write_after (snap s) (pw_key p) (pw_read_ts p) = Ok n"
    "newest_where (wr s (pw_key p)) (\<lambda>c w. pw_read_ts p < c \<and> wr_kind w \<notin> {KRollback, KLock}) n"
    using newest_write_after [OF s ts(2)] by blast
  from dec r(1) have "r = None" by (auto simp: check_prewrite_def split: option.splits if_splits)
  with dec r n have lockd: "prewrite_against_lock (snap s) p = Ok (PwLock ms)"
    and win: "\<And>v. n = Some v \<Longrightarrow> wr_start_ts (vn_record v) = pw_start_ts p"
    by (auto simp: check_prewrite_def split: option.splits if_splits)
  from lockd show "ms = prewrite_mutations p"
    and "lk s (pw_key p) = Some l \<Longrightarrow> lk_start_ts l = pw_start_ts p \<and> lk_kind l = KLock \<and> op_kind (pw_op p) \<noteq> KLock"
    by (auto simp: prewrite_against_lock_def get_lock [OF s] split: option.splits if_splits)
  show "wr s (pw_key p) c = Some w \<Longrightarrow> pw_start_ts p \<le> c \<Longrightarrow> wr_start_ts w \<noteq> pw_start_ts p"
    using r(2) \<open>r = None\<close> by (auto simp: newest_where_def)
  assume w: "wr s (pw_key p) c = Some w" "wr_kind w \<notin> {KRollback, KLock}"
  show "c \<le> pw_read_ts p \<or>
      (\<exists>c' w'. wr s (pw_key p) c' = Some w' \<and> pw_read_ts p < c' \<and> wr_start_ts w' = pw_start_ts p)"
  proof (cases n)
    case None
    with n(2) w have "\<not> pw_read_ts p < c" by (auto simp: newest_where_def)
    then show ?thesis by simp
  next
    case (Some v)
    with n(2) win [OF Some] show ?thesis by (auto simp: newest_where_def)
  qed
qed

lemma commit_primary_plan:
  assumes s: "ok s" and "st \<le> u64_max" and dec: "commit_primary (snap s) p st c = Ok (CdCommit pl)"
  shows "st < c \<and> (\<exists>l. lk s p = Some l \<and> lk_start_ts l = st \<and> lk_primary l = p
    \<and> pl_mutations pl = commit_mutations p c l \<and> pl_token pl = on_trust p st c)"
proof (cases "held_by st (lk s p)")
  case None
  show ?thesis
    by (cases rule: settled_cases [OF s assms(2), of p])
      (use None dec in \<open>auto simp: commit_primary_def get_lock [OF s] Let_def split: if_splits\<close>)
next
  case (Some l)
  with dec show ?thesis
    by (auto simp: commit_primary_def get_lock [OF s] Let_def lock_is_primary_def split: if_splits)
qed

lemma commit_secondary_Ok:
  assumes s: "ok s" and st: "pc_start_ts t \<le> u64_max" and dec: "commit_secondary (snap s) k t = Ok ms"
  shows "(\<exists>l. lk s k = Some l \<and> lk_start_ts l = pc_start_ts t \<and> lk_primary l = pc_primary t
      \<and> ms = commit_mutations k (pc_commit_ts t) l)
    \<or> ms = [] \<and> (\<exists>w. wr s k (pc_commit_ts t) = Some w \<and> wr_start_ts w = pc_start_ts t \<and> wr_kind w \<noteq> KRollback)"
proof (cases "held_by (pc_start_ts t) (lk s k)")
  case None
  show ?thesis
    by (cases rule: settled_cases [OF s st, of k])
      (use None dec in \<open>auto simp: commit_secondary_def get_lock [OF s] Let_def split: if_splits\<close>)
next
  case (Some l)
  with dec show ?thesis
    by (auto simp: commit_secondary_def get_lock [OF s] Let_def split: if_splits)
qed

lemma rollback_Ok:
  assumes s: "ok s" and st: "st \<le> u64_max" and dec: "rollback_key (snap s) k st = Ok ms"
  shows "ms = [] \<and> (\<exists>c w. wr s k c = Some w \<and> st \<le> c \<and> wr_start_ts w = st \<and> wr_kind w = KRollback)
    \<or> (\<forall>c w. wr s k c = Some w \<longrightarrow> st \<le> c \<longrightarrow> wr_start_ts w \<noteq> st)
      \<and> ms = (case held_by st (lk s k) of
               Some l \<Rightarrow> drop_lock (put_write [] k st (write_record_rollback st)) k st l
             | None \<Rightarrow> put_write [] k st (write_record_rollback st))"
  by (cases rule: settled_cases [OF s st, of k]) (use dec in \<open>auto simp: rollback_key_def get_lock [OF s] Let_def\<close>)

lemma release_Ok:
  assumes s: "ok s"
  shows "release_key (snap s) k st =
    Ok (case held_by st (lk s k) of Some l \<Rightarrow> (drop_lock [] k st l, True) | None \<Rightarrow> ([], False))"
  by (simp add: release_key_def get_lock [OF s])

end

section \<open>Properties of reads and leases\<close>





end
