(* ===== verification/TxnKv.thy ===== *)
theory TxnKv
  imports Percolator
begin

text \<open>
  The transactional methods of a store (\<^verbatim>\<open>esker-store/src/txnkv.rs\<close>) with the wire values they speak
  (\<^verbatim>\<open>TxnMutation\<close>, \<^verbatim>\<open>TxnStatus\<close>, \<^verbatim>\<open>LockInfo\<close> of \<^verbatim>\<open>esker-proto/src/txn.rs\<close>). A handler reads the engine through
  one snapshot, decides key by key, and stages a write batch; it answers the batch as it leaves it and
  the response or the error. A handler that scans a range may not return on an engine that breaks its
  contract, hence the outer option.
\<close>

section \<open>Wire values\<close>

record lock_info =
  li_key :: bytes
  li_primary :: bytes
  li_start_ts :: u64
  li_ttl_ms :: u64

definition lock_info_encode :: "lock_info \<Rightarrow> bytes" where
  "lock_info_encode i =
     put_u64 (length (li_key i)) @ li_key i @ put_u64 (length (li_primary i)) @ li_primary i
       @ put_u64 (li_start_ts i) @ put_u64 (li_ttl_ms i)"

datatype proto_error =
    PeCorrupt string corrupt_detail
  | PeLocked bytes
  | PeInternal txn_error
  | PeNoColumnFamily cf

type_synonym 'a proto_result = "('a, proto_error) result"

definition into_error :: "lock_info \<Rightarrow> proto_error" where
  "into_error i = PeLocked (lock_info_encode i)"

datatype txn_status =
    TsOk
  | TsConflict u64
  | TsRolledBack
  | TsCommitted u64
  | TsLockNotFound
  | TsLocked lock_info

definition status_is_ok :: "txn_status \<Rightarrow> bool" where
  "status_is_ok st \<longleftrightarrow> st = TsOk"

datatype txn_mutation =
    TmPut bytes bytes "u64 option"
  | TmDelete bytes "u64 option"
  | TmCheck bytes "u64 option"
  | TmCheckRange bytes bytes

fun tm_key :: "txn_mutation \<Rightarrow> bytes" where
  "tm_key (TmPut k _ _) = k"
| "tm_key (TmDelete k _) = k"
| "tm_key (TmCheck k _) = k"
| "tm_key (TmCheckRange start _) = start"

datatype txn_resp =
    RespGet "bytes option"
  | RespLatestCommit "u64 option"
  | RespPrewrite "txn_status list"
  | RespCommit txn_status
  | RespRollback txn_status
  | RespReleaseLock u64
  | RespResolveLock u64
  | RespHeartbeat u64

definition lock_info_of :: "bytes \<Rightarrow> lock_record \<Rightarrow> lock_info" where
  "lock_info_of user_key l =
     \<lparr>li_key = user_key, li_primary = lk_primary l, li_start_ts = lk_start_ts l, li_ttl_ms = lk_ttl_ms l\<rparr>"

fun status_of :: "txn_error \<Rightarrow> txn_status" where
  "status_of (WriteConflict _ commit_ts) = TsConflict commit_ts"
| "status_of (AlreadyRolledBack _) = TsRolledBack"
| "status_of (AlreadyCommitted _ commit_ts) = TsCommitted commit_ts"
| "status_of (TxnLockNotFound _) = TsLockNotFound"
| "status_of (Corrupt _ _) = TsLockNotFound"
| "status_of (KeyIsLocked _ _) = TsLockNotFound"
| "status_of (MissingValue _) = TsLockNotFound"
| "status_of (Misuse _) = TsLockNotFound"

fun txn_to_proto :: "txn_error \<Rightarrow> proto_error" where
  "txn_to_proto (Corrupt what detail) = PeCorrupt what detail"
| "txn_to_proto (KeyIsLocked info _) = PeLocked info"
| "txn_to_proto (MissingValue start_ts) = PeCorrupt ''default cf'' (ValueNotThere start_ts)"
| "txn_to_proto other = PeInternal other"

fun map_proto :: "'a txn_result \<Rightarrow> 'a proto_result" where
  "map_proto (Ok a) = Ok a"
| "map_proto (Err e) = Err (txn_to_proto e)"

section \<open>Staging\<close>

text \<open>A batch carries the number of each column family; here it carries the family itself, once its number
  is known. What was staged before a missing family stays in the batch.\<close>

fun stage :: "engine \<Rightarrow> mutations \<Rightarrow> mutations \<Rightarrow> mutations \<times> unit proto_result" where
  "stage db batch [] = (batch, Ok ())"
| "stage db batch (x # xs) =
     (case en_cf_id db (mut_cf x) of
        None \<Rightarrow> (batch, Err (PeNoColumnFamily (mut_cf x)))
      | Some _ \<Rightarrow> stage db (batch @ [x]) xs)"

definition stage_then :: "engine \<Rightarrow> mutations \<Rightarrow> mutations \<Rightarrow> txn_resp \<Rightarrow> mutations \<times> txn_resp proto_result" where
  "stage_then db batch staged resp =
     (case stage db batch staged of (b, Ok _) \<Rightarrow> (b, Ok resp) | (b, Err e) \<Rightarrow> (b, Err e))"

section \<open>Point reads\<close>

definition latest_commit :: "engine \<Rightarrow> bytes \<Rightarrow> txn_resp proto_result" where
  "latest_commit db key =
     ok_then (map_proto (ts_newest_write_after (engine_snapshot db) key 0)) (\<lambda>v.
       Ok (RespLatestCommit (map_option vn_commit_ts v)))"

definition kv_get :: "engine \<Rightarrow> bytes \<Rightarrow> u64 \<Rightarrow> txn_resp proto_result option" where
  "kv_get db user_key ts =
     map_option
       (\<lambda>r. ok_then (map_proto r) (\<lambda>out.
          case out of
            RdValue v \<Rightarrow> Ok (RespGet (Some v))
          | RdNotFound \<Rightarrow> Ok (RespGet None)
          | RdLocked l \<Rightarrow> Err (into_error (lock_info_of user_key l))))
       (read_at (engine_snapshot db) user_key ts)"

section \<open>Prewrite\<close>

fun tm_read_ts :: "u64 \<Rightarrow> txn_mutation \<Rightarrow> u64" where
  "tm_read_ts start_ts (TmPut _ _ r) = (case r of Some t \<Rightarrow> t | None \<Rightarrow> start_ts)"
| "tm_read_ts start_ts (TmDelete _ r) = (case r of Some t \<Rightarrow> t | None \<Rightarrow> start_ts)"
| "tm_read_ts start_ts (TmCheck _ r) = (case r of Some t \<Rightarrow> t | None \<Rightarrow> start_ts)"
| "tm_read_ts start_ts (TmCheckRange _ _) = start_ts"

fun tm_op :: "txn_mutation \<Rightarrow> op" where
  "tm_op (TmPut _ v _) = OpPut v"
| "tm_op (TmDelete _ _) = OpDelete"
| "tm_op (TmCheck _ _) = OpCheck"
| "tm_op (TmCheckRange _ _) = OpCheck"

definition tm_request :: "u64 \<Rightarrow> bytes \<Rightarrow> u64 \<Rightarrow> txn_mutation \<Rightarrow> prewrite_req" where
  "tm_request start_ts prim ttl_ms x =
     \<lparr>pw_key = tm_key x, pw_primary = prim, pw_start_ts = start_ts, pw_read_ts = tm_read_ts start_ts x,
      pw_ttl_ms = ttl_ms, pw_op = tm_op x\<rparr>"

fun decision_status :: "bytes \<Rightarrow> prewrite_decision \<Rightarrow> txn_status \<times> mutations" where
  "decision_status k (PwLock ms) = (TsOk, ms)"
| "decision_status k PwAlreadyLocked = (TsOk, [])"
| "decision_status k (PwLocked l) = (TsLocked (lock_info_of k l), [])"
| "decision_status k (PwConflict c) = (TsConflict c, [])"
| "decision_status k PwRolledBack = (TsRolledBack, [])"

text \<open>The status of one mutation and what it stages.\<close>

definition check_range :: "txn_snapshot \<Rightarrow> u64 \<Rightarrow> bytes \<Rightarrow> bytes \<Rightarrow> txn_status proto_result option" where
  "check_range S start_ts start end' =
     (case ts_newest_write_in_range S start end' start_ts of
        None \<Rightarrow> None
      | Some winner \<Rightarrow>
          Some (ok_then (map_proto winner) (\<lambda>w.
            case w of
              Some v \<Rightarrow> Ok (TsConflict (vn_commit_ts v))
            | None \<Rightarrow>
                ok_then (map_proto (ts_foreign_lock_in_range S start end' start_ts)) (\<lambda>f.
                  case f of
                    Some (k, l) \<Rightarrow> Ok (TsLocked (lock_info_of k l))
                  | None \<Rightarrow> Ok TsOk))))"

definition prewrite_one ::
  "txn_snapshot \<Rightarrow> u64 \<Rightarrow> bytes \<Rightarrow> u64 \<Rightarrow> txn_mutation \<Rightarrow> (txn_status \<times> mutations) proto_result option" where
  "prewrite_one S start_ts prim ttl_ms x =
     (case x of
        TmCheckRange start end' \<Rightarrow>
          map_option (\<lambda>r. ok_then r (\<lambda>st. Ok (st, []))) (check_range S start_ts start end')
      | _ \<Rightarrow>
          Some (ok_then (map_proto (check_prewrite S (tm_request start_ts prim ttl_ms x))) (\<lambda>d.
            Ok (decision_status (tm_key x) d))))"

fun prewrite_loop ::
  "txn_snapshot \<Rightarrow> u64 \<Rightarrow> bytes \<Rightarrow> u64 \<Rightarrow> txn_mutation list \<Rightarrow> txn_status list \<Rightarrow> mutations \<Rightarrow> bool \<Rightarrow>
   (txn_status list \<times> mutations \<times> bool) proto_result option" where
  "prewrite_loop S start_ts prim ttl_ms [] statuses staged refused = Some (Ok (statuses, staged, refused))"
| "prewrite_loop S start_ts prim ttl_ms (x # xs) statuses staged refused =
     (case prewrite_one S start_ts prim ttl_ms x of
        None \<Rightarrow> None
      | Some (Err e) \<Rightarrow> Some (Err e)
      | Some (Ok (st, ms)) \<Rightarrow>
          prewrite_loop S start_ts prim ttl_ms xs (statuses @ [st]) (staged @ ms) (refused \<or> \<not> status_is_ok st))"

definition kv_prewrite ::
  "engine \<Rightarrow> mutations \<Rightarrow> u64 \<Rightarrow> bytes \<Rightarrow> u64 \<Rightarrow> txn_mutation list \<Rightarrow> (mutations \<times> txn_resp proto_result) option" where
  "kv_prewrite db batch start_ts prim ttl_ms xs =
     (case prewrite_loop (engine_snapshot db) start_ts prim ttl_ms xs [] [] False of
        None \<Rightarrow> None
      | Some (Err e) \<Rightarrow> Some (batch, Err e)
      | Some (Ok (statuses, staged, refused)) \<Rightarrow>
          Some (if \<not> refused then stage_then db batch staged (RespPrewrite statuses)
                else (batch, Ok (RespPrewrite statuses))))"

section \<open>Commit\<close>

definition kv_secondary :: "txn_snapshot \<Rightarrow> bytes \<Rightarrow> u64 \<Rightarrow> u64 \<Rightarrow> mutations txn_result" where
  "kv_secondary S user_key start_ts commit_ts =
     ok_then (ts_get_lock S user_key) (\<lambda>lock.
       let prim = (case lock of None \<Rightarrow> user_key | Some l \<Rightarrow> lk_primary l)
       in commit_secondary S user_key (on_trust prim start_ts commit_ts))"

definition commit_one :: "txn_snapshot \<Rightarrow> u64 \<Rightarrow> u64 \<Rightarrow> bytes \<Rightarrow> mutations txn_result proto_result" where
  "commit_one S start_ts commit_ts user_key =
     ok_then (map_proto (ts_get_lock S user_key)) (\<lambda>lock.
       let is_primary = (case lock of Some l \<Rightarrow> lock_is_primary l user_key | None \<Rightarrow> True)
       in Ok (if is_primary then
                ok_then (commit_primary S user_key start_ts commit_ts) (\<lambda>d.
                  case d of CdCommit plan \<Rightarrow> Ok (into_mutations plan) | CdAlreadyCommitted _ \<Rightarrow> Ok [])
              else kv_secondary S user_key start_ts commit_ts))"

text \<open>An inner error ends the loop with a status and nothing staged.\<close>

fun commit_loop :: "txn_snapshot \<Rightarrow> u64 \<Rightarrow> u64 \<Rightarrow> bytes list \<Rightarrow> mutations \<Rightarrow> (mutations, txn_status) result proto_result" where
  "commit_loop S start_ts commit_ts [] staged = Ok (Ok staged)"
| "commit_loop S start_ts commit_ts (k # ks) staged =
     ok_then (commit_one S start_ts commit_ts k) (\<lambda>outcome.
       case outcome of
         Ok ms \<Rightarrow> commit_loop S start_ts commit_ts ks (staged @ ms)
       | Err e \<Rightarrow> Ok (Err (status_of e)))"

definition kv_commit :: "engine \<Rightarrow> mutations \<Rightarrow> u64 \<Rightarrow> u64 \<Rightarrow> bytes list \<Rightarrow> mutations \<times> txn_resp proto_result" where
  "kv_commit db batch start_ts commit_ts keys =
     (case commit_loop (engine_snapshot db) start_ts commit_ts keys [] of
        Err e \<Rightarrow> (batch, Err e)
      | Ok (Err st) \<Rightarrow> (batch, Ok (RespCommit st))
      | Ok (Ok staged) \<Rightarrow> stage_then db batch staged (RespCommit TsOk))"

section \<open>Rollback, release, resolution, heartbeat\<close>

fun rollback_loop :: "txn_snapshot \<Rightarrow> u64 \<Rightarrow> bytes list \<Rightarrow> mutations \<Rightarrow> (mutations, txn_status) result" where
  "rollback_loop S start_ts [] staged = Ok staged"
| "rollback_loop S start_ts (k # ks) staged =
     (case rollback_key S k start_ts of
        Ok ms \<Rightarrow> rollback_loop S start_ts ks (staged @ ms)
      | Err e \<Rightarrow> Err (status_of e))"

definition kv_rollback :: "engine \<Rightarrow> mutations \<Rightarrow> u64 \<Rightarrow> bytes list \<Rightarrow> mutations \<times> txn_resp proto_result" where
  "kv_rollback db batch start_ts keys =
     (case rollback_loop (engine_snapshot db) start_ts keys [] of
        Err st \<Rightarrow> (batch, Ok (RespRollback st))
      | Ok staged \<Rightarrow> stage_then db batch staged (RespRollback TsOk))"

fun release_loop :: "txn_snapshot \<Rightarrow> u64 \<Rightarrow> bytes list \<Rightarrow> mutations \<Rightarrow> u64 \<Rightarrow> (mutations \<times> u64) proto_result" where
  "release_loop S start_ts [] staged released = Ok (staged, released)"
| "release_loop S start_ts (k # ks) staged released =
     ok_then (map_proto (release_key S k start_ts)) (\<lambda>(ms, gave_back).
       if gave_back then release_loop S start_ts ks (staged @ ms) (released + 1)
       else release_loop S start_ts ks staged released)"

definition kv_release_lock :: "engine \<Rightarrow> mutations \<Rightarrow> u64 \<Rightarrow> bytes list \<Rightarrow> mutations \<times> txn_resp proto_result" where
  "kv_release_lock db batch start_ts keys =
     (case release_loop (engine_snapshot db) start_ts keys [] 0 of
        Err e \<Rightarrow> (batch, Err e)
      | Ok (staged, released) \<Rightarrow> stage_then db batch staged (RespReleaseLock released))"

definition resolve_one :: "txn_snapshot \<Rightarrow> u64 \<Rightarrow> u64 \<Rightarrow> bytes \<Rightarrow> mutations option proto_result" where
  "resolve_one S start_ts commit_ts user_key =
     ok_then (map_proto (ts_get_lock S user_key)) (\<lambda>lock.
       if held_by start_ts lock = None then Ok None
       else if commit_ts = 0 then
         Ok (case rollback_key S user_key start_ts of Ok ms \<Rightarrow> Some ms | Err _ \<Rightarrow> None)
       else
         ok_then (map_proto (ts_get_lock S user_key)) (\<lambda>lock.
           let prim = (case lock of None \<Rightarrow> user_key | Some l \<Rightarrow> lk_primary l)
           in Ok (case commit_secondary S user_key (on_trust prim start_ts commit_ts) of
                    Ok ms \<Rightarrow> Some ms
                  | Err _ \<Rightarrow> None)))"

fun resolve_loop :: "txn_snapshot \<Rightarrow> u64 \<Rightarrow> u64 \<Rightarrow> bytes list \<Rightarrow> mutations \<Rightarrow> u64 \<Rightarrow> (mutations \<times> u64) proto_result" where
  "resolve_loop S start_ts commit_ts [] staged resolved = Ok (staged, resolved)"
| "resolve_loop S start_ts commit_ts (k # ks) staged resolved =
     ok_then (resolve_one S start_ts commit_ts k) (\<lambda>r.
       case r of
         Some ms \<Rightarrow> resolve_loop S start_ts commit_ts ks (staged @ ms) (resolved + 1)
       | None \<Rightarrow> resolve_loop S start_ts commit_ts ks staged resolved)"

definition kv_resolve_lock :: "engine \<Rightarrow> mutations \<Rightarrow> u64 \<Rightarrow> u64 \<Rightarrow> bytes list \<Rightarrow> mutations \<times> txn_resp proto_result" where
  "kv_resolve_lock db batch start_ts commit_ts keys =
     (case resolve_loop (engine_snapshot db) start_ts commit_ts keys [] 0 of
        Err e \<Rightarrow> (batch, Err e)
      | Ok (staged, resolved) \<Rightarrow> stage_then db batch staged (RespResolveLock resolved))"

definition kv_heartbeat :: "engine \<Rightarrow> mutations \<Rightarrow> u64 \<Rightarrow> bytes \<Rightarrow> u64 \<Rightarrow> mutations \<times> txn_resp proto_result" where
  "kv_heartbeat db batch start_ts prim ttl_ms =
     (case map_proto (ts_get_lock (engine_snapshot db) prim) of
        Err e \<Rightarrow> (batch, Err e)
      | Ok lock \<Rightarrow>
          (case held_by start_ts lock of
             None \<Rightarrow> (batch, Ok (RespHeartbeat 0))
           | Some l \<Rightarrow>
               if lk_ttl_ms l < ttl_ms then
                 stage_then db batch (put_lock [] prim (l\<lparr>lk_ttl_ms := ttl_ms\<rparr>)) (RespHeartbeat ttl_ms)
               else (batch, Ok (RespHeartbeat (lk_ttl_ms l)))))"

end
