(* ===== verification/WireCodec.thy ===== *)
theory WireCodec
  imports Varint
begin

text \<open>
  The field encoder and decoder of message bodies and replicated commands (\<^verbatim>\<open>esker-proto/src/codec.rs\<close>).
  The encoder functions answer the bytes they append; the decoder is the bytes it has not read yet. The
  law every format here obeys is the locale \<^verbatim>\<open>exact_codec\<close>: decoding succeeds exactly on an encoding
  followed by the rest, so an encoding is unambiguous and nothing else is accepted. Sequences, counted
  lists and options of exact formats are exact. A string is its UTF-8 bytes.
\<close>

section \<open>Encoder and decoder\<close>

datatype invalid_reason = NotU32 u64 | BooleanByte byte | CountExceeds u64 nat

datatype decode_error =
    DeTruncated string nat nat
  | DeVarint string
  | DeUnknownTag string u64
  | DeInvalid string invalid_reason
  | DeUtf8 string
  | DeTrailing nat

definition enc_u8 :: "byte \<Rightarrow> bytes" where
  "enc_u8 b = [b]"

definition enc_u16 :: "nat \<Rightarrow> bytes" where
  "enc_u16 n = le_bytes 2 n"

definition enc_u32 :: "nat \<Rightarrow> bytes" where
  "enc_u32 n = le_bytes 4 n"

definition enc_u64 :: "u64 \<Rightarrow> bytes" where
  "enc_u64 n = le_bytes 8 n"

definition enc_varint :: "u64 \<Rightarrow> bytes" where
  "enc_varint n = put_u64 n"

definition enc_bool :: "bool \<Rightarrow> bytes" where
  "enc_bool b = [if b then 1 else 0]"

definition enc_bytes :: "bytes \<Rightarrow> bytes" where
  "enc_bytes v = enc_varint (length v) @ v"

definition enc_str :: "bytes \<Rightarrow> bytes" where
  "enc_str v = enc_bytes v"

definition enc_opt_bytes :: "bytes option \<Rightarrow> bytes" where
  "enc_opt_bytes v = (case v of Some b \<Rightarrow> enc_bool True @ enc_bytes b | None \<Rightarrow> enc_bool False)"

definition varint_len :: "u64 \<Rightarrow> nat" where
  "varint_len v = encoded_len_u64 v"

definition bytes_len :: "bytes \<Rightarrow> nat" where
  "bytes_len v = varint_len (length v) + length v"

definition BOOL_LEN :: nat where
  "BOOL_LEN = 1"

definition opt_bytes_len :: "bytes option \<Rightarrow> nat" where
  "opt_bytes_len v = BOOL_LEN + (case v of None \<Rightarrow> 0 | Some b \<Rightarrow> bytes_len b)"

type_synonym 'a decoded = "('a \<times> bytes, decode_error) result"

definition dec_take :: "string \<Rightarrow> nat \<Rightarrow> bytes \<Rightarrow> bytes decoded" where
  "dec_take field count rest =
     (if length rest < count then Err (DeTruncated field count (length rest))
      else Ok (take count rest, drop count rest))"

definition dec_u8 :: "string \<Rightarrow> bytes \<Rightarrow> byte decoded" where
  "dec_u8 field rest = ok_then (dec_take field 1 rest) (\<lambda>(b, rest). Ok (b ! 0, rest))"

definition dec_u16 :: "string \<Rightarrow> bytes \<Rightarrow> nat decoded" where
  "dec_u16 field rest = ok_then (dec_take field 2 rest) (\<lambda>(b, rest). Ok (of_le_bytes b, rest))"

definition dec_u32 :: "string \<Rightarrow> bytes \<Rightarrow> nat decoded" where
  "dec_u32 field rest = ok_then (dec_take field 4 rest) (\<lambda>(b, rest). Ok (of_le_bytes b, rest))"

definition dec_u64 :: "string \<Rightarrow> bytes \<Rightarrow> u64 decoded" where
  "dec_u64 field rest = ok_then (dec_take field 8 rest) (\<lambda>(b, rest). Ok (of_le_bytes b, rest))"

definition dec_varint :: "string \<Rightarrow> bytes \<Rightarrow> u64 decoded" where
  "dec_varint field rest =
     (case get_u64 rest of Err _ \<Rightarrow> Err (DeVarint field) | Ok (v, used) \<Rightarrow> Ok (v, drop used rest))"

definition dec_varint_u32 :: "string \<Rightarrow> bytes \<Rightarrow> nat decoded" where
  "dec_varint_u32 field rest =
     ok_then (dec_varint field rest) (\<lambda>(v, rest).
       if v < 2 ^ 32 then Ok (v, rest) else Err (DeInvalid field (NotU32 v)))"

definition dec_bool :: "string \<Rightarrow> bytes \<Rightarrow> bool decoded" where
  "dec_bool field rest =
     ok_then (dec_u8 field rest) (\<lambda>(b, rest).
       if b = 0 then Ok (False, rest) else if b = 1 then Ok (True, rest)
       else Err (DeInvalid field (BooleanByte b)))"

definition dec_bytes :: "string \<Rightarrow> bytes \<Rightarrow> bytes decoded" where
  "dec_bytes field rest = ok_then (dec_varint field rest) (\<lambda>(len, rest). dec_take field len rest)"

text \<open>\<^verbatim>\<open>std::str::from_utf8\<close>: the byte sequences of the Unicode standard's table of well-formed UTF-8.\<close>

abbreviation utf8_tail :: "byte \<Rightarrow> bool" where
  "utf8_tail b \<equiv> 0x80 \<le> b \<and> b \<le> 0xBF"

fun utf8_valid :: "bytes \<Rightarrow> bool" where
  "utf8_valid [] = True"
| "utf8_valid (a # r) =
     (if a < 0x80 then utf8_valid r
      else if 0xC2 \<le> a \<and> a \<le> 0xDF then (case r of b # s \<Rightarrow> utf8_tail b \<and> utf8_valid s | [] \<Rightarrow> False)
      else if 0xE0 \<le> a \<and> a \<le> 0xEF then
        (case r of
           b # c # s \<Rightarrow> (if a = 0xE0 then 0xA0 \<le> b \<and> b \<le> 0xBF else if a = 0xED then 0x80 \<le> b \<and> b \<le> 0x9F else utf8_tail b)
             \<and> utf8_tail c \<and> utf8_valid s
         | _ \<Rightarrow> False)
      else if 0xF0 \<le> a \<and> a \<le> 0xF4 then
        (case r of
           b # c # d # s \<Rightarrow> (if a = 0xF0 then 0x90 \<le> b \<and> b \<le> 0xBF else if a = 0xF4 then 0x80 \<le> b \<and> b \<le> 0x8F else utf8_tail b)
             \<and> utf8_tail c \<and> utf8_tail d \<and> utf8_valid s
         | _ \<Rightarrow> False)
      else False)"

definition dec_str :: "string \<Rightarrow> bytes \<Rightarrow> bytes decoded" where
  "dec_str field rest =
     ok_then (dec_bytes field rest) (\<lambda>(v, rest).
       if utf8_valid v then Ok (v, rest) else Err (DeUtf8 field))"

definition dec_opt_bytes :: "string \<Rightarrow> bytes \<Rightarrow> bytes option decoded" where
  "dec_opt_bytes field rest =
     ok_then (dec_bool field rest) (\<lambda>(b, rest).
       if b then ok_then (dec_bytes field rest) (\<lambda>(v, rest). Ok (Some v, rest)) else Ok (None, rest))"

definition dec_count :: "string \<Rightarrow> bytes \<Rightarrow> nat decoded" where
  "dec_count field rest =
     ok_then (dec_varint field rest) (\<lambda>(count, rest).
       if length rest < count then Err (DeInvalid field (CountExceeds count (length rest))) else Ok (count, rest))"

definition dec_finish :: "bytes \<Rightarrow> (unit, decode_error) result" where
  "dec_finish rest = (if rest = [] then Ok () else Err (DeTrailing (length rest)))"

text \<open>The loop that reads a known number of elements.\<close>

fun dec_repeat :: "(bytes \<Rightarrow> ('a \<times> bytes, 'e) result) \<Rightarrow> nat \<Rightarrow> bytes \<Rightarrow> ('a list \<times> bytes, 'e) result" where
  "dec_repeat dec 0 rest = Ok ([], rest)"
| "dec_repeat dec (Suc n) rest =
     ok_then (dec rest) (\<lambda>(v, rest). ok_then (dec_repeat dec n rest) (\<lambda>(vs, rest). Ok (v # vs, rest)))"

section \<open>Exact formats\<close>

locale exact_codec =
  fixes enc :: "'a \<Rightarrow> bytes"
    and dec :: "bytes \<Rightarrow> ('a \<times> bytes, 'e) result"
    and ok :: "'a \<Rightarrow> bool"
  assumes exact: "dec bs = Ok (v, r) \<longleftrightarrow> ok v \<and> bs = enc v @ r"
    and nonempty: "ok v \<Longrightarrow> enc v \<noteq> []"
begin

lemma roundtrip: "ok v \<Longrightarrow> dec (enc v @ r) = Ok (v, r)"
  by (simp add: exact)

lemma unambiguous: "ok v \<Longrightarrow> ok w \<Longrightarrow> enc v @ r = enc w @ s \<longleftrightarrow> v = w \<and> r = s"
  by (metis exact prod.inject result.inject(1))

lemma repeat_exact:
  "dec_repeat dec n bs = Ok (vs, r) \<longleftrightarrow> length vs = n \<and> (\<forall>v \<in> set vs. ok v) \<and> bs = concat (map enc vs) @ r"
proof (induction n arbitrary: bs vs)
  case (Suc n)
  show ?case
  proof
    assume "dec_repeat dec (Suc n) bs = Ok (vs, r)"
    then obtain v rest vs' where "dec bs = Ok (v, rest)" "dec_repeat dec n rest = Ok (vs', r)" "vs = v # vs'"
      by (auto simp: ok_then_Ok split: prod.splits)
    then show "length vs = Suc n \<and> (\<forall>v \<in> set vs. ok v) \<and> bs = concat (map enc vs) @ r"
      using Suc.IH [of rest vs'] by (auto simp: exact)
  next
    assume vs: "length vs = Suc n \<and> (\<forall>v \<in> set vs. ok v) \<and> bs = concat (map enc vs) @ r"
    then obtain v vs' where v: "vs = v # vs'" "length vs' = n" by (auto simp: length_Suc_conv)
    with vs Suc.IH [of "concat (map enc vs') @ r" vs'] show "dec_repeat dec (Suc n) bs = Ok (vs, r)"
      by (simp add: roundtrip)
  qed
qed auto

lemma length_le_concat: "\<forall>v \<in> set vs. ok v \<Longrightarrow> length vs \<le> length (concat (map enc vs))"
proof (induction vs)
  case (Cons v vs)
  then have "1 \<le> length (enc v)" using nonempty by (simp add: Suc_le_eq)
  with Cons show ?case by fastforce
qed simp

end

lemma dec_take_Ok: "dec_take f n bs = Ok (v, r) \<longleftrightarrow> length v = n \<and> bs = v @ r"
  by (auto simp: dec_take_def not_less)

lemma dec_varint_Ok: "dec_varint f bs = Ok (v, r) \<longleftrightarrow> v \<le> u64_max \<and> bs = enc_varint v @ r"
proof
  assume "dec_varint f bs = Ok (v, r)"
  then obtain n where "get_u64 bs = Ok (v, n)" "r = drop n bs"
    by (auto simp: dec_varint_def split: result.splits)
  then show "v \<le> u64_max \<and> bs = enc_varint v @ r" by (metis append_take_drop_id get_u64_iff enc_varint_def)
next
  assume "v \<le> u64_max \<and> bs = enc_varint v @ r"
  moreover from this have "get_u64 bs = Ok (v, length (put_u64 v))" by (simp add: get_u64_iff enc_varint_def)
  ultimately show "dec_varint f bs = Ok (v, r)" by (simp add: dec_varint_def enc_varint_def)
qed

lemma dec_bytes_Ok: "dec_bytes f bs = Ok (v, r) \<longleftrightarrow> length v \<le> u64_max \<and> bs = enc_bytes v @ r"
  by (auto simp: dec_bytes_def ok_then_Ok dec_varint_Ok dec_take_Ok enc_bytes_def)

lemma dec_str_Ok: "dec_str f bs = Ok (v, r) \<longleftrightarrow> utf8_valid v \<and> length v \<le> u64_max \<and> bs = enc_str v @ r"
  by (auto simp: dec_str_def ok_then_Ok dec_bytes_Ok enc_str_def split: if_splits)

lemma dec_u64_Ok: "dec_u64 f bs = Ok (v, r) \<longleftrightarrow> v \<le> u64_max \<and> bs = enc_u64 v @ r"
proof
  assume "dec_u64 f bs = Ok (v, r)"
  then obtain b where b: "length b = 8" "bs = b @ r" "v = of_le_bytes b"
    by (auto simp: dec_u64_def ok_then_Ok dec_take_Ok)
  have "v \<le> u64_max" using of_le_bytes_bound [of b] b by (simp add: u64_max_def)
  moreover have "enc_u64 v = b" using le_bytes_of_le_bytes [of b] b by (simp add: enc_u64_def)
  ultimately show "v \<le> u64_max \<and> bs = enc_u64 v @ r" using b(2) by simp
qed (simp add: dec_u64_def enc_u64_def dec_take_def)

lemma dec_u8_Ok: "dec_u8 f bs = Ok (v, r) \<longleftrightarrow> bs = enc_u8 v @ r"
  by (auto simp: dec_u8_def ok_then_Ok dec_take_Ok enc_u8_def length_Suc_conv)

lemma dec_bool_Ok: "dec_bool f bs = Ok (v, r) \<longleftrightarrow> bs = enc_bool v @ r"
  by (cases bs) (auto simp: dec_bool_def dec_u8_def dec_take_def enc_bool_def split: if_splits)

lemma dec_opt_bytes_Ok:
  "dec_opt_bytes f bs = Ok (v, r) \<longleftrightarrow> (case v of None \<Rightarrow> True | Some b \<Rightarrow> length b \<le> u64_max) \<and> bs = enc_opt_bytes v @ r"
  by (cases v) (auto simp: dec_opt_bytes_def ok_then_Ok dec_bool_Ok dec_bytes_Ok enc_opt_bytes_def split: if_splits)

lemma dec_count_Ok:
  "dec_count f bs = Ok (n, r) \<longleftrightarrow> n \<le> u64_max \<and> n \<le> length r \<and> bs = enc_varint n @ r"
  by (auto simp: dec_count_def ok_then_Ok dec_varint_Ok not_less split: if_splits)

lemma put_u64_not_Nil [simp]: "put_u64 n \<noteq> []"
  by (subst put_u64.simps) simp

interpretation varint_codec: exact_codec enc_varint "dec_varint f" "\<lambda>v. v \<le> u64_max" for f
  by unfold_locales (simp_all add: dec_varint_Ok enc_varint_def)

interpretation bytes_codec: exact_codec enc_bytes "dec_bytes f" "\<lambda>v. length v \<le> u64_max" for f
  by unfold_locales (simp_all add: dec_bytes_Ok enc_bytes_def enc_varint_def)

interpretation opt_bytes_codec: exact_codec enc_opt_bytes "dec_opt_bytes f"
    "\<lambda>v. case v of None \<Rightarrow> True | Some b \<Rightarrow> length b \<le> u64_max" for f
  by unfold_locales (simp_all add: dec_opt_bytes_Ok enc_opt_bytes_def enc_bool_def split: option.splits)

lemmas dec_field_Ok = dec_u8_Ok dec_varint_Ok dec_bytes_Ok dec_str_Ok dec_u64_Ok

lemma dec_field_simps [simp]:
  "dec_u8 f (enc_u8 b @ r) = Ok (b, r)"
  "v \<le> u64_max \<Longrightarrow> dec_varint f (enc_varint v @ r) = Ok (v, r)"
  "length bs \<le> u64_max \<Longrightarrow> dec_bytes f (enc_bytes bs @ r) = Ok (bs, r)"
  "length bs \<le> u64_max \<Longrightarrow> utf8_valid bs \<Longrightarrow> dec_str f (enc_str bs @ r) = Ok (bs, r)"
  "v \<le> u64_max \<Longrightarrow> dec_u64 f (enc_u64 v @ r) = Ok (v, r)"
  by (simp_all add: dec_field_Ok)

end
