(* ===== verification/TxnCommand.thy ===== *)
theory TxnCommand
  imports TxnKv WireCodec
begin

text \<open>
  A transactional write as the Raft log carries it (\<^verbatim>\<open>esker-store/src/txn_command.rs\<close>): the command a
  request becomes, the keys it touches, its bytes and their decoder, and what applying it stages
  (the \<^verbatim>\<open>Txn\<close> arm of \<^verbatim>\<open>stage\<close> in \<^verbatim>\<open>esker-store/src/apply.rs\<close>). The decision is made when the command is
  applied, against the state the peer holds at that point of the log.
\<close>

section \<open>Commands\<close>

definition VERB_PREWRITE :: byte where "VERB_PREWRITE = 1"
definition VERB_COMMIT :: byte where "VERB_COMMIT = 2"
definition VERB_ROLLBACK :: byte where "VERB_ROLLBACK = 3"
definition VERB_RESOLVE_LOCK :: byte where "VERB_RESOLVE_LOCK = 4"
definition VERB_HEARTBEAT :: byte where "VERB_HEARTBEAT = 5"
definition VERB_RELEASE_LOCK :: byte where "VERB_RELEASE_LOCK = 6"

lemmas verb_defs = VERB_PREWRITE_def VERB_COMMIT_def VERB_ROLLBACK_def VERB_RESOLVE_LOCK_def VERB_HEARTBEAT_def
  VERB_RELEASE_LOCK_def

datatype txn_write =
    TwPut bytes bytes "u64 option"
  | TwDelete bytes "u64 option"
  | TwCheck bytes "u64 option"
  | TwCheckRange bytes bytes

fun tw_key :: "txn_write \<Rightarrow> bytes" where
  "tw_key (TwPut k _ _) = k"
| "tw_key (TwDelete k _) = k"
| "tw_key (TwCheck k _) = k"
| "tw_key (TwCheckRange start _) = start"

fun to_wire :: "txn_write \<Rightarrow> txn_mutation" where
  "to_wire (TwPut k v r) = TmPut k v r"
| "to_wire (TwDelete k r) = TmDelete k r"
| "to_wire (TwCheck k r) = TmCheck k r"
| "to_wire (TwCheckRange a b) = TmCheckRange a b"

fun from_wire :: "txn_mutation \<Rightarrow> txn_write" where
  "from_wire (TmPut k v r) = TwPut k v r"
| "from_wire (TmDelete k r) = TwDelete k r"
| "from_wire (TmCheck k r) = TwCheck k r"
| "from_wire (TmCheckRange a b) = TwCheckRange a b"

datatype txn_command =
    CmdPrewrite u64 bytes u64 "txn_write list"
  | CmdCommit u64 u64 "bytes list"
  | CmdRollback u64 "bytes list"
  | CmdReleaseLock u64 "bytes list"
  | CmdResolveLock u64 u64 "bytes list"
  | CmdHeartbeat u64 bytes u64

datatype txn_req =
    RqGet bytes u64
  | RqScan bytes bytes nat u64 bool
  | RqPrewrite u64 bytes u64 "txn_mutation list"
  | RqCommit u64 u64 "bytes list"
  | RqRollback u64 "bytes list"
  | RqReleaseLock u64 "bytes list"
  | RqResolveLock u64 u64 "bytes list"
  | RqHeartbeat u64 bytes u64
  | RqLatestCommit bytes
  | RqGcSafepoint u64
  | RqReclaimRange bytes bytes u64

fun from_request :: "txn_req \<Rightarrow> txn_command option" where
  "from_request (RqPrewrite s p ttl ms) = Some (CmdPrewrite s p ttl (map from_wire ms))"
| "from_request (RqCommit s c keys) = Some (CmdCommit s c keys)"
| "from_request (RqRollback s keys) = Some (CmdRollback s keys)"
| "from_request (RqReleaseLock s keys) = Some (CmdReleaseLock s keys)"
| "from_request (RqResolveLock s c keys) = Some (CmdResolveLock s c keys)"
| "from_request (RqHeartbeat s p ttl) = Some (CmdHeartbeat s p ttl)"
| "from_request _ = None"

fun command_keys :: "txn_command \<Rightarrow> bytes list" where
  "command_keys (CmdPrewrite _ _ _ ws) = map tw_key ws"
| "command_keys (CmdCommit _ _ keys) = keys"
| "command_keys (CmdRollback _ keys) = keys"
| "command_keys (CmdReleaseLock _ keys) = keys"
| "command_keys (CmdResolveLock _ _ keys) = keys"
| "command_keys (CmdHeartbeat _ p _) = [p]"

section \<open>Bytes in the log\<close>

fun write_encode_to :: "txn_write \<Rightarrow> bytes" where
  "write_encode_to (TwPut k v None) = enc_u8 1 @ enc_bytes k @ enc_bytes v"
| "write_encode_to (TwDelete k None) = enc_u8 2 @ enc_bytes k"
| "write_encode_to (TwPut k v (Some r)) = enc_u8 3 @ enc_bytes k @ enc_bytes v @ enc_varint r"
| "write_encode_to (TwDelete k (Some r)) = enc_u8 4 @ enc_bytes k @ enc_varint r"
| "write_encode_to (TwCheck k None) = enc_u8 5 @ enc_bytes k"
| "write_encode_to (TwCheck k (Some r)) = enc_u8 7 @ enc_bytes k @ enc_varint r"
| "write_encode_to (TwCheckRange a b) = enc_u8 6 @ enc_bytes a @ enc_bytes b"

definition put_keys :: "bytes list \<Rightarrow> bytes" where
  "put_keys keys = enc_varint (length keys) @ concat (map enc_bytes keys)"

fun command_encode_to :: "txn_command \<Rightarrow> bytes" where
  "command_encode_to (CmdPrewrite s p ttl ws) =
     enc_u8 VERB_PREWRITE @ enc_varint s @ enc_bytes p @ enc_varint ttl @ enc_varint (length ws)
       @ concat (map write_encode_to ws)"
| "command_encode_to (CmdCommit s c keys) = enc_u8 VERB_COMMIT @ enc_varint s @ enc_varint c @ put_keys keys"
| "command_encode_to (CmdRollback s keys) = enc_u8 VERB_ROLLBACK @ enc_varint s @ put_keys keys"
| "command_encode_to (CmdReleaseLock s keys) = enc_u8 VERB_RELEASE_LOCK @ enc_varint s @ put_keys keys"
| "command_encode_to (CmdResolveLock s c keys) = enc_u8 VERB_RESOLVE_LOCK @ enc_varint s @ enc_varint c @ put_keys keys"
| "command_encode_to (CmdHeartbeat s p ttl) = enc_u8 VERB_HEARTBEAT @ enc_varint s @ enc_bytes p @ enc_varint ttl"

datatype command_error = BadField decode_error | NotAWriteKind byte | NotAVerb byte

type_synonym 'a command_decoded = "('a \<times> bytes, command_error) result"

fun cmd_field :: "'a decoded \<Rightarrow> 'a command_decoded" where
  "cmd_field (Ok r) = Ok r"
| "cmd_field (Err e) = Err (BadField e)"

definition get_keys :: "bytes \<Rightarrow> bytes list command_decoded" where
  "get_keys rest =
     ok_then (cmd_field (dec_count ''txn.keys'' rest)) (\<lambda>(n, rest).
       dec_repeat (\<lambda>rest. cmd_field (dec_bytes ''txn.key'' rest)) n rest)"

definition dec_key_then :: "bytes \<Rightarrow> (bytes \<Rightarrow> bytes \<Rightarrow> 'a command_decoded) \<Rightarrow> 'a command_decoded" where
  "dec_key_then rest k = ok_then (cmd_field (dec_bytes ''txn.write.key'' rest)) (\<lambda>(key, rest). k key rest)"

definition dec_write :: "bytes \<Rightarrow> txn_write command_decoded" where
  "dec_write rest =
     ok_then (cmd_field (dec_u8 ''txn.write.kind'' rest)) (\<lambda>(kd, rest).
       if kd = 1 then
         dec_key_then rest (\<lambda>key rest. ok_then (cmd_field (dec_bytes ''txn.write.value'' rest)) (\<lambda>(v, rest).
           Ok (TwPut key v None, rest)))
       else if kd = 3 then
         dec_key_then rest (\<lambda>key rest. ok_then (cmd_field (dec_bytes ''txn.write.value'' rest)) (\<lambda>(v, rest).
           ok_then (cmd_field (dec_varint ''txn.write.read_ts'' rest)) (\<lambda>(r, rest). Ok (TwPut key v (Some r), rest))))
       else if kd = 4 then
         dec_key_then rest (\<lambda>key rest. ok_then (cmd_field (dec_varint ''txn.write.read_ts'' rest)) (\<lambda>(r, rest).
           Ok (TwDelete key (Some r), rest)))
       else if kd = 2 then dec_key_then rest (\<lambda>key rest. Ok (TwDelete key None, rest))
       else if kd = 5 then dec_key_then rest (\<lambda>key rest. Ok (TwCheck key None, rest))
       else if kd = 6 then
         ok_then (cmd_field (dec_bytes ''txn.write.start'' rest)) (\<lambda>(a, rest).
           ok_then (cmd_field (dec_bytes ''txn.write.end'' rest)) (\<lambda>(b, rest). Ok (TwCheckRange a b, rest)))
       else if kd = 7 then
         dec_key_then rest (\<lambda>key rest. ok_then (cmd_field (dec_varint ''txn.write.read_ts'' rest)) (\<lambda>(r, rest).
           Ok (TwCheck key (Some r), rest)))
       else Err (NotAWriteKind kd))"

definition dec_ts_field :: "string \<Rightarrow> bytes \<Rightarrow> (u64 \<Rightarrow> bytes \<Rightarrow> 'a command_decoded) \<Rightarrow> 'a command_decoded" where
  "dec_ts_field f rest k = ok_then (cmd_field (dec_varint f rest)) (\<lambda>(t, rest). k t rest)"

definition command_decode :: "bytes \<Rightarrow> txn_command command_decoded" where
  "command_decode rest =
     ok_then (cmd_field (dec_u8 ''txn.verb'' rest)) (\<lambda>(verb, rest).
       if verb = VERB_PREWRITE then
         dec_ts_field ''txn.start_ts'' rest (\<lambda>s rest.
         ok_then (cmd_field (dec_bytes ''txn.primary'' rest)) (\<lambda>(p, rest).
         dec_ts_field ''txn.ttl_ms'' rest (\<lambda>ttl rest.
         ok_then (cmd_field (dec_count ''txn.writes'' rest)) (\<lambda>(n, rest).
         ok_then (dec_repeat dec_write n rest) (\<lambda>(ws, rest). Ok (CmdPrewrite s p ttl ws, rest))))))
       else if verb = VERB_COMMIT then
         dec_ts_field ''txn.start_ts'' rest (\<lambda>s rest. dec_ts_field ''txn.commit_ts'' rest (\<lambda>c rest.
           ok_then (get_keys rest) (\<lambda>(keys, rest). Ok (CmdCommit s c keys, rest))))
       else if verb = VERB_ROLLBACK then
         dec_ts_field ''txn.start_ts'' rest (\<lambda>s rest.
           ok_then (get_keys rest) (\<lambda>(keys, rest). Ok (CmdRollback s keys, rest)))
       else if verb = VERB_RELEASE_LOCK then
         dec_ts_field ''txn.start_ts'' rest (\<lambda>s rest.
           ok_then (get_keys rest) (\<lambda>(keys, rest). Ok (CmdReleaseLock s keys, rest)))
       else if verb = VERB_RESOLVE_LOCK then
         dec_ts_field ''txn.start_ts'' rest (\<lambda>s rest. dec_ts_field ''txn.commit_ts'' rest (\<lambda>c rest.
           ok_then (get_keys rest) (\<lambda>(keys, rest). Ok (CmdResolveLock s c keys, rest))))
       else if verb = VERB_HEARTBEAT then
         dec_ts_field ''txn.start_ts'' rest (\<lambda>s rest.
           ok_then (cmd_field (dec_bytes ''txn.primary'' rest)) (\<lambda>(p, rest).
             dec_ts_field ''txn.ttl_ms'' rest (\<lambda>ttl rest. Ok (CmdHeartbeat s p ttl, rest))))
       else Err (NotAVerb verb))"

section \<open>Applying a command\<close>

definition stage_txn :: "engine \<Rightarrow> mutations \<Rightarrow> txn_command \<Rightarrow> (mutations \<times> txn_resp proto_result) option" where
  "stage_txn db batch c =
     (case c of
        CmdPrewrite s p ttl ws \<Rightarrow> kv_prewrite db batch s p ttl (map to_wire ws)
      | CmdCommit s ct keys \<Rightarrow> Some (kv_commit db batch s ct keys)
      | CmdRollback s keys \<Rightarrow> Some (kv_rollback db batch s keys)
      | CmdReleaseLock s keys \<Rightarrow> Some (kv_release_lock db batch s keys)
      | CmdResolveLock s ct keys \<Rightarrow> Some (kv_resolve_lock db batch s ct keys)
      | CmdHeartbeat s p ttl \<Rightarrow> Some (kv_heartbeat db batch s p ttl))"

section \<open>The format is exact\<close>

definition opt_ts_ok :: "u64 option \<Rightarrow> bool" where
  "opt_ts_ok r \<longleftrightarrow> (case r of None \<Rightarrow> True | Some t \<Rightarrow> t \<le> u64_max)"

fun write_sized :: "txn_write \<Rightarrow> bool" where
  "write_sized (TwPut k v r) \<longleftrightarrow> length k \<le> u64_max \<and> length v \<le> u64_max \<and> opt_ts_ok r"
| "write_sized (TwDelete k r) \<longleftrightarrow> length k \<le> u64_max \<and> opt_ts_ok r"
| "write_sized (TwCheck k r) \<longleftrightarrow> length k \<le> u64_max \<and> opt_ts_ok r"
| "write_sized (TwCheckRange a b) \<longleftrightarrow> length a \<le> u64_max \<and> length b \<le> u64_max"

definition keys_sized :: "bytes list \<Rightarrow> bool" where
  "keys_sized keys \<longleftrightarrow> length keys \<le> u64_max \<and> (\<forall>k \<in> set keys. length k \<le> u64_max)"

fun command_sized :: "txn_command \<Rightarrow> bool" where
  "command_sized (CmdPrewrite s p ttl ws) \<longleftrightarrow> s \<le> u64_max \<and> length p \<le> u64_max \<and> ttl \<le> u64_max
     \<and> length ws \<le> u64_max \<and> (\<forall>w \<in> set ws. write_sized w)"
| "command_sized (CmdCommit s c keys) \<longleftrightarrow> s \<le> u64_max \<and> c \<le> u64_max \<and> keys_sized keys"
| "command_sized (CmdRollback s keys) \<longleftrightarrow> s \<le> u64_max \<and> keys_sized keys"
| "command_sized (CmdReleaseLock s keys) \<longleftrightarrow> s \<le> u64_max \<and> keys_sized keys"
| "command_sized (CmdResolveLock s c keys) \<longleftrightarrow> s \<le> u64_max \<and> c \<le> u64_max \<and> keys_sized keys"
| "command_sized (CmdHeartbeat s p ttl) \<longleftrightarrow> s \<le> u64_max \<and> length p \<le> u64_max \<and> ttl \<le> u64_max"

lemma cmd_field_Ok [simp]: "cmd_field r = Ok x \<longleftrightarrow> r = Ok x"
  by (cases r) auto

lemma dec_write_sound: "dec_write bs = Ok (w, r) \<Longrightarrow> write_sized w \<and> bs = write_encode_to w @ r"
  by (auto simp: dec_write_def dec_key_then_def ok_then_Ok dec_field_Ok opt_ts_ok_def split: if_splits)

lemma dec_write_complete: "write_sized w \<Longrightarrow> dec_write (write_encode_to w @ r) = Ok (w, r)"
  by (cases w rule: write_encode_to.cases) (simp_all add: dec_write_def dec_key_then_def opt_ts_ok_def)

lemma write_encode_not_Nil: "write_encode_to w \<noteq> []"
  by (cases w rule: write_encode_to.cases) (simp_all add: enc_u8_def)

interpretation write_codec: exact_codec write_encode_to dec_write write_sized
  by unfold_locales (use dec_write_sound dec_write_complete write_encode_not_Nil in blast)+

interpretation key_codec: exact_codec enc_bytes "\<lambda>bs. cmd_field (dec_bytes f bs)" "\<lambda>v. length v \<le> u64_max" for f
  by unfold_locales (simp_all add: dec_bytes_Ok enc_bytes_def enc_varint_def)

lemma get_keys_Ok: "get_keys bs = Ok (keys, r) \<longleftrightarrow> keys_sized keys \<and> bs = put_keys keys @ r"
  using key_codec.length_le_concat [of keys]
  by (auto simp: get_keys_def ok_then_Ok dec_count_Ok key_codec.repeat_exact keys_sized_def put_keys_def)

lemma get_keys_put [simp]: "keys_sized keys \<Longrightarrow> get_keys (put_keys keys @ r) = Ok (keys, r)"
  by (simp add: get_keys_Ok)

lemma writes_counted:
  "dec_count f bs = Ok (n, rest) \<and> dec_repeat dec_write n rest = Ok (ws, r) \<longleftrightarrow>
   length ws \<le> u64_max \<and> (\<forall>w \<in> set ws. write_sized w) \<and> n = length ws \<and> rest = concat (map write_encode_to ws) @ r
     \<and> bs = enc_varint (length ws) @ rest"
  using write_codec.length_le_concat [of ws]
  by (auto simp: dec_count_Ok write_codec.repeat_exact)

lemma command_decode_sound: "command_decode bs = Ok (c, r) \<Longrightarrow> command_sized c \<and> bs = command_encode_to c @ r"
  by (auto simp: command_decode_def dec_ts_field_def ok_then_Ok dec_field_Ok get_keys_Ok dec_count_Ok
      write_codec.repeat_exact split: if_splits)

lemma command_decode_complete: "command_sized c \<Longrightarrow> command_decode (command_encode_to c @ r) = Ok (c, r)"
proof (cases c)
  case (CmdPrewrite s p ttl ws)
  assume "command_sized c"
  with CmdPrewrite have "dec_count ''txn.writes'' (enc_varint (length ws) @ concat (map write_encode_to ws) @ r)
      = Ok (length ws, concat (map write_encode_to ws) @ r)"
    "dec_repeat dec_write (length ws) (concat (map write_encode_to ws) @ r) = Ok (ws, r)"
    using writes_counted [of "''txn.writes''" _ "length ws" "concat (map write_encode_to ws) @ r" ws r] by auto
  with \<open>command_sized c\<close> CmdPrewrite show ?thesis by (simp add: command_decode_def dec_ts_field_def)
qed (simp_all add: command_decode_def dec_ts_field_def verb_defs)

interpretation command_codec: exact_codec command_encode_to command_decode command_sized
proof
  show "command_decode bs = Ok (c, r) \<longleftrightarrow> command_sized c \<and> bs = command_encode_to c @ r" for bs c r
    using command_decode_sound command_decode_complete by blast
  show "command_sized c \<Longrightarrow> command_encode_to c \<noteq> []" for c
    by (cases c) (simp_all add: enc_u8_def)
qed

text \<open>C36. The log format of transactional commands is exact: bytes decode to a command and a rest exactly
  when they are that command's encoding followed by the rest, so distinct commands never share bytes and
  an unknown verb or write kind is refused. The command a request becomes names the same keys and carries
  the same mutations as the request.\<close>

theorem commands_exact:
  "(command_decode bs = Ok (c, r) \<longleftrightarrow> command_sized c \<and> bs = command_encode_to c @ r)
   \<and> (from_request (RqPrewrite s p ttl ms) = Some c' \<longleftrightarrow>
        (\<exists>ws. c' = CmdPrewrite s p ttl ws \<and> map to_wire ws = ms))"
proof -
  have "to_wire (from_wire x) = x" for x by (cases x) simp_all
  moreover have "from_wire (to_wire w) = w" for w by (cases w) simp_all
  ultimately have "c' = CmdPrewrite s p ttl (map from_wire ms) \<longleftrightarrow> (\<exists>ws. c' = CmdPrewrite s p ttl ws \<and> map to_wire ws = ms)"
    by (auto simp: map_idI intro!: exI [of _ "map from_wire ms"])
  then show ?thesis using command_codec.exact [of bs c r] by auto
qed

end
