(* ===== verification/TxnMachine.thy ===== *)
theory TxnMachine
  imports TxnCommand
begin

text \<open>
  The abstract machine of one user key. A key is its lock, its write records and its values, and
  \<^verbatim>\<open>key_step\<close> lists the moves a transaction may make on it: take or replace its own lock, commit, leave a
  rollback marker, drop the lock, extend the lease. Applying a command to a store (\<^verbatim>\<open>apply_txn\<close>) is shown
  to be moves of that machine on the keys the command names and nothing on every other key, even when a
  command names a key twice, so the invariants of the machine hold of every store a run of commands
  reaches. The clients' side of the contract is explicit: timestamps are unique, a transaction has one
  commit timestamp, above its start and its reads, and a prewrite names the snapshot its value came from.
\<close>

section \<open>One key\<close>

type_synonym key_view = "lock_record option \<times> (u64 \<Rightarrow> write_record option) \<times> (u64 \<Rightarrow> bytes option)"

definition kview :: "memory_store \<Rightarrow> bytes \<Rightarrow> key_view" where
  "kview m k = (lock_at m k, write_at m k, value_at m k)"

text \<open>What the oracle and the clients fix for a run: the start timestamps, the commit timestamp of a
  transaction that commits, and the snapshot the value a transaction writes to a key was computed from.\<close>

record timeline =
  tl_starts :: "u64 set"
  tl_commit :: "u64 \<Rightarrow> u64 option"
  tl_read :: "bytes \<Rightarrow> u64 \<Rightarrow> u64"

definition timeline_ok :: "timeline \<Rightarrow> bool" where
  "timeline_ok R \<longleftrightarrow>
     (\<forall>s \<in> tl_starts R. s \<le> u64_max)
     \<and> (\<forall>s c. tl_commit R s = Some c \<longrightarrow> s < c \<and> c \<le> u64_max \<and> c \<notin> tl_starts R \<and> (\<forall>k. tl_read R k s < c))
     \<and> (\<forall>s s' c. tl_commit R s = Some c \<longrightarrow> tl_commit R s' = Some c \<longrightarrow> s = s')"

lemma timelineD:
  assumes "timeline_ok R"
  shows "s \<in> tl_starts R \<Longrightarrow> s \<le> u64_max" "tl_commit R s = Some c \<Longrightarrow> s < c" "tl_commit R s = Some c \<Longrightarrow> c \<le> u64_max"
    "tl_commit R s = Some c \<Longrightarrow> c \<notin> tl_starts R" "tl_commit R s = Some c \<Longrightarrow> tl_read R k s < c"
    "tl_commit R s = Some c \<Longrightarrow> tl_commit R s' = Some c \<Longrightarrow> s = s'"
  using assms unfolding timeline_ok_def by blast+

definition unrecorded :: "(u64 \<Rightarrow> write_record option) \<Rightarrow> u64 \<Rightarrow> bool" where
  "unrecorded W s \<longleftrightarrow> (\<forall>c w. W c = Some w \<longrightarrow> wr_start_ts w \<noteq> s)"

definition versions_until :: "(u64 \<Rightarrow> write_record option) \<Rightarrow> u64 \<Rightarrow> bool" where
  "versions_until W t \<longleftrightarrow> (\<forall>c w. W c = Some w \<longrightarrow> is_a_version (wr_kind w) \<longrightarrow> c \<le> t)"

definition long_put :: "kind \<Rightarrow> bytes option \<Rightarrow> bool" where
  "long_put k sv \<longleftrightarrow> k = KPut \<and> sv = None"

definition record_of :: "lock_record \<Rightarrow> write_record" where
  "record_of l = \<lparr>wr_kind = lk_kind l, wr_start_ts = lk_start_ts l, wr_short_value = lk_short_value l\<rparr>"

inductive key_step :: "timeline \<Rightarrow> u64 set \<Rightarrow> bytes \<Rightarrow> key_view \<Rightarrow> key_view \<Rightarrow> bool" for R A k where
  lock: "key_step R A k (L, W, V) (Some l, W, V')"
  if "lk_start_ts l \<in> tl_starts R" "lk_start_ts l \<in> A" "lk_kind l \<noteq> KRollback" "unrecorded W (lk_start_ts l)"
    "\<And>l'. L = Some l' \<Longrightarrow> lk_start_ts l' = lk_start_ts l"
    "is_a_version (lk_kind l) \<Longrightarrow> versions_until W (tl_read R k (lk_start_ts l))"
    "V' = V \<and> \<not> long_put (lk_kind l) (lk_short_value l) \<or> (\<exists>v. V' = V(lk_start_ts l \<mapsto> v))"
| commit: "key_step R A k (Some l, W, V) (None, W(c \<mapsto> record_of l), V)" if "tl_commit R (lk_start_ts l) = Some c"
| mark: "key_step R A k (L, W, V) (L, W(s \<mapsto> write_record_rollback s), V)"
  if "s \<in> tl_starts R" "unrecorded W s" "\<And>l. L = Some l \<Longrightarrow> lk_start_ts l \<noteq> s"
| drop: "key_step R A k (Some l, W, V) (None, W, V')" if "V' = V \<or> V' = V(lk_start_ts l := None)"
| beat: "key_step R A k (Some l, W, V) (Some (l\<lparr>lk_ttl_ms := t\<rparr>), W, V)"

inductive_cases key_stepE: "key_step R A k kv kv'"

text \<open>The invariant of a key: a rollback marker sits at its transaction's start and a commit at its
  transaction's commit timestamp; a transaction leaves at most one record; a locked key has no record of
  the lock's owner; a value that is not inline is stored; and no version was committed between the
  snapshot a later version was computed from and that version.\<close>

definition key_ok :: "timeline \<Rightarrow> bytes \<Rightarrow> key_view \<Rightarrow> bool" where
  "key_ok R k kv \<longleftrightarrow> (case kv of (L, W, V) \<Rightarrow>
     (\<forall>c w. W c = Some w \<longrightarrow> wr_start_ts w \<in> tl_starts R
        \<and> (if wr_kind w = KRollback then c = wr_start_ts w else tl_commit R (wr_start_ts w) = Some c))
     \<and> (\<forall>c c' w w'. W c = Some w \<longrightarrow> W c' = Some w' \<longrightarrow> wr_start_ts w = wr_start_ts w' \<longrightarrow> c = c')
     \<and> (\<forall>c w. W c = Some w \<longrightarrow> long_put (wr_kind w) (wr_short_value w) \<longrightarrow> V (wr_start_ts w) \<noteq> None)
     \<and> (\<forall>c c' w w'. W c = Some w \<longrightarrow> W c' = Some w' \<longrightarrow> is_a_version (wr_kind w) \<longrightarrow> is_a_version (wr_kind w') \<longrightarrow>
          c < c' \<longrightarrow> c \<le> tl_read R k (wr_start_ts w'))
     \<and> (\<forall>l. L = Some l \<longrightarrow> lk_start_ts l \<in> tl_starts R \<and> lk_kind l \<noteq> KRollback \<and> unrecorded W (lk_start_ts l)
          \<and> (is_a_version (lk_kind l) \<longrightarrow> versions_until W (tl_read R k (lk_start_ts l)))
          \<and> (long_put (lk_kind l) (lk_short_value l) \<longrightarrow> V (lk_start_ts l) \<noteq> None)))"

lemma key_okD:
  assumes "key_ok R k (L, W, V)"
  shows "W c = Some w \<Longrightarrow> wr_start_ts w \<in> tl_starts R"
    and "W c = Some w \<Longrightarrow> if wr_kind w = KRollback then c = wr_start_ts w else tl_commit R (wr_start_ts w) = Some c"
    and "W c = Some w \<Longrightarrow> W c' = Some w' \<Longrightarrow> wr_start_ts w = wr_start_ts w' \<Longrightarrow> c = c'"
    and "W c = Some w \<Longrightarrow> long_put (wr_kind w) (wr_short_value w) \<Longrightarrow> V (wr_start_ts w) \<noteq> None"
    and "W c = Some w \<Longrightarrow> W c' = Some w' \<Longrightarrow> is_a_version (wr_kind w) \<Longrightarrow> is_a_version (wr_kind w') \<Longrightarrow> c < c' \<Longrightarrow>
      c \<le> tl_read R k (wr_start_ts w')"
    and "L = Some l \<Longrightarrow> lk_start_ts l \<in> tl_starts R"
    and "L = Some l \<Longrightarrow> lk_kind l \<noteq> KRollback"
    and "L = Some l \<Longrightarrow> unrecorded W (lk_start_ts l)"
    and "L = Some l \<Longrightarrow> is_a_version (lk_kind l) \<Longrightarrow> versions_until W (tl_read R k (lk_start_ts l))"
    and "L = Some l \<Longrightarrow> long_put (lk_kind l) (lk_short_value l) \<Longrightarrow> V (lk_start_ts l) \<noteq> None"
  using assms unfolding key_ok_def prod.case by (blast+)

lemma key_okI:
  assumes "\<And>c w. W c = Some w \<Longrightarrow> wr_start_ts w \<in> tl_starts R"
    and "\<And>c w. W c = Some w \<Longrightarrow> if wr_kind w = KRollback then c = wr_start_ts w else tl_commit R (wr_start_ts w) = Some c"
    and "\<And>c c' w w'. W c = Some w \<Longrightarrow> W c' = Some w' \<Longrightarrow> wr_start_ts w = wr_start_ts w' \<Longrightarrow> c = c'"
    and "\<And>c w. W c = Some w \<Longrightarrow> long_put (wr_kind w) (wr_short_value w) \<Longrightarrow> V (wr_start_ts w) \<noteq> None"
    and "\<And>c c' w w'. W c = Some w \<Longrightarrow> W c' = Some w' \<Longrightarrow> is_a_version (wr_kind w) \<Longrightarrow> is_a_version (wr_kind w') \<Longrightarrow>
      c < c' \<Longrightarrow> c \<le> tl_read R k (wr_start_ts w')"
    and "\<And>l. L = Some l \<Longrightarrow> lk_start_ts l \<in> tl_starts R \<and> lk_kind l \<noteq> KRollback \<and> unrecorded W (lk_start_ts l)
      \<and> (is_a_version (lk_kind l) \<longrightarrow> versions_until W (tl_read R k (lk_start_ts l)))
      \<and> (long_put (lk_kind l) (lk_short_value l) \<longrightarrow> V (lk_start_ts l) \<noteq> None)"
  shows "key_ok R k (L, W, V)"
  unfolding key_ok_def prod.case
  by (intro conjI allI impI) (erule assms(1), erule assms(2), erule (2) assms(3), erule (1) assms(4), erule (4) assms(5),
    (use assms(6) in blast)+)

lemma key_ok_new [simp]: "key_ok R k (None, \<lambda>_. None, \<lambda>_. None)"
  by (rule key_okI) simp_all

lemma commit_is_free:
  assumes R: "timeline_ok R" and ok: "key_ok R k (L, W, V)" and c: "tl_commit R s = Some c" and s: "unrecorded W s"
  shows "W c = None"
proof (rule ccontr)
  assume "W c \<noteq> None"
  then obtain w where w: "W c = Some w" by auto
  from key_okD(2) [OF ok w] key_okD(1) [OF ok w] R c have "tl_commit R (wr_start_ts w) = Some c"
    by (auto simp: timeline_ok_def split: if_splits)
  with R c have "wr_start_ts w = s" by (auto simp: timeline_ok_def)
  with s w show False by (auto simp: unrecorded_def)
qed

lemma start_is_free:
  assumes R: "timeline_ok R" and ok: "key_ok R k (L, W, V)" and s: "s \<in> tl_starts R" "unrecorded W s"
  shows "W s = None"
proof (rule ccontr)
  assume "W s \<noteq> None"
  then obtain w where w: "W s = Some w" by auto
  from key_okD(2) [OF ok w] R s have "s = wr_start_ts w" by (auto simp: timeline_ok_def split: if_splits)
  with s w show False by (auto simp: unrecorded_def)
qed

lemma unrecordedD: "unrecorded W s \<Longrightarrow> W c = Some w \<Longrightarrow> wr_start_ts w \<noteq> s"
  by (simp add: unrecorded_def)

lemma one_record_upd:
  assumes "W c' = Some w \<Longrightarrow> W c'' = Some w' \<Longrightarrow> c' = c''" "unrecorded W (wr_start_ts r)"
    "(W(c \<mapsto> r)) c' = Some w" "(W(c \<mapsto> r)) c'' = Some w'" "wr_start_ts w = wr_start_ts w'"
  shows "c' = c''"
  using assms(1,3,4,5) unrecordedD [OF assms(2), of c' w] unrecordedD [OF assms(2), of c'' w']
  by (cases "c' = c"; cases "c'' = c") simp_all

lemma record_of_simps [simp]:
  "wr_kind (record_of l) = lk_kind l" "wr_start_ts (record_of l) = lk_start_ts l"
  "wr_short_value (record_of l) = lk_short_value l"
  by (simp_all add: record_of_def)

lemma key_step_commit_ok:
  assumes R: "timeline_ok R" and ok: "key_ok R k (Some l, W, V)" and c: "tl_commit R (lk_start_ts l) = Some c"
  shows "key_ok R k (None, W(c \<mapsto> record_of l), V)"
proof -
  have free: "W c = None" by (rule commit_is_free [OF R ok c key_okD(8) [OF ok refl]])
  have un: "unrecorded W (lk_start_ts l)" by (rule key_okD(8) [OF ok refl])
  have below: "c' < c" if "W c' = Some w" "is_a_version (wr_kind w)" "is_a_version (lk_kind l)" for c' w
  proof -
    have "c' \<le> tl_read R k (lk_start_ts l)" using key_okD(9) [OF ok refl] that by (auto simp: versions_until_def)
    also have "\<dots> < c" using R c by (simp add: timeline_ok_def)
    finally show ?thesis .
  qed
  show ?thesis
  proof (rule key_okI)
    fix c' w assume w: "(W(c \<mapsto> record_of l)) c' = Some w"
    show "wr_start_ts w \<in> tl_starts R"
      using w key_okD(1) [OF ok, of c' w] key_okD(6) [OF ok refl] by (auto split: if_splits)
    show "if wr_kind w = KRollback then c' = wr_start_ts w else tl_commit R (wr_start_ts w) = Some c'"
      using w key_okD(2) [OF ok, of c' w] key_okD(7) [OF ok refl] c by (auto split: if_splits)
    show "long_put (wr_kind w) (wr_short_value w) \<Longrightarrow> V (wr_start_ts w) \<noteq> None"
      using w key_okD(4) [OF ok, of c' w] key_okD(10) [OF ok refl] by (auto split: if_splits)
    fix c'' w' assume w': "(W(c \<mapsto> record_of l)) c'' = Some w'"
    show "wr_start_ts w = wr_start_ts w' \<Longrightarrow> c' = c''"
      using one_record_upd [OF key_okD(3) [OF ok] _ w w'] un by simp
    assume v: "is_a_version (wr_kind w)" "is_a_version (wr_kind w')" "c' < c''"
    show "c' \<le> tl_read R k (wr_start_ts w')"
    proof (cases "c'' = c")
      case True
      with w' v w have "W c' = Some w" "w' = record_of l" by auto
      with v(1,2) key_okD(9) [OF ok refl] show ?thesis unfolding versions_until_def by auto
    next
      case False
      then have "W c'' = Some w'" using w' by simp
      moreover have "c' \<noteq> c" using below [OF calculation v(2)] v w by (cases "c' = c") auto
      ultimately show ?thesis using w v key_okD(5) [OF ok, of c' w c'' w'] by simp
    qed
  qed simp
qed

lemma key_step_mark_ok:
  assumes R: "timeline_ok R" and ok: "key_ok R k (L, W, V)" and s: "s \<in> tl_starts R" "unrecorded W s"
    and L: "\<And>l. L = Some l \<Longrightarrow> lk_start_ts l \<noteq> s"
  shows "key_ok R k (L, W(s \<mapsto> write_record_rollback s), V)"
proof -
  have rec [simp]: "wr_kind (write_record_rollback s) = KRollback" "wr_start_ts (write_record_rollback s) = s"
    "wr_short_value (write_record_rollback s) = None"
    by (simp_all add: write_record_rollback_def write_record_new_def)
  show ?thesis
  proof (rule key_okI)
    fix c' w assume w: "(W(s \<mapsto> write_record_rollback s)) c' = Some w"
    show "wr_start_ts w \<in> tl_starts R"
      using w key_okD(1) [OF ok, of c' w] s by (auto split: if_splits)
    show "if wr_kind w = KRollback then c' = wr_start_ts w else tl_commit R (wr_start_ts w) = Some c'"
      using w key_okD(2) [OF ok, of c' w] by (auto split: if_splits)
    show "long_put (wr_kind w) (wr_short_value w) \<Longrightarrow> V (wr_start_ts w) \<noteq> None"
      using w key_okD(4) [OF ok, of c' w] by (auto simp: long_put_def split: if_splits)
    fix c'' w' assume w': "(W(s \<mapsto> write_record_rollback s)) c'' = Some w'"
    show "wr_start_ts w = wr_start_ts w' \<Longrightarrow> c' = c''"
      using one_record_upd [OF key_okD(3) [OF ok] _ w w'] s(2) by simp
    assume v: "is_a_version (wr_kind w)" "is_a_version (wr_kind w')" "c' < c''"
    then have "W c' = Some w" "W c'' = Some w'" using w w' by (auto split: if_splits)
    then show "c' \<le> tl_read R k (wr_start_ts w')" using v by (rule key_okD(5) [OF ok])
  next
    fix l assume l: "L = Some l"
    have "unrecorded (W(s \<mapsto> write_record_rollback s)) (lk_start_ts l)"
      using key_okD(8) [OF ok l] L [OF l] by (auto simp: unrecorded_def)
    moreover have "is_a_version (lk_kind l) \<Longrightarrow> versions_until (W(s \<mapsto> write_record_rollback s)) (tl_read R k (lk_start_ts l))"
      using key_okD(9) [OF ok l] by (auto simp: versions_until_def split: if_splits)
    ultimately show "lk_start_ts l \<in> tl_starts R \<and> lk_kind l \<noteq> KRollback
      \<and> unrecorded (W(s \<mapsto> write_record_rollback s)) (lk_start_ts l)
      \<and> (is_a_version (lk_kind l) \<longrightarrow> versions_until (W(s \<mapsto> write_record_rollback s)) (tl_read R k (lk_start_ts l)))
      \<and> (long_put (lk_kind l) (lk_short_value l) \<longrightarrow> V (lk_start_ts l) \<noteq> None)"
      using key_okD(6,7,10) [OF ok l] by blast
  qed
qed

lemma key_ok_change:
  assumes ok: "key_ok R k (L, W, V)"
    and V: "\<And>c w. W c = Some w \<Longrightarrow> V' (wr_start_ts w) = V (wr_start_ts w)"
    and L': "\<And>l. L' = Some l \<Longrightarrow> lk_start_ts l \<in> tl_starts R \<and> lk_kind l \<noteq> KRollback \<and> unrecorded W (lk_start_ts l)
      \<and> (is_a_version (lk_kind l) \<longrightarrow> versions_until W (tl_read R k (lk_start_ts l)))
      \<and> (long_put (lk_kind l) (lk_short_value l) \<longrightarrow> V' (lk_start_ts l) \<noteq> None)"
  shows "key_ok R k (L', W, V')"
proof (rule key_okI [OF key_okD(1) [OF ok] key_okD(2) [OF ok] key_okD(3) [OF ok] _ key_okD(5) [OF ok] L'])
  fix c w assume w: "W c = Some w" "long_put (wr_kind w) (wr_short_value w)"
  show "V' (wr_start_ts w) \<noteq> None" using key_okD(4) [OF ok w] V [OF w(1)] by simp
qed

lemma key_step_ok:
  assumes R: "timeline_ok R" and "key_step R A k kv kv'" "key_ok R k kv"
  shows "key_ok R k kv'"
  using assms(2,3)
proof cases
  case (lock l W L V' V)
  show ?thesis
    unfolding lock
  proof (rule key_ok_change [of R k L W V])
    show "key_ok R k (L, W, V)" using assms(3) lock by simp
    show "V' (wr_start_ts w) = V (wr_start_ts w)" if "W c = Some w" for c w
      using that lock(6,9) by (auto simp: unrecorded_def)
    fix l' assume "Some l = Some l'"
    then have "l' = l" by simp
    with lock(3-9) show "lk_start_ts l' \<in> tl_starts R \<and> lk_kind l' \<noteq> KRollback \<and> unrecorded W (lk_start_ts l')
      \<and> (is_a_version (lk_kind l') \<longrightarrow> versions_until W (tl_read R k (lk_start_ts l')))
      \<and> (long_put (lk_kind l') (lk_short_value l') \<longrightarrow> V' (lk_start_ts l') \<noteq> None)"
      by auto
  qed
next
  case (commit l c W V)
  with key_step_commit_ok [OF R] assms(3) show ?thesis by simp
next
  case (mark s W L V)
  with key_step_mark_ok [OF R] assms(3) show ?thesis by simp
next
  case (drop V' V l W)
  with assms(3) have un: "unrecorded W (lk_start_ts l)" using key_okD(8) by blast
  show ?thesis
    unfolding drop
  proof (rule key_ok_change [of R k "Some l" W V])
    show "key_ok R k (Some l, W, V)" using assms(3) drop by simp
    show "V' (wr_start_ts w) = V (wr_start_ts w)" if "W c = Some w" for c w
      using that drop un by (auto simp: unrecorded_def)
  qed simp
next
  case (beat l W V t)
  with assms(3) have ok: "key_ok R k (Some l, W, V)" by simp
  show ?thesis
    unfolding beat by (rule key_ok_change [OF ok]) (use key_okD(6-10) [OF ok refl] in auto)
qed

lemma key_steps_ok:
  "(key_step R A k)\<^sup>*\<^sup>* kv kv' \<Longrightarrow> timeline_ok R \<Longrightarrow> key_ok R k kv \<Longrightarrow> key_ok R k kv'"
proof (induction rule: rtranclp_induct)
  case (step kv' kv'')
  then show ?case using key_step_ok [of R A k kv' kv''] by simp
qed simp

section \<open>Groups of mutations on one key\<close>

definition local_group :: "bytes \<Rightarrow> mutations \<Rightarrow> (key_view \<Rightarrow> key_view) \<Rightarrow> bool" where
  "local_group k ms F \<longleftrightarrow>
     (\<forall>kv. F (F kv) = F kv)
     \<and> (\<forall>m. store_ok m \<longrightarrow> store_ok (mem_apply m ms)
          \<and> kview (mem_apply m ms) = (kview m)(k := F (kview m k)))"

definition good_group :: "timeline \<Rightarrow> u64 set \<Rightarrow> memory_store \<Rightarrow> bytes \<Rightarrow> mutations \<Rightarrow> bool" where
  "good_group R A m k ms \<longleftrightarrow> (\<exists>F. local_group k ms F \<and> (key_step R A k)\<^sup>*\<^sup>* (kview m k) (F (kview m k)))"

lemma local_group_Nil: "local_group k [] (\<lambda>kv. kv)"
  by (simp add: local_group_def)

lemma good_group_Nil: "good_group R A m k []"
  unfolding good_group_def using local_group_Nil by blast

lemma local_groups:
  assumes "\<And>k. k \<in> set ks \<Longrightarrow> local_group k (g k) (F k)" "store_ok m"
  shows "store_ok (mem_apply m (concat (map g ks)))
    \<and> kview (mem_apply m (concat (map g ks))) = (\<lambda>j. if j \<in> set ks then F j (kview m j) else kview m j)"
  using assms
proof (induction ks arbitrary: m)
  case (Cons k ks)
  let ?m = "mem_apply m (g k)"
  have k: "store_ok ?m" "kview ?m = (kview m)(k := F k (kview m k))" "\<And>kv. F k (F k kv) = F k kv"
    using Cons.prems(1) [of k] Cons.prems(2) by (auto simp: local_group_def)
  have rest: "store_ok (mem_apply ?m (concat (map g ks)))"
    "kview (mem_apply ?m (concat (map g ks))) = (\<lambda>j. if j \<in> set ks then F j (kview ?m j) else kview ?m j)"
    using Cons.IH [of ?m] Cons.prems(1) k(1) by auto
  have "kview (mem_apply ?m (concat (map g ks))) j = (if j \<in> set (k # ks) then F j (kview m j) else kview m j)" for j
    unfolding rest(2) k(2) by (simp add: k(3))
  with rest(1) show ?case by (simp add: fun_eq_iff)
qed simp

lemma good_groups:
  assumes g: "\<And>k. k \<in> set ks \<Longrightarrow> good_group R A m k (g k)" and m: "store_ok m"
  shows "store_ok (mem_apply m (concat (map g ks)))
    \<and> (\<forall>j. (key_step R A j)\<^sup>*\<^sup>* (kview m j) (kview (mem_apply m (concat (map g ks))) j))"
proof -
  from g obtain F where F: "\<And>k. k \<in> set ks \<Longrightarrow> local_group k (g k) (F k)"
    "\<And>k. k \<in> set ks \<Longrightarrow> (key_step R A k)\<^sup>*\<^sup>* (kview m k) (F k (kview m k))"
    unfolding good_group_def by metis
  from local_groups [OF F(1) m] F(2) show ?thesis by simp
qed

lemma kview_upd:
  assumes "store_ok m"
  shows "lock_ok l \<Longrightarrow> kview (mem_apply_one m (lock_put k l)) = (kview m)(k := (Some l, snd (kview m k)))"
    and "kview (mem_apply_one m (lock_del k)) = (kview m)(k := (None, snd (kview m k)))"
    and "write_ok w \<Longrightarrow> c \<le> u64_max \<Longrightarrow> kview (mem_apply_one m (write_put k c w))
      = (kview m)(k := (fst (kview m k), (fst (snd (kview m k)))(c \<mapsto> w), snd (snd (kview m k))))"
    and "s \<le> u64_max \<Longrightarrow> kview (mem_apply_one m (value_put k s v))
      = (kview m)(k := (fst (kview m k), fst (snd (kview m k)), (snd (snd (kview m k)))(s \<mapsto> v)))"
    and "s \<le> u64_max \<Longrightarrow> kview (mem_apply_one m (value_del k s))
      = (kview m)(k := (fst (kview m k), fst (snd (kview m k)), (snd (snd (kview m k)))(s := None)))"
  using assms by (auto simp: kview_def fun_eq_iff apply_mutation)

definition commit_effect :: "u64 \<Rightarrow> lock_record \<Rightarrow> key_view \<Rightarrow> key_view" where
  "commit_effect c l kv = (case kv of (L, W, V) \<Rightarrow> (None, W(c \<mapsto> record_of l), V))"

definition drop_effect :: "u64 \<Rightarrow> lock_record \<Rightarrow> key_view \<Rightarrow> key_view" where
  "drop_effect s l kv =
     (case kv of (L, W, V) \<Rightarrow> (None, W, if long_put (lk_kind l) (lk_short_value l) then V(s := None) else V))"

definition mark_effect :: "u64 \<Rightarrow> key_view \<Rightarrow> key_view" where
  "mark_effect s kv = (case kv of (L, W, V) \<Rightarrow> (L, W(s \<mapsto> write_record_rollback s), V))"

lemmas effect_defs = commit_effect_def drop_effect_def mark_effect_def

lemma rollback_record_ok: "s \<le> u64_max \<Longrightarrow> write_ok (write_record_rollback s)"
  by (simp add: write_ok_def write_record_rollback_def write_record_new_def short_ok_def)

lemma record_of_ok: "lock_ok l \<Longrightarrow> write_ok (record_of l)"
  by (simp add: write_ok_def lock_ok_def)

lemma commit_mutations_eq: "commit_mutations k c l = [write_put k c (record_of l), lock_del k]"
  by (simp add: commit_mutations_def batch_builders record_of_def)

lemma commit_group: "lock_ok l \<Longrightarrow> c \<le> u64_max \<Longrightarrow> local_group k (commit_mutations k c l) (commit_effect c l)"
  by (auto simp: local_group_def commit_mutations_eq commit_effect_def kview_upd apply_mutation record_of_ok
      split: prod.splits)

lemma drop_lock_eq:
  "drop_lock ms k s l = ms @ [lock_del k] @ (if long_put (lk_kind l) (lk_short_value l) then [value_del k s] else [])"
  by (auto simp: drop_lock_def batch_builders long_put_def Let_def)

lemma drop_group: "s \<le> u64_max \<Longrightarrow> local_group k (drop_lock [] k s l) (drop_effect s l)"
  by (auto simp: local_group_def drop_lock_eq drop_effect_def kview_upd apply_mutation split: prod.splits)

lemma mark_group: "s \<le> u64_max \<Longrightarrow> local_group k (put_write [] k s (write_record_rollback s)) (mark_effect s)"
  by (auto simp: local_group_def batch_builders mark_effect_def kview_upd apply_mutation rollback_record_ok split: prod.splits)

lemma drop_mark_group:
  "s \<le> u64_max \<Longrightarrow> local_group k (drop_lock (put_write [] k s (write_record_rollback s)) k s l)
     (\<lambda>kv. mark_effect s (drop_effect s l kv))"
  by (auto simp: local_group_def drop_lock_eq batch_builders effect_defs kview_upd apply_mutation rollback_record_ok
      split: prod.splits)

section \<open>Applying a command\<close>

text \<open>A peer applies a command by staging it against its state and writing the batch; an error stops the
  peer. The engine is one that holds the state and does not fail.\<close>

definition apply_txn :: "memory_store \<Rightarrow> txn_command \<Rightarrow> (memory_store \<times> txn_resp) option" where
  "apply_txn m c =
     (case stage_txn (engine_of m) [] c of
        Some (batch, Ok resp) \<Rightarrow> Some (mem_apply m batch, resp)
      | _ \<Rightarrow> None)"

text \<open>The clients' side of the contract.\<close>

definition write_contract :: "timeline \<Rightarrow> u64 \<Rightarrow> txn_write \<Rightarrow> bool" where
  "write_contract R s w \<longleftrightarrow>
     tm_read_ts s (to_wire w) < u64_max
     \<and> (case w of
          TwPut k v r \<Rightarrow> tm_read_ts s (to_wire w) = tl_read R k s
        | TwDelete k r \<Rightarrow> tm_read_ts s (to_wire w) = tl_read R k s
        | _ \<Rightarrow> True)"

fun command_contract :: "timeline \<Rightarrow> txn_command \<Rightarrow> bool" where
  "command_contract R (CmdPrewrite s p ttl ws) \<longleftrightarrow> s \<in> tl_starts R \<and> p \<noteq> [] \<and> length p \<le> u64_max \<and> ttl \<le> u64_max
     \<and> (\<forall>w \<in> set ws. write_contract R s w)"
| "command_contract R (CmdCommit s c keys) \<longleftrightarrow> s \<in> tl_starts R \<and> tl_commit R s = Some c"
| "command_contract R (CmdRollback s keys) \<longleftrightarrow> s \<in> tl_starts R"
| "command_contract R (CmdReleaseLock s keys) \<longleftrightarrow> s \<in> tl_starts R"
| "command_contract R (CmdResolveLock s c keys) \<longleftrightarrow> s \<in> tl_starts R \<and> (c = 0 \<or> tl_commit R s = Some c)"
| "command_contract R (CmdHeartbeat s p ttl) \<longleftrightarrow> s \<in> tl_starts R \<and> ttl \<le> u64_max"

definition store_inv :: "timeline \<Rightarrow> memory_store \<Rightarrow> bool" where
  "store_inv R m \<longleftrightarrow> store_ok m \<and> (\<forall>k. key_ok R k (kview m k))"

lemma stage_engine_of [simp]: "stage (engine_of m) batch ms = (batch @ ms, Ok ())"
proof (induction ms arbitrary: batch)
  case (Cons x ms)
  obtain n where "en_cf_id (engine_of m) (mut_cf x) = Some n" using engine_of_cf by blast
  with Cons show ?case by simp
qed simp

lemma stage_then_engine_of [simp]: "stage_then (engine_of m) batch ms r = (batch @ ms, Ok r)"
  by (simp add: stage_then_def)

lemma lock_at_ok: "store_ok m \<Longrightarrow> lock_at m k = Some l \<Longrightarrow> lock_ok l"
  by (simp add: lock_at_iff)

lemma undecided_unrecorded:
  assumes R: "timeline_ok R" and ok: "key_ok R k (L, W, V)"
    and u: "\<And>c w. W c = Some w \<Longrightarrow> s \<le> c \<Longrightarrow> wr_start_ts w \<noteq> s"
  shows "unrecorded W s"
  unfolding unrecorded_def
proof (intro allI impI notI)
  fix c w assume w: "W c = Some w" "wr_start_ts w = s"
  have "s \<le> c"
    using key_okD(2) [OF ok w(1)] w(2) timelineD(2) [OF R, of s c] by (auto split: if_splits)
  with u [OF w(1)] w(2) show False by simp
qed

abbreviation snap_of :: "memory_store \<Rightarrow> txn_snapshot" where
  "snap_of m \<equiv> engine_snapshot (engine_of m)"

lemma commit_group_good:
  assumes m: "store_ok m" and l: "lock_at m k = Some l" and c: "tl_commit R (lk_start_ts l) = Some c" and R: "timeline_ok R"
  shows "good_group R A m k (commit_mutations k c l)"
proof -
  have "c \<le> u64_max" using R c by (simp add: timeline_ok_def)
  then have "local_group k (commit_mutations k c l) (commit_effect c l)"
    by (intro commit_group lock_at_ok [OF m l])
  moreover have "key_step R A k (kview m k) (commit_effect c l (kview m k))"
    using key_step.commit [OF c] l by (simp add: kview_def commit_effect_def)
  ultimately show ?thesis unfolding good_group_def by blast
qed

lemma secondary_good:
  assumes "store_ok m" "timeline_ok R" "tl_commit R (pc_start_ts t) = Some (pc_commit_ts t)" "pc_start_ts t \<le> u64_max"
    and "commit_secondary (snap_of m) k t = Ok ms"
  shows "good_group R A m k ms"
  using eng.commit_secondary_Ok [OF assms(1,4,5)] commit_group_good [OF assms(1) _ _ assms(2)] assms(3) good_group_Nil
  by auto

lemma on_trust_simps [simp]:
  "pc_start_ts (on_trust p s c) = s" "pc_commit_ts (on_trust p s c) = c" "pc_primary (on_trust p s c) = p"
  by (simp_all add: on_trust_def)

lemma trusted_good:
  "store_ok m \<Longrightarrow> timeline_ok R \<Longrightarrow> tl_commit R s = Some c \<Longrightarrow> s \<le> u64_max \<Longrightarrow>
   commit_secondary (snap_of m) k (on_trust p s c) = Ok ms \<Longrightarrow> good_group R A m k ms"
  using secondary_good [of m R "on_trust p s c" k ms] by simp

lemma commit_one_good:
  assumes m: "store_ok m" and R: "timeline_ok R" and c: "tl_commit R s = Some c" and s: "s \<le> u64_max"
    and one: "commit_one (snap_of m) s c k = Ok (Ok ms)"
  shows "good_group R A m k ms"
proof -
  from one consider (pri) d where "commit_primary (snap_of m) k s c = Ok d"
      "(case d of CdCommit plan \<Rightarrow> Ok (into_mutations plan) | CdAlreadyCommitted _ \<Rightarrow> Ok []) = (Ok ms :: mutations txn_result)"
    | (sec) "kv_secondary (snap_of m) k s c = Ok ms"
    by (auto simp: commit_one_def Let_def ok_then_Ok eng.get_lock [OF m] split: if_splits)
  then show ?thesis
  proof cases
    case pri
    show ?thesis
    proof (cases d)
      case (CdCommit pl)
      with pri(1) eng.commit_primary_plan [OF m s] obtain l where
        l: "lock_at m k = Some l" "lk_start_ts l = s" "pl_mutations pl = commit_mutations k c l" by blast
      have "good_group R A m k (commit_mutations k c l)" by (rule commit_group_good [OF m l(1) _ R]) (use l c in simp)
      with l pri(2) CdCommit show ?thesis by (simp add: into_mutations_def)
    qed (use pri good_group_Nil in simp)
  next
    case sec
    then have "\<exists>p. commit_secondary (snap_of m) k (on_trust p s c) = Ok ms"
      by (auto simp: kv_secondary_def Let_def eng.get_lock [OF m])
    then show ?thesis using trusted_good [OF m R c s] by blast
  qed
qed

lemma rollback_good:
  assumes m: "store_ok m" and R: "timeline_ok R" and ok: "key_ok R k (kview m k)" and s: "s \<in> tl_starts R"
    and dec: "rollback_key (snap_of m) k s = Ok ms"
  shows "good_group R A m k ms"
proof -
  have le: "s \<le> u64_max" using R s by (simp add: timeline_ok_def)
  from eng.rollback_Ok [OF m le dec] consider "ms = []"
    | (mark) "\<forall>c w. write_at m k c = Some w \<longrightarrow> s \<le> c \<longrightarrow> wr_start_ts w \<noteq> s"
        "held_by s (lock_at m k) = None" "ms = put_write [] k s (write_record_rollback s)"
    | (held) l where "\<forall>c w. write_at m k c = Some w \<longrightarrow> s \<le> c \<longrightarrow> wr_start_ts w \<noteq> s"
        "lock_at m k = Some l" "lk_start_ts l = s" "ms = drop_lock (put_write [] k s (write_record_rollback s)) k s l"
    by (auto split: option.splits)
  then show ?thesis
  proof cases
    case 1
    then show ?thesis by (simp add: good_group_Nil)
  next
    case mark
    have un: "unrecorded (write_at m k) s"
      by (rule undecided_unrecorded [OF R ok [unfolded kview_def]]) (use mark(1) in blast)
    have "key_step R A k (kview m k) (mark_effect s (kview m k))"
      unfolding kview_def mark_effect_def prod.case
      by (rule key_step.mark [OF s un]) (use mark(2) in \<open>auto split: if_splits\<close>)
    with mark_group [OF le] mark(3) show ?thesis unfolding good_group_def by blast
  next
    case held
    have un: "unrecorded (write_at m k) s"
      by (rule undecided_unrecorded [OF R ok [unfolded kview_def]]) (use held(1) in blast)
    have "key_step R A k (kview m k) (drop_effect s l (kview m k))"
      unfolding kview_def drop_effect_def prod.case held(2) by (rule key_step.drop) (use held(3) in auto)
    moreover have "key_step R A k (drop_effect s l (kview m k)) (mark_effect s (drop_effect s l (kview m k)))"
      unfolding kview_def drop_effect_def mark_effect_def prod.case by (rule key_step.mark [OF s un]) simp
    ultimately have "(key_step R A k)\<^sup>*\<^sup>* (kview m k) (mark_effect s (drop_effect s l (kview m k)))" by simp
    with drop_mark_group [OF le] held(4) show ?thesis unfolding good_group_def by blast
  qed
qed

lemma release_good:
  assumes m: "store_ok m" and s: "s \<le> u64_max" and dec: "release_key (snap_of m) k s = Ok (ms, b)"
  shows "good_group R A m k ms"
proof (cases "held_by s (lock_at m k)")
  case None
  with dec good_group_Nil show ?thesis by (simp add: eng.release_Ok [OF m])
next
  case (Some l)
  then have l: "lock_at m k = Some l" "lk_start_ts l = s" by simp_all
  have "key_step R A k (kview m k) (drop_effect s l (kview m k))"
    unfolding kview_def drop_effect_def prod.case l(1) by (rule key_step.drop) (use l(2) in auto)
  moreover have "ms = drop_lock [] k s l" using dec Some by (simp add: eng.release_Ok [OF m])
  ultimately show ?thesis unfolding good_group_def using drop_group [OF s] by blast
qed

subsection \<open>The loops over keys\<close>

lemma commit_loop_groups:
  assumes "commit_loop S s c ks st = Ok (Ok staged)" "\<And>k ms. commit_one S s c k = Ok (Ok ms) \<Longrightarrow> g k = ms"
  shows "staged = st @ concat (map g ks) \<and> (\<forall>k \<in> set ks. commit_one S s c k = Ok (Ok (g k)))"
  using assms(1)
proof (induction ks arbitrary: st)
  case (Cons a ks)
  then obtain r where "commit_one S s c a = Ok r"
    "(case r of Ok ms \<Rightarrow> commit_loop S s c ks (st @ ms) | Err e \<Rightarrow> Ok (Err (status_of e))) = Ok (Ok staged)"
    by (auto simp: ok_then_Ok)
  then obtain ms where ms: "commit_one S s c a = Ok (Ok ms)" "commit_loop S s c ks (st @ ms) = Ok (Ok staged)"
    by (cases r) auto
  from Cons.IH [OF ms(2)] ms(1) assms(2) [OF ms(1)] show ?case by simp
qed simp

lemma rollback_loop_groups:
  assumes "rollback_loop S s ks st = Ok staged" "\<And>k ms. rollback_key S k s = Ok ms \<Longrightarrow> g k = ms"
  shows "staged = st @ concat (map g ks) \<and> (\<forall>k \<in> set ks. rollback_key S k s = Ok (g k))"
  using assms(1)
proof (induction ks arbitrary: st)
  case (Cons a ks)
  then obtain ms where ms: "rollback_key S a s = Ok ms" "rollback_loop S s ks (st @ ms) = Ok staged"
    by (auto split: result.split_asm)
  from Cons.IH [OF ms(2)] ms(1) assms(2) [OF ms(1)] show ?case by simp
qed simp

lemma map_proto_Ok [simp]: "map_proto r = Ok a \<longleftrightarrow> r = Ok a"
  by (cases r) auto

lemma release_loop_groups:
  assumes "release_loop S s ks st n = Ok (staged, n')" "\<And>k ms. release_key S k s = Ok (ms, True) \<Longrightarrow> g k = ms"
    "\<And>k ms. release_key S k s = Ok (ms, False) \<Longrightarrow> g k = []"
  shows "staged = st @ concat (map g ks) \<and> (\<forall>k \<in> set ks. g k = [] \<or> release_key S k s = Ok (g k, True))"
  using assms(1)
proof (induction ks arbitrary: st n)
  case (Cons a ks)
  then obtain ms b where ms: "release_key S a s = Ok (ms, b)"
    "release_loop S s ks (if b then st @ ms else st) (if b then n + 1 else n) = Ok (staged, n')"
    by (auto simp: ok_then_Ok split: if_split_asm)
  from Cons.IH [OF ms(2)] ms(1) assms(2) [of a ms] assms(3) [of a ms] show ?case by (cases b) simp_all
qed simp

lemma resolve_loop_groups:
  assumes "resolve_loop S s c ks st n = Ok (staged, n')" "\<And>k ms. resolve_one S s c k = Ok (Some ms) \<Longrightarrow> g k = ms"
    "\<And>k ms. resolve_one S s c k = Ok None \<Longrightarrow> g k = []"
  shows "staged = st @ concat (map g ks) \<and> (\<forall>k \<in> set ks. g k = [] \<or> resolve_one S s c k = Ok (Some (g k)))"
  using assms(1)
proof (induction ks arbitrary: st n)
  case (Cons a ks)
  then obtain r where r: "resolve_one S s c a = Ok r"
    "(case r of Some ms \<Rightarrow> resolve_loop S s c ks (st @ ms) (Suc n) | None \<Rightarrow> resolve_loop S s c ks st n) = Ok (staged, n')"
    by (auto simp: ok_then_Ok)
  show ?case
  proof (cases r)
    case None
    with r Cons.IH [of st n] assms(3) [of a] show ?thesis by simp
  next
    case (Some ms)
    with r Cons.IH [of "st @ ms" "Suc n"] assms(2) [of a ms] show ?thesis by simp
  qed
qed simp

lemma resolve_one_good:
  assumes inv: "store_inv R m" and R: "timeline_ok R" and s: "s \<in> tl_starts R" and c: "c = 0 \<or> tl_commit R s = Some c"
    and one: "resolve_one (snap_of m) s c k = Ok (Some ms)"
  shows "good_group R A m k ms"
proof -
  have m: "store_ok m" and ok: "key_ok R k (kview m k)" using inv by (simp_all add: store_inv_def)
  show ?thesis
  proof (cases "c = 0")
    case True
    with one have "rollback_key (snap_of m) k s = Ok ms"
      by (auto simp: resolve_one_def eng.get_lock [OF m] split: if_splits result.splits)
    with rollback_good [OF m R ok s] show ?thesis by blast
  next
    case False
    with one have "\<exists>p. commit_secondary (snap_of m) k (on_trust p s c) = Ok ms"
      by (auto simp: resolve_one_def eng.get_lock [OF m] Let_def split: if_splits result.splits)
    with False c timelineD(1) [OF R s] trusted_good [OF m R] show ?thesis by blast
  qed
qed

subsection \<open>Prewrite\<close>

definition request_lock :: "prewrite_req \<Rightarrow> lock_record" where
  "request_lock p =
     \<lparr>lk_kind = op_kind (pw_op p), lk_start_ts = pw_start_ts p, lk_ttl_ms = pw_ttl_ms p,
      lk_primary = pw_primary p, lk_short_value = op_short_value (pw_op p)\<rparr>"

lemma prewrite_mutations_eq:
  "prewrite_mutations p = lock_put (pw_key p) (request_lock p) #
     (case op_long_value (pw_op p) of None \<Rightarrow> [] | Some v \<Rightarrow> [value_put (pw_key p) (pw_start_ts p) v])"
  by (simp add: prewrite_mutations_def Let_def batch_builders request_lock_def split: option.splits)

lemma request_lock_ok:
  assumes "pw_start_ts p \<le> u64_max" "pw_ttl_ms p \<le> u64_max" "pw_primary p \<noteq> []" "length (pw_primary p) \<le> u64_max"
  shows "lock_ok (request_lock p)"
  using assms by (cases "pw_op p") (simp_all add: lock_ok_def request_lock_def short_ok_def)

lemma long_put_op: "long_put (op_kind x) (op_short_value x) \<longleftrightarrow> op_long_value x \<noteq> None"
  by (cases x) (auto simp: long_put_def)

text \<open>What stays true while the groups of one prewrite are applied one after another.\<close>

definition prewriting :: "timeline \<Rightarrow> u64 set \<Rightarrow> u64 \<Rightarrow> memory_store \<Rightarrow> memory_store \<Rightarrow> bool" where
  "prewriting R A s m m' \<longleftrightarrow>
     store_ok m' \<and> (\<forall>j. (key_step R A j)\<^sup>*\<^sup>* (kview m j) (kview m' j)) \<and> write_at m' = write_at m
     \<and> (\<forall>j. lock_at m' j = lock_at m j \<or> (\<exists>l. lock_at m' j = Some l \<and> lk_start_ts l = s))"

lemma prewriting_refl: "store_ok m \<Longrightarrow> prewriting R A s m m"
  by (simp add: prewriting_def)

lemma apply_prewrite:
  assumes m: "store_ok m" and l: "lock_ok (request_lock p)" and s: "pw_start_ts p \<le> u64_max"
  shows "store_ok (mem_apply m (prewrite_mutations p))"
    and "kview (mem_apply m (prewrite_mutations p)) = (kview m)(pw_key p := (Some (request_lock p), write_at m (pw_key p),
      case op_long_value (pw_op p) of None \<Rightarrow> value_at m (pw_key p) | Some v \<Rightarrow> (value_at m (pw_key p))(pw_start_ts p \<mapsto> v)))"
proof -
  have one: "store_ok (mem_apply_one m (lock_put (pw_key p) (request_lock p)))" by (rule apply_lock_put(1) [OF m l])
  show "store_ok (mem_apply m (prewrite_mutations p))"
    by (auto simp: prewrite_mutations_eq one apply_value_put(1) [OF one s] split: option.splits)
  show "kview (mem_apply m (prewrite_mutations p)) = (kview m)(pw_key p := (Some (request_lock p), write_at m (pw_key p),
      case op_long_value (pw_op p) of None \<Rightarrow> value_at m (pw_key p) | Some v \<Rightarrow> (value_at m (pw_key p))(pw_start_ts p \<mapsto> v)))"
    by (cases "op_long_value (pw_op p)")
      (simp_all add: prewrite_mutations_eq kview_upd(1) [OF m l] kview_upd(4) [OF one s], simp_all add: kview_def)
qed

lemma prewriting_step:
  assumes pre: "prewriting R A s m m'" and inv: "store_inv R m" and R: "timeline_ok R" and s: "s \<in> tl_starts R"
    and A: "s \<in> A"
    and p: "pw_start_ts p = s" "pw_read_ts p < u64_max" "lock_ok (request_lock p)"
      "is_a_version (op_kind (pw_op p)) \<Longrightarrow> pw_read_ts p = tl_read R (pw_key p) s"
    and dec: "check_prewrite (snap_of m) p = Ok (PwLock ms)"
  shows "prewriting R A s m (mem_apply m' ms)"
proof -
  let ?k = "pw_key p"
  have m: "store_ok m" "key_ok R ?k (lock_at m ?k, write_at m ?k, value_at m ?k)"
    using inv by (simp_all add: store_inv_def kview_def)
  have le: "pw_start_ts p \<le> u64_max" using timelineD(1) [OF R s] p by simp
  note pl = eng.prewrite_lock [OF m(1) le p(2) dec]
  have un: "unrecorded (write_at m ?k) s" by (rule undecided_unrecorded [OF R m(2)]) (use pl(2) p(1) in auto)
  have until: "versions_until (write_at m ?k) (pw_read_ts p)"
    unfolding versions_until_def
  proof (intro allI impI)
    fix c w assume w: "write_at m ?k c = Some w" "is_a_version (wr_kind w)"
    then have "wr_kind w \<notin> {KRollback, KLock}" by auto
    from pl(3) [OF w(1) this] un p(1) show "c \<le> pw_read_ts p" by (auto simp: unrecorded_def)
  qed
  have m': "store_ok m'" "write_at m' = write_at m" using pre by (simp_all add: prewriting_def)
  have lock: "lk_start_ts l' = s" if "lock_at m' ?k = Some l'" for l'
  proof -
    from pre have "lock_at m' ?k = lock_at m ?k \<or> (\<exists>l. lock_at m' ?k = Some l \<and> lk_start_ts l = s)"
      unfolding prewriting_def by blast
    with that pl(4) [of l'] p(1) show ?thesis by auto
  qed
  have step: "key_step R A ?k (kview m' ?k) (kview (mem_apply m' (prewrite_mutations p)) ?k)"
    unfolding apply_prewrite(2) [OF m'(1) p(3) le] fun_upd_same kview_def m'(2)
  proof (rule key_step.lock)
    show "lk_start_ts (request_lock p) \<in> tl_starts R" "lk_start_ts (request_lock p) \<in> A"
      "unrecorded (write_at m ?k) (lk_start_ts (request_lock p))"
      using s A un p(1) by (simp_all add: request_lock_def)
    show "lk_kind (request_lock p) \<noteq> KRollback" by (cases "pw_op p") (simp_all add: request_lock_def)
    show "lk_start_ts l' = lk_start_ts (request_lock p)" if "lock_at m' ?k = Some l'" for l'
      using lock [OF that] p(1) by (simp add: request_lock_def)
    show "versions_until (write_at m ?k) (tl_read R ?k (lk_start_ts (request_lock p)))"
      if "is_a_version (lk_kind (request_lock p))"
      using that until p(1,4) by (simp add: request_lock_def)
  qed (auto simp: request_lock_def long_put_op split: option.splits)
  have others: "kview (mem_apply m' (prewrite_mutations p)) j = kview m' j" if "j \<noteq> ?k" for j
    using that by (simp add: apply_prewrite(2) [OF m'(1) p(3) le])
  have run: "(key_step R A j)\<^sup>*\<^sup>* (kview m j) (kview (mem_apply m' (prewrite_mutations p)) j)" for j
    using pre step others [of j] by (cases "j = ?k") (auto simp: prewriting_def intro: rtranclp.rtrancl_into_rtrancl)
  have "write_at (mem_apply m' (prewrite_mutations p)) j = write_at m j"
    and "lock_at (mem_apply m' (prewrite_mutations p)) j = lock_at m j
      \<or> (\<exists>l. lock_at (mem_apply m' (prewrite_mutations p)) j = Some l \<and> lk_start_ts l = s)" for j
    using apply_prewrite(2) [OF m'(1) p(3) le, THEN fun_cong, of j] pre m'(2) p(1)
    by (cases "j = ?k"; force simp: kview_def prewriting_def request_lock_def)+
  with run apply_prewrite(1) [OF m'(1) p(3) le] pl(1) show ?thesis by (simp add: prewriting_def fun_eq_iff)
qed

lemma prewrite_loop_refused:
  "prewrite_loop S s p ttl xs sts staged True = Some (Ok (sts', staged', r)) \<Longrightarrow> r"
  by (induction xs arbitrary: sts staged) (auto split: option.splits result.splits)

definition tm_contract :: "timeline \<Rightarrow> u64 \<Rightarrow> txn_mutation \<Rightarrow> bool" where
  "tm_contract R s x \<longleftrightarrow> tm_read_ts s x < u64_max
     \<and> (is_a_version (op_kind (tm_op x)) \<longrightarrow> tm_read_ts s x = tl_read R (tm_key x) s)"

lemma write_contract_tm: "write_contract R s w \<Longrightarrow> tm_contract R s (to_wire w)"
  by (cases w) (simp_all add: write_contract_def tm_contract_def)

lemma prewrite_one_staged:
  assumes "prewrite_one S s p ttl x = Some (Ok (TsOk, ms))"
  shows "ms = [] \<or> check_prewrite S (tm_request s p ttl x) = Ok (PwLock ms)"
proof (cases "\<exists>a b. x = TmCheckRange a b")
  case True
  with assms show ?thesis by (auto simp: prewrite_one_def ok_then_Ok)
next
  case False
  then have "prewrite_one S s p ttl x = Some (ok_then (map_proto (check_prewrite S (tm_request s p ttl x))) (\<lambda>d.
      Ok (decision_status (tm_key x) d)))"
    by (cases x) (simp_all add: prewrite_one_def)
  with assms obtain d where "check_prewrite S (tm_request s p ttl x) = Ok d" "decision_status (tm_key x) d = (TsOk, ms)"
    by (auto simp: ok_then_Ok)
  then show ?thesis by (cases d) auto
qed

lemma prewrite_loop_prewriting:
  assumes inv: "store_inv R m" and R: "timeline_ok R" and s: "s \<in> tl_starts R" "s \<in> A"
    and p: "p \<noteq> []" "length p \<le> u64_max" "ttl \<le> u64_max"
  shows "prewrite_loop (snap_of m) s p ttl xs sts staged False = Some (Ok (sts', staged', False)) \<Longrightarrow>
    \<forall>x \<in> set xs. tm_contract R s x \<Longrightarrow> prewriting R A s m (mem_apply m staged) \<Longrightarrow> prewriting R A s m (mem_apply m staged')"
proof (induction xs arbitrary: sts staged)
  case (Cons x xs)
  from Cons.prems(1) obtain st ms where one: "prewrite_one (snap_of m) s p ttl x = Some (Ok (st, ms))"
    and rest: "prewrite_loop (snap_of m) s p ttl xs (sts @ [st]) (staged @ ms) (\<not> status_is_ok st)
      = Some (Ok (sts', staged', False))"
    by (auto split: option.splits result.splits)
  then have "st = TsOk" using prewrite_loop_refused by (cases "status_is_ok st") (auto simp: status_is_ok_def)
  have "prewriting R A s m (mem_apply m (staged @ ms))"
  proof (cases "ms = []")
    case False
    have le: "s \<le> u64_max" by (rule timelineD(1) [OF R s(1)])
    have "prewriting R A s m (mem_apply (mem_apply m staged) ms)"
    proof (rule prewriting_step [OF Cons.prems(3) inv R s])
      show "check_prewrite (snap_of m) (tm_request s p ttl x) = Ok (PwLock ms)"
        using prewrite_one_staged one \<open>st = TsOk\<close> False by blast
      show "lock_ok (request_lock (tm_request s p ttl x))"
        by (rule request_lock_ok) (use le p in \<open>simp_all add: tm_request_def\<close>)
    qed (use Cons.prems(2) in \<open>auto simp: tm_request_def tm_contract_def\<close>)
    then show ?thesis by simp
  qed (use Cons.prems in simp)
  with Cons.IH [of "sts @ [st]" "staged @ ms"] rest Cons.prems(2) \<open>st = TsOk\<close> show ?case
    by (simp add: status_is_ok_def)
qed simp

section \<open>Every command refines the key machine\<close>

text \<open>The transactions a command may lock keys for.\<close>

fun lockers :: "txn_command \<Rightarrow> u64 set" where
  "lockers (CmdPrewrite s p ttl ws) = {s}"
| "lockers _ = {}"

lemma apply_txn_refines:
  assumes inv: "store_inv R m" and R: "timeline_ok R" and con: "command_contract R c" and A: "lockers c \<subseteq> A"
    and app: "apply_txn m c = Some (m', resp)"
  shows "store_ok m' \<and> (\<forall>j. (key_step R A j)\<^sup>*\<^sup>* (kview m j) (kview m' j))"
proof -
  have m: "store_ok m" and ok: "\<And>k. key_ok R k (kview m k)" using inv by (simp_all add: store_inv_def)
  from app obtain batch where st: "stage_txn (engine_of m) [] c = Some (batch, Ok resp)" and m': "m' = mem_apply m batch"
    by (auto simp: apply_txn_def split: option.splits result.splits)
  note start = timelineD(1) [OF R]
  show ?thesis
  proof (cases c)
    case (CmdPrewrite s p ttl ws)
    with con A have s: "s \<in> tl_starts R" "s \<in> A" and p: "p \<noteq> []" "length p \<le> u64_max" "ttl \<le> u64_max"
      and ws: "\<forall>x \<in> set (map to_wire ws). tm_contract R s x" by (auto intro: write_contract_tm)
    from st CmdPrewrite obtain sts staged r where loop: "prewrite_loop (snap_of m) s p ttl (map to_wire ws) [] [] False
        = Some (Ok (sts, staged, r))" "batch = (if r then [] else staged)"
      by (auto simp: stage_txn_def kv_prewrite_def split: option.splits result.splits if_splits)
    show ?thesis
    proof (cases r)
      case False
      with loop prewrite_loop_prewriting [OF inv R s p _ ws, of "[]" "[]"] prewriting_refl [OF m]
      show ?thesis by (simp add: m' prewriting_def)
    qed (use loop m m' in simp)
  next
    case (CmdCommit s ct keys)
    with con have s: "s \<le> u64_max" and ct: "tl_commit R s = Some ct" using start by simp_all
    let ?g = "\<lambda>k. ok_val (ok_val (commit_one (snap_of m) s ct k))"
    from st CmdCommit consider "batch = []" | "commit_loop (snap_of m) s ct keys [] = Ok (Ok batch)"
      by (auto simp: stage_txn_def kv_commit_def split: result.splits)
    then show ?thesis
    proof cases
      case 2
      then have "batch = concat (map ?g keys)" "\<forall>k \<in> set keys. commit_one (snap_of m) s ct k = Ok (Ok (?g k))"
        using commit_loop_groups [of "snap_of m" s ct keys "[]" batch ?g] by auto
      with good_groups [OF commit_one_good [OF m R ct s] m] show ?thesis by (simp add: m')
    qed (use m m' in simp)
  next
    case (CmdRollback s keys)
    with con have s: "s \<in> tl_starts R" by simp
    let ?g = "\<lambda>k. ok_val (rollback_key (snap_of m) k s)"
    from st CmdRollback consider "batch = []" | "rollback_loop (snap_of m) s keys [] = Ok batch"
      by (auto simp: stage_txn_def kv_rollback_def split: result.splits)
    then show ?thesis
    proof cases
      case 2
      then have "batch = concat (map ?g keys)" "\<forall>k \<in> set keys. rollback_key (snap_of m) k s = Ok (?g k)"
        using rollback_loop_groups [of "snap_of m" s keys "[]" batch ?g] by auto
      with good_groups [OF rollback_good [OF m R ok s] m] show ?thesis by (simp add: m')
    qed (use m m' in simp)
  next
    case (CmdReleaseLock s keys)
    with con have s: "s \<le> u64_max" using start by simp
    let ?g = "\<lambda>k. case ok_val (release_key (snap_of m) k s) of (ms, b) \<Rightarrow> if b then ms else []"
    from st CmdReleaseLock obtain n where "release_loop (snap_of m) s keys [] 0 = Ok (batch, n)"
      by (auto simp: stage_txn_def kv_release_lock_def split: result.splits)
    then have "batch = concat (map ?g keys)" "\<forall>k \<in> set keys. ?g k = [] \<or> release_key (snap_of m) k s = Ok (?g k, True)"
      using release_loop_groups [of "snap_of m" s keys "[]" 0 batch n ?g] by auto
    moreover from this(2) have "good_group R A m k (?g k)" if "k \<in> set keys" for k
      using that release_good [OF m s] good_group_Nil by metis
    ultimately show ?thesis using good_groups [of keys R A m ?g] m by (simp add: m')
  next
    case (CmdResolveLock s ct keys)
    with con have s: "s \<in> tl_starts R" and ct: "ct = 0 \<or> tl_commit R s = Some ct" by simp_all
    let ?g = "\<lambda>k. case ok_val (resolve_one (snap_of m) s ct k) of Some ms \<Rightarrow> ms | None \<Rightarrow> []"
    from st CmdResolveLock obtain n where "resolve_loop (snap_of m) s ct keys [] 0 = Ok (batch, n)"
      by (auto simp: stage_txn_def kv_resolve_lock_def split: result.splits)
    then have "batch = concat (map ?g keys)" "\<forall>k \<in> set keys. ?g k = [] \<or> resolve_one (snap_of m) s ct k = Ok (Some (?g k))"
      using resolve_loop_groups [of "snap_of m" s ct keys "[]" 0 batch n ?g] by auto
    moreover from this(2) have "good_group R A m k (?g k)" if "k \<in> set keys" for k
      using that resolve_one_good [OF inv R s ct] good_group_Nil by metis
    ultimately show ?thesis using good_groups [of keys R A m ?g] m by (simp add: m')
  next
    case (CmdHeartbeat s p ttl)
    with con have ttl: "ttl \<le> u64_max" by simp
    from st CmdHeartbeat consider "batch = []"
      | l where "lock_at m p = Some l" "batch = [lock_put p (l\<lparr>lk_ttl_ms := ttl\<rparr>)]"
      by (auto simp: stage_txn_def kv_heartbeat_def eng.get_lock [OF m] batch_builders split: option.splits if_splits)
    then show ?thesis
    proof cases
      case 2
      with lock_at_ok [OF m 2(1)] ttl have l: "lock_ok (l\<lparr>lk_ttl_ms := ttl\<rparr>)" by (simp add: lock_ok_def)
      have "key_step R A p (kview m p) (Some (l\<lparr>lk_ttl_ms := ttl\<rparr>), snd (kview m p))"
        using key_step.beat [of R A p l "write_at m p" "value_at m p" ttl] 2(1) by (simp add: kview_def)
      then show ?thesis
        using 2(2) apply_lock_put(1) [OF m l] by (auto simp: m' kview_upd(1) [OF m l])
    qed (use m m' in simp)
  qed
qed

end
