(* ===== verification/TxnIsolation.thy ===== *)
theory TxnIsolation
  imports TxnMachine
begin

text \<open>
  What the transaction layer promises over whole runs. A region starts empty and applies commands that
  keep the clients' contract. In every state it reaches, no update is lost, a transaction has one fate on
  a key, no read misses a value, no command stops the peer, and a snapshot that was read once reads the
  same for ever.
\<close>

section \<open>Runs\<close>

inductive kv_run :: "timeline \<Rightarrow> u64 set \<Rightarrow> memory_store \<Rightarrow> memory_store \<Rightarrow> bool" for R A m where
  refl: "kv_run R A m m"
| step: "kv_run R A m m' \<Longrightarrow> command_contract R c \<Longrightarrow> lockers c \<subseteq> A \<Longrightarrow> apply_txn m' c = Some (m'', resp) \<Longrightarrow>
    kv_run R A m m''"

abbreviation kv_reachable :: "timeline \<Rightarrow> memory_store \<Rightarrow> bool" where
  "kv_reachable R \<equiv> kv_run R UNIV mem_store_new"

lemma kview_new: "kview mem_store_new k = (None, \<lambda>_. None, \<lambda>_. None)"
  by (simp add: kview_def fun_eq_iff)

lemma store_inv_new: "store_inv R mem_store_new"
  by (simp add: store_inv_def kview_new)

lemma store_inv_step:
  assumes "store_inv R m" "timeline_ok R" "command_contract R c" "apply_txn m c = Some (m', resp)"
  shows "store_inv R m'"
proof -
  have "store_ok m' \<and> (\<forall>k. (key_step R UNIV k)\<^sup>*\<^sup>* (kview m k) (kview m' k))"
    by (rule apply_txn_refines [OF assms(1-3) subset_UNIV assms(4)])
  then show ?thesis
    using key_steps_ok [OF _ assms(2)] assms(1) unfolding store_inv_def by blast
qed

lemma store_inv_run: "kv_run R A m m' \<Longrightarrow> timeline_ok R \<Longrightarrow> store_inv R m \<Longrightarrow> store_inv R m'"
  by (induction rule: kv_run.induct) (auto intro: store_inv_step)

lemma run_key_steps:
  assumes "kv_run R A m m'" "timeline_ok R" "store_inv R m"
  shows "(key_step R A k)\<^sup>*\<^sup>* (kview m k) (kview m' k)"
  using assms
proof (induction rule: kv_run.induct)
  case (step m' c m'' resp)
  have "(key_step R A k)\<^sup>*\<^sup>* (kview m' k) (kview m'' k)"
    using apply_txn_refines [OF store_inv_run [OF step.hyps(1) step.prems] step.prems(1) step.hyps(2-4)] by blast
  with step show ?case by (meson rtranclp_trans)
qed simp

lemma kv_reachable_inv: "kv_reachable R m \<Longrightarrow> timeline_ok R \<Longrightarrow> store_inv R m"
  using store_inv_run store_inv_new by blast

section \<open>No command stops a peer\<close>

lemma engine_total:
  assumes m: "store_ok m" and "s \<le> u64_max"
  shows "\<exists>x. settled_state (snap_of m) k s = Ok x"
  by (cases rule: eng.settled_cases [OF assms, of k]) auto

lemma check_range_total:
  assumes "store_ok m" "s \<le> u64_max"
  shows "\<exists>st. check_range (snap_of m) s a b = Some (Ok st)"
  using eng.newest_write_in_range [OF assms, of a b] eng.foreign_lock_in_range [OF assms(1), of a b s]
  by (auto simp: check_range_def split: option.splits prod.splits)

lemma prewrite_one_total:
  assumes "store_ok m" "s \<le> u64_max" "tm_read_ts s x < u64_max"
  shows "\<exists>st ms. prewrite_one (snap_of m) s p ttl x = Some (Ok (st, ms))"
proof (cases "\<exists>a b. x = TmCheckRange a b")
  case True
  then obtain a b where x: "x = TmCheckRange a b" by blast
  obtain st where "check_range (snap_of m) s a b = Some (Ok st)" using check_range_total [OF assms(1,2)] by blast
  with x show ?thesis by (simp add: prewrite_one_def)
next
  case False
  then have one: "prewrite_one (snap_of m) s p ttl x = Some (ok_then (map_proto (check_prewrite (snap_of m) (tm_request s p ttl x)))
      (\<lambda>d. Ok (decision_status (tm_key x) d)))"
    by (cases x) (simp_all add: prewrite_one_def)
  obtain d where "check_prewrite (snap_of m) (tm_request s p ttl x) = Ok d"
    using eng.check_prewrite_total [OF assms(1), of "tm_request s p ttl x"] assms by (auto simp: tm_request_def)
  with one show ?thesis by (cases "decision_status (tm_key x) d") simp
qed

lemma prewrite_loop_total:
  assumes "store_ok m" "s \<le> u64_max" "\<forall>x \<in> set xs. tm_read_ts s x < u64_max"
  shows "\<exists>r. prewrite_loop (snap_of m) s p ttl xs sts staged refused = Some (Ok r)"
  using assms(3)
proof (induction xs arbitrary: sts staged refused)
  case (Cons x xs)
  obtain st ms where "prewrite_one (snap_of m) s p ttl x = Some (Ok (st, ms))"
    using prewrite_one_total [OF assms(1,2), of x p ttl] Cons.prems by auto
  with Cons show ?case by simp
qed simp

lemma commit_loop_total: "store_ok m \<Longrightarrow> \<exists>r. commit_loop (snap_of m) s c ks staged = Ok r"
proof (induction ks arbitrary: staged)
  case (Cons k ks)
  obtain out where "commit_one (snap_of m) s c k = Ok out"
    by (auto simp: commit_one_def eng.get_lock [OF Cons.prems])
  with Cons show ?case by (cases out) simp_all
qed simp

lemma release_loop_total: "store_ok m \<Longrightarrow> \<exists>r. release_loop (snap_of m) s ks staged n = Ok r"
proof (induction ks arbitrary: staged n)
  case (Cons k ks)
  obtain ms b where "release_key (snap_of m) k s = Ok (ms, b)"
    using eng.release_Ok [OF Cons.prems, of k s] by (cases "held_by s (lock_at m k)") auto
  with Cons show ?case by simp
qed simp

lemma resolve_loop_total: "store_ok m \<Longrightarrow> \<exists>r. resolve_loop (snap_of m) s c ks staged n = Ok r"
proof (induction ks arbitrary: staged n)
  case (Cons k ks)
  have "\<exists>out. resolve_one (snap_of m) s c k = Ok out"
    by (simp add: resolve_one_def eng.get_lock [OF Cons.prems] Let_def)
  then obtain out where "resolve_one (snap_of m) s c k = Ok out" ..
  with Cons show ?case by (cases out) simp_all
qed simp

lemma apply_txn_total:
  assumes m: "store_ok m" and R: "timeline_ok R" and con: "command_contract R c"
  shows "\<exists>m' resp. apply_txn m c = Some (m', resp)"
proof -
  have "\<exists>batch resp. stage_txn (engine_of m) [] c = Some (batch, Ok resp)"
  proof (cases c)
    case (CmdPrewrite s p ttl ws)
    with con have "s \<le> u64_max" "\<forall>x \<in> set (map to_wire ws). tm_read_ts s x < u64_max"
      using timelineD(1) [OF R] by (auto simp: write_contract_def)
    then obtain sts staged r where "prewrite_loop (snap_of m) s p ttl (map to_wire ws) [] [] False = Some (Ok (sts, staged, r))"
      using prewrite_loop_total [OF m, of s "map to_wire ws" p ttl "[]" "[]" False] by auto
    with CmdPrewrite show ?thesis by (simp add: stage_txn_def kv_prewrite_def)
  next
    case (CmdCommit s ct keys)
    obtain r where "commit_loop (snap_of m) s ct keys [] = Ok r" using commit_loop_total [OF m] by blast
    with CmdCommit show ?thesis by (cases r) (simp_all add: stage_txn_def kv_commit_def)
  next
    case (CmdRollback s keys)
    then show ?thesis by (cases "rollback_loop (snap_of m) s keys []") (simp_all add: stage_txn_def kv_rollback_def)
  next
    case (CmdReleaseLock s keys)
    obtain r where "release_loop (snap_of m) s keys [] 0 = Ok r" using release_loop_total [OF m] by blast
    with CmdReleaseLock show ?thesis by (cases r) (simp add: stage_txn_def kv_release_lock_def)
  next
    case (CmdResolveLock s ct keys)
    obtain r where "resolve_loop (snap_of m) s ct keys [] 0 = Ok r" using resolve_loop_total [OF m] by blast
    with CmdResolveLock show ?thesis by (cases r) (simp add: stage_txn_def kv_resolve_lock_def)
  next
    case (CmdHeartbeat s p ttl)
    then show ?thesis by (auto simp: stage_txn_def kv_heartbeat_def eng.get_lock [OF m] split: option.splits)
  qed
  then show ?thesis by (auto simp: apply_txn_def)
qed

section \<open>An unhindered transaction commits\<close>

lemma newest_where_None: "(\<And>c w. W c = Some w \<Longrightarrow> \<not> P c w) \<Longrightarrow> newest_where W P r \<Longrightarrow> r = None"
  by (cases r) (auto simp: newest_where_def)

lemma prewrite_granted:
  assumes m: "store_ok m" and s: "s < u64_max" and free: "lock_at m k = None" "unrecorded (write_at m k) s"
    "\<And>c w. write_at m k c = Some w \<Longrightarrow> wr_kind w \<notin> {KRollback, KLock} \<Longrightarrow> c \<le> s"
  shows "apply_txn m (CmdPrewrite s p ttl [TwPut k v None])
    = Some (mem_apply m (prewrite_mutations (tm_request s p ttl (TmPut k v None))), RespPrewrite [TsOk])"
proof -
  have le: "s \<le> u64_max" using s by simp
  have "ts_write_of_txn (snap_of m) k s = Ok None"
    using eng.write_of_txn [OF m le, of k] newest_where_None [of "write_at m k" "\<lambda>c w. s \<le> c \<and> wr_start_ts w = s"] free(2)
    by (auto simp: unrecorded_def)
  moreover have "ts_newest_write_after (snap_of m) k s = Ok None"
  proof -
    obtain r where r: "ts_newest_write_after (snap_of m) k s = Ok r"
      "newest_where (write_at m k) (\<lambda>c w. s < c \<and> wr_kind w \<notin> {KRollback, KLock}) r"
      using eng.newest_write_after [OF m s] by blast
    have "r = None" by (rule newest_where_None [OF _ r(2)]) (use free(3) in fastforce)
    with r show ?thesis by simp
  qed
  ultimately have "check_prewrite (snap_of m) (tm_request s p ttl (TmPut k v None))
      = Ok (PwLock (prewrite_mutations (tm_request s p ttl (TmPut k v None))))"
    using free(1) by (simp add: check_prewrite_def prewrite_against_lock_def tm_request_def eng.get_lock [OF m])
  then show ?thesis
    by (simp add: apply_txn_def stage_txn_def kv_prewrite_def prewrite_one_def status_is_ok_def)
qed

lemma commit_granted:
  assumes m: "store_ok m" and l: "lock_at m k = Some l" "lk_start_ts l = s" "lk_primary l = k" and c: "s < c"
  shows "apply_txn m (CmdCommit s c [k]) = Some (mem_apply m (commit_mutations k c l), RespCommit TsOk)"
proof -
  have "commit_one (snap_of m) s c k = Ok (Ok (commit_mutations k c l))"
    using l c by (simp add: commit_one_def commit_primary_def eng.get_lock [OF m] lock_is_primary_def into_mutations_def Let_def)
  then show ?thesis by (simp add: apply_txn_def stage_txn_def kv_commit_def)
qed

lemma kview_simps: "lock_at m k = fst (kview m k)" "write_at m k = fst (snd (kview m k))" "value_at m k = snd (snd (kview m k))"
  by (simp_all add: kview_def)

lemma put_and_commit:
  assumes m: "store_ok m" and s: "s < c" "c \<le> u64_max" and k: "k \<noteq> []" "length k \<le> u64_max" "ttl \<le> u64_max"
    and v: "length v \<le> SHORT_VALUE_MAX_LEN"
    and free: "lock_at m k = None" "unrecorded (write_at m k) s"
      "\<And>c w. write_at m k c = Some w \<Longrightarrow> wr_kind w \<notin> {KRollback, KLock} \<Longrightarrow> c \<le> s"
  obtains m1 m2 where
    "apply_txn m (CmdPrewrite s k ttl [TwPut k v None]) = Some (m1, RespPrewrite [TsOk])"
    "apply_txn m1 (CmdCommit s c [k]) = Some (m2, RespCommit TsOk)"
    "store_ok m2"
    "kview m2 = (kview m)(k := (None, (write_at m k)(c \<mapsto> \<lparr>wr_kind = KPut, wr_start_ts = s, wr_short_value = Some v\<rparr>), value_at m k))"
proof -
  let ?p = "tm_request s k ttl (TmPut k v None)"
  define m1 where "m1 = mem_apply m (prewrite_mutations ?p)"
  have p: "pw_start_ts ?p = s" "pw_ttl_ms ?p = ttl" "pw_primary ?p = k" "pw_key ?p = k" "pw_op ?p = OpPut v"
    by (simp_all add: tm_request_def)
  have sm: "s < u64_max" using s by linarith
  have lo: "lock_ok (request_lock ?p)" by (rule request_lock_ok) (use k sm in \<open>simp_all add: p\<close>)
  have m1: "store_ok m1" "kview m1 = (kview m)(k := (Some (request_lock ?p), write_at m k, value_at m k))"
    using apply_prewrite [OF m lo] sm v unfolding m1_def by (simp_all add: p)
  have l: "lock_at m1 k = Some (request_lock ?p)" by (simp add: kview_simps(1) m1(2))
  let ?m2 = "mem_apply m1 (commit_mutations k c (request_lock ?p))"
  have "local_group k (commit_mutations k c (request_lock ?p)) (commit_effect c (request_lock ?p))"
    by (rule commit_group [OF lo s(2)])
  then have m2: "store_ok ?m2" "kview ?m2 = (kview m1)(k := commit_effect c (request_lock ?p) (kview m1 k))"
    using m1(1) by (simp_all add: local_group_def)
  have "record_of (request_lock ?p) = \<lparr>wr_kind = KPut, wr_start_ts = s, wr_short_value = Some v\<rparr>"
    using v by (simp add: record_of_def request_lock_def p write_record_new_def)
  with m2(2) have "kview ?m2 = (kview m)(k := (None, (write_at m k)(c \<mapsto> \<lparr>wr_kind = KPut, wr_start_ts = s, wr_short_value = Some v\<rparr>), value_at m k))"
    by (simp add: m1(2) commit_effect_def)
  moreover have "apply_txn m1 (CmdCommit s c [k]) = Some (?m2, RespCommit TsOk)"
    by (rule commit_granted [OF m1(1) l _ _ s(1)]) (simp_all add: request_lock_def p)
  ultimately show thesis
    using that prewrite_granted [OF m sm free(1,2)] free(3) m2(1) unfolding m1_def by blast
qed

section \<open>Snapshots do not move\<close>

text \<open>Transactions that commit above a timestamp, if they commit at all.\<close>

definition commits_after :: "timeline \<Rightarrow> u64 \<Rightarrow> u64 set" where
  "commits_after R ts = {s. \<forall>c. tl_commit R s = Some c \<longrightarrow> ts < c}"

definition undisturbed :: "timeline \<Rightarrow> u64 \<Rightarrow> key_view \<Rightarrow> bool" where
  "undisturbed R ts kv \<longleftrightarrow> (\<forall>l. fst kv = Some l \<longrightarrow> lk_kind l \<noteq> KLock \<longrightarrow> lk_start_ts l \<in> commits_after R ts)"

definition same_below :: "u64 \<Rightarrow> key_view \<Rightarrow> key_view \<Rightarrow> bool" where
  "same_below ts kv kv' \<longleftrightarrow>
     (\<forall>c w. c \<le> ts \<longrightarrow> is_a_version (wr_kind w) \<longrightarrow> (fst (snd kv') c = Some w \<longleftrightarrow> fst (snd kv) c = Some w))
     \<and> (\<forall>c w. fst (snd kv) c = Some w \<longrightarrow> snd (snd kv') (wr_start_ts w) = snd (snd kv) (wr_start_ts w))
     \<and> (\<forall>c w. fst (snd kv) c = Some w \<longrightarrow> fst (snd kv') c = Some w)"

lemma same_below_refl: "same_below ts kv kv"
  by (simp add: same_below_def)

lemma same_below_trans:
  assumes "same_below ts x y" "same_below ts y z"
  shows "same_below ts x z"
proof -
  have kept: "fst (snd x) c = Some w \<Longrightarrow> fst (snd y) c = Some w" for c w
    using assms(1) unfolding same_below_def by blast
  have "snd (snd z) (wr_start_ts w) = snd (snd x) (wr_start_ts w)" if "fst (snd x) c = Some w" for c w
  proof -
    have "snd (snd y) (wr_start_ts w) = snd (snd x) (wr_start_ts w)"
      using assms(1) that unfolding same_below_def by blast
    moreover have "snd (snd z) (wr_start_ts w) = snd (snd y) (wr_start_ts w)"
      using assms(2) kept [OF that] unfolding same_below_def by blast
    ultimately show ?thesis by (rule trans [rotated])
  qed
  moreover have "fst (snd z) c = Some w" if "fst (snd x) c = Some w" for c w
    using assms(2) kept [OF that] unfolding same_below_def by blast
  moreover have "fst (snd z) c = Some w \<longleftrightarrow> fst (snd x) c = Some w" if "c \<le> ts" "is_a_version (wr_kind w)" for c w
    using assms that unfolding same_below_def by blast
  ultimately show ?thesis unfolding same_below_def by blast
qed

lemma same_below_upd:
  assumes "W c = None" "\<not> (c \<le> ts \<and> is_a_version (wr_kind r))"
  shows "same_below ts (L, W, V) (L', W(c \<mapsto> r), V)"
  unfolding same_below_def using assms by auto

lemma same_below_value:
  assumes "unrecorded W s" "V' = V \<or> (\<exists>x. V' = V(s := x))"
  shows "same_below ts (L, W, V) (L', W, V')"
  unfolding same_below_def using assms by (auto simp: unrecorded_def)

lemma key_step_undisturbed:
  assumes R: "timeline_ok R" and "key_step R (commits_after R ts) k kv kv'" "key_ok R k kv" "undisturbed R ts kv"
  shows "undisturbed R ts kv' \<and> same_below ts kv kv'"
  using assms(2,3,4)
proof cases
  case (lock l W L V' V)
  have "same_below ts kv kv'" unfolding lock(1,2) by (rule same_below_value [OF lock(6)]) (use lock(9) in auto)
  with lock(2,4) show ?thesis by (simp add: undisturbed_def)
next
  case (commit l c W V)
  with assms(3) have ok: "key_ok R k (Some l, W, V)" by simp
  have free: "W c = None" by (rule commit_is_free [OF R ok commit(3) key_okD(8) [OF ok HOL.refl]])
  have "same_below ts kv kv'"
    unfolding commit(1,2)
    by (rule same_below_upd, rule free) (use commit(1,3) assms(4) in \<open>auto simp: undisturbed_def commits_after_def\<close>)
  with commit(2) show ?thesis by (simp add: undisturbed_def)
next
  case (mark s W L V)
  with assms(3) have ok: "key_ok R k (L, W, V)" by simp
  have "same_below ts kv kv'"
    unfolding mark(1,2)
    by (rule same_below_upd, rule start_is_free [OF R ok mark(3,4)]) (simp add: write_record_rollback_def write_record_new_def)
  with mark(1,2) assms(4) show ?thesis by (simp add: undisturbed_def)
next
  case (drop V' V l W)
  with assms(3) have ok: "key_ok R k (Some l, W, V)" by simp
  have "same_below ts kv kv'"
    unfolding drop(1,2) by (rule same_below_value [OF key_okD(8) [OF ok HOL.refl]]) (use drop(3) in auto)
  with drop(2) show ?thesis by (simp add: undisturbed_def)
next
  case (beat l W V t)
  have "same_below ts kv kv'" unfolding beat by (simp add: same_below_def)
  with beat assms(4) show ?thesis by (simp add: undisturbed_def)
qed

lemma key_steps_undisturbed:
  "(key_step R (commits_after R ts) k)\<^sup>*\<^sup>* kv kv' \<Longrightarrow> timeline_ok R \<Longrightarrow> key_ok R k kv \<Longrightarrow> undisturbed R ts kv \<Longrightarrow>
   undisturbed R ts kv' \<and> same_below ts kv kv'"
proof (induction rule: rtranclp_induct)
  case (step kv' kv'')
  then have "key_ok R k kv'" using key_steps_ok by blast
  with step key_step_undisturbed [of R ts k kv' kv''] same_below_trans show ?case by blast
qed (simp add: same_below_refl)

lemma read_at_same:
  assumes m: "store_ok m" "store_ok m'" and ts: "ts \<le> u64_max" and same: "same_below ts (kview m k) (kview m' k)"
    and starts: "\<And>c w. write_at m k c = Some w \<Longrightarrow> wr_start_ts w \<le> u64_max"
    and free: "blocking_lock ts (lock_at m k) = None" "blocking_lock ts (lock_at m' k) = None"
  shows "read_at (snap_of m') k ts = read_at (snap_of m) k ts"
proof -
  let ?P = "\<lambda>c w. c \<le> ts \<and> is_a_version (wr_kind w)"
  obtain r where r: "newest_where (write_at m k) ?P r"
    "read_at (snap_of m) k ts = Some (case r of None \<Rightarrow> Ok RdNotFound | Some v \<Rightarrow> value_of (snap_of m) k (vn_record v))"
    using eng.read_at_newest [OF m(1) ts, of k] free(1) by auto
  obtain r' where r': "newest_where (write_at m' k) ?P r'"
    "read_at (snap_of m') k ts = Some (case r' of None \<Rightarrow> Ok RdNotFound | Some v \<Rightarrow> value_of (snap_of m') k (vn_record v))"
    using eng.read_at_newest [OF m(2) ts, of k] free(2) by auto
  have agree: "write_at m' k c = Some w \<and> ?P c w \<longleftrightarrow> write_at m k c = Some w \<and> ?P c w" for c w
    using same unfolding same_below_def by (auto simp: kview_def)
  have "newest_where (write_at m' k) ?P r"
    using r(1) agree unfolding newest_where_def by (cases r) (simp_all, metis+)
  then have "r' = r" using r'(1) newest_where_unique by blast
  moreover have "value_of (snap_of m') k (vn_record v) = value_of (snap_of m) k (vn_record v)" if "r = Some v" for v
  proof -
    have w: "write_at m k (vn_commit_ts v) = Some (vn_record v)" using r(1) that by (simp add: newest_where_def)
    then have "value_at m' k (wr_start_ts (vn_record v)) = value_at m k (wr_start_ts (vn_record v))"
      using same unfolding same_below_def by (auto simp: kview_def)
    with starts [OF w] have g: "ts_get_value (snap_of m') k (wr_start_ts (vn_record v))
        = ts_get_value (snap_of m) k (wr_start_ts (vn_record v))"
      by (simp add: eng.get_value [OF m(1)] eng.get_value [OF m(2)])
    show ?thesis unfolding value_of_def g ..
  qed
  ultimately show ?thesis using r(2) r'(2) by (cases r) simp_all
qed

lemma kv_run_trans: "kv_run R A m2 m3 \<Longrightarrow> kv_run R A m1 m2 \<Longrightarrow> kv_run R A m1 m3"
  by (induction rule: kv_run.induct) (auto intro: kv_run.step)

lemma kv_run_mono: "kv_run R A m m' \<Longrightarrow> A \<subseteq> B \<Longrightarrow> kv_run R B m m'"
proof (induction rule: kv_run.induct)
  case (step m' c m'' resp)
  then show ?case by (meson kv_run.step subset_trans)
qed (rule kv_run.refl)

lemma stable_read:
  assumes R: "timeline_ok R" and m: "kv_reachable R m" and run: "kv_run R (commits_after R ts) m m'" and ts: "ts \<le> u64_max"
    and read: "read_at (snap_of m) k ts = Some (Ok out)" "\<And>l. out \<noteq> RdLocked l"
  shows "read_at (snap_of m') k ts = Some (Ok out) \<or> (\<exists>l. read_at (snap_of m') k ts = Some (Ok (RdLocked l)))"
proof -
  have inv: "store_inv R m" "store_inv R m'" using kv_reachable_inv [OF m R] store_inv_run [OF run R] by blast+
  then have ok: "store_ok m" "store_ok m'" "key_ok R k (kview m k)" by (auto simp: store_inv_def)
  have free: "blocking_lock ts (lock_at m k) = None"
    using eng.read_at_newest [OF ok(1) ts, of k] read by (cases "blocking_lock ts (lock_at m k)") auto
  have "undisturbed R ts (kview m k)"
    using free timelineD(2) [OF R] unfolding undisturbed_def commits_after_def
    by (fastforce simp: kview_def blocking_lock_def split: if_splits)
  then have same: "same_below ts (kview m k) (kview m' k)"
    using key_steps_undisturbed [OF run_key_steps [OF run R inv(1)] R ok(3)] by blast
  show ?thesis
  proof (cases "blocking_lock ts (lock_at m' k)")
    case None
    have "wr_start_ts w \<le> u64_max" if "write_at m k c = Some w" for c w
      using key_okD(1) [of R k "lock_at m k" "write_at m k" "value_at m k"] ok(3) that timelineD(1) [OF R] by (auto simp: kview_def)
    then have "read_at (snap_of m') k ts = read_at (snap_of m) k ts"
      by (rule read_at_same [OF ok(1,2) ts same _ free None])
    with read(1) show ?thesis by simp
  next
    case (Some l)
    then show ?thesis using eng.read_at_newest [OF ok(2) ts, of k] by auto
  qed
qed

section \<open>A history\<close>

definition demo_line :: timeline where
  "demo_line = \<lparr>tl_starts = {10, 30}, tl_commit = [10 \<mapsto> 20, 30 \<mapsto> 40], tl_read = (\<lambda>k s. s)\<rparr>"

abbreviation demo_put :: "u64 \<Rightarrow> bytes \<Rightarrow> write_record" where
  "demo_put s v \<equiv> \<lparr>wr_kind = KPut, wr_start_ts = s, wr_short_value = Some v\<rparr>"

lemma demo_line_ok: "timeline_ok demo_line"
  by (auto simp: timeline_ok_def demo_line_def u64_max_def split: if_splits)

lemma demo_contract:
  "s \<in> {10, 30} \<Longrightarrow> command_contract demo_line (CmdPrewrite s [107] 3000 [TwPut [107] v None])"
  "command_contract demo_line (CmdCommit 10 20 [[107]])" "command_contract demo_line (CmdCommit 30 40 [[107]])"
  by (auto simp: demo_line_def write_contract_def u64_max_def)

lemma demo_history:
  obtains m2 m4 where "kv_reachable demo_line m2" "kv_run demo_line (commits_after demo_line 25) m2 m4"
    "store_ok m2" "store_ok m4"
    "kview m2 [107] = (None, [20 \<mapsto> demo_put 10 [1]], \<lambda>_. None)"
    "kview m4 [107] = (None, [20 \<mapsto> demo_put 10 [1], 40 \<mapsto> demo_put 30 [2]], \<lambda>_. None)"
proof -
  have new: "store_ok mem_store_new" "lock_at mem_store_new [107] = None" "unrecorded (write_at mem_store_new [107]) 10"
    by (simp_all add: unrecorded_def kview_simps kview_new)
  have b: "(10::nat) < 20" "(20::nat) \<le> u64_max" "[107::8 word] \<noteq> []" "length [107::8 word] \<le> u64_max" "(3000::nat) \<le> u64_max"
    "length [x::8 word] \<le> SHORT_VALUE_MAX_LEN" "(30::nat) < 40" "(40::nat) \<le> u64_max" for x
    by (simp_all add: u64_max_def SHORT_VALUE_MAX_LEN_def)
  obtain m1 m2 where one: "apply_txn mem_store_new (CmdPrewrite 10 [107] 3000 [TwPut [107] [1] None]) = Some (m1, RespPrewrite [TsOk])"
    "apply_txn m1 (CmdCommit 10 20 [[107]]) = Some (m2, RespCommit TsOk)" "store_ok m2"
    "kview m2 = (kview mem_store_new)([107] := (None, (write_at mem_store_new [107])(20 \<mapsto> demo_put 10 [1]), value_at mem_store_new [107]))"
    by (rule put_and_commit [OF new(1) b(1-6) new(2,3)]) (simp_all add: kview_simps kview_new)
  then have k2: "kview m2 [107] = (None, [20 \<mapsto> demo_put 10 [1]], \<lambda>_. None)"
    by (simp add: kview_simps kview_new)
  then have at2: "lock_at m2 [107] = None" "write_at m2 [107] = [20 \<mapsto> demo_put 10 [1]]" "value_at m2 [107] = (\<lambda>_. None)"
    by (simp_all add: kview_simps)
  have un: "unrecorded (write_at m2 [107]) 30" by (simp add: at2 unrecorded_def)
  obtain m3 m4 where two: "apply_txn m2 (CmdPrewrite 30 [107] 3000 [TwPut [107] [2] None]) = Some (m3, RespPrewrite [TsOk])"
    "apply_txn m3 (CmdCommit 30 40 [[107]]) = Some (m4, RespCommit TsOk)" "store_ok m4"
    "kview m4 = (kview m2)([107] := (None, (write_at m2 [107])(40 \<mapsto> demo_put 30 [2]), value_at m2 [107]))"
    by (rule put_and_commit [OF one(3) b(7,8,3-6) at2(1) un]) (auto simp: at2 split: if_splits)
  have "kv_run demo_line UNIV mem_store_new m1"
    by (rule kv_run.step [OF kv_run.refl demo_contract(1) subset_UNIV one(1)]) simp
  then have r2: "kv_reachable demo_line m2"
    by (rule kv_run.step [OF _ demo_contract(2) subset_UNIV one(2)])
  have "kv_run demo_line (commits_after demo_line 25) m2 m3"
    by (rule kv_run.step [OF kv_run.refl demo_contract(1) _ two(1)]) (simp_all add: commits_after_def demo_line_def)
  then have r4: "kv_run demo_line (commits_after demo_line 25) m2 m4"
    by (rule kv_run.step [OF _ demo_contract(3) _ two(2)]) simp
  show thesis by (rule that [OF r2 r4 one(3) two(3) k2]) (simp add: two(4) at2)
qed

section \<open>The properties\<close>

text \<open>C2. No update is lost. In every state a region reaches by commands that keep the clients' contract, of
  two committed versions of a key the later one was written by a transaction whose read timestamp on that
  key is at or after the earlier commit: it had seen the version it replaced.\<close>

theorem no_lost_update:
  assumes "timeline_ok R" "kv_reachable R m" "write_at m k c = Some w" "write_at m k c' = Some w'"
    "is_a_version (wr_kind w)" "is_a_version (wr_kind w')" "c < c'"
  shows "c \<le> tl_read R k (wr_start_ts w')"
proof -
  have "key_ok R k (lock_at m k, write_at m k, value_at m k)"
    using kv_reachable_inv [OF assms(2,1)] by (simp add: store_inv_def kview_def)
  then show ?thesis using key_okD(5) assms(3-7) by blast
qed

theorem no_lost_update_witness:
  "\<exists>m. kv_reachable demo_line m \<and> write_at m [107] 20 = Some (demo_put 10 [1]) \<and> write_at m [107] 40 = Some (demo_put 30 [2])
     \<and> 20 \<le> tl_read demo_line [107] 30"
proof -
  obtain m2 m4 where m: "kv_reachable demo_line m2" "kv_run demo_line (commits_after demo_line 25) m2 m4"
    "kview m4 [107] = (None, [20 \<mapsto> demo_put 10 [1], 40 \<mapsto> demo_put 30 [2]], \<lambda>_. None)"
    using demo_history by blast
  have r: "kv_reachable demo_line m4" by (rule kv_run_trans [OF kv_run_mono [OF m(2) subset_UNIV] m(1)])
  have w: "write_at m4 [107] 20 = Some (demo_put 10 [1])" "write_at m4 [107] 40 = Some (demo_put 30 [2])"
    by (simp_all add: kview_simps m(3))
  show ?thesis using r w no_lost_update [OF demo_line_ok r w] by auto
qed

text \<open>C3. A transaction has one fate on a key. In every reachable state the records a key holds for one start
  timestamp are one record: no transaction is both committed and rolled back there, or committed at two
  timestamps, whatever order prewrites, commits, rollbacks, resolutions and retries arrived in.\<close>

theorem one_fate:
  assumes "timeline_ok R" "kv_reachable R m" "write_at m k c = Some w" "write_at m k c' = Some w'"
    "wr_start_ts w = wr_start_ts w'"
  shows "c = c' \<and> w = w'"
proof -
  have "key_ok R k (lock_at m k, write_at m k, value_at m k)"
    using kv_reachable_inv [OF assms(2,1)] by (simp add: store_inv_def kview_def)
  then have "c = c'" using key_okD(3) assms(3-5) by blast
  with assms(3,4) show ?thesis by simp
qed

theorem one_fate_witness:
  "\<exists>m. kv_reachable demo_line m \<and> write_at m [107] 20 = Some (demo_put 10 [1])
     \<and> (\<forall>c w. write_at m [107] c = Some w \<and> wr_start_ts w = 10 \<longrightarrow> c = 20)"
proof -
  obtain m where m: "kv_reachable demo_line m" "kview m [107] = (None, [20 \<mapsto> demo_put 10 [1]], \<lambda>_. None)"
    using demo_history by blast
  have w: "write_at m [107] 20 = Some (demo_put 10 [1])" by (simp add: kview_simps m(2))
  have "c = 20" if "write_at m [107] c = Some w" "wr_start_ts w = 10" for c w
    using one_fate [OF demo_line_ok m(1) w that(1)] that(2) by simp
  with m(1) w show ?thesis by blast
qed

text \<open>C4. A snapshot does not move. Once a read of a key at a timestamp has answered, later commands leave the
  answer as it is, or answer that a lock must be resolved first, provided the transactions that lock keys
  after the read commit above its timestamp, which is what the timestamp oracle gives them.\<close>

theorem snapshot_reads_stable:
  assumes "timeline_ok R" "kv_reachable R m" "kv_run R (commits_after R ts) m m'" "ts \<le> u64_max"
    "read_at (snap_of m) k ts = Some (Ok out)" "\<And>l. out \<noteq> RdLocked l"
  shows "read_at (snap_of m') k ts = Some (Ok out) \<or> (\<exists>l. read_at (snap_of m') k ts = Some (Ok (RdLocked l)))"
  by (rule stable_read [OF assms])

lemma read_put:
  assumes m: "store_ok m" "ts \<le> u64_max" and l: "lock_at m k = None"
    and w: "write_at m k c = Some (demo_put s v)" "c \<le> ts" "\<And>c' w. write_at m k c' = Some w \<Longrightarrow> c' \<le> ts \<Longrightarrow> c' \<le> c"
  shows "read_at (snap_of m) k ts = Some (Ok (RdValue v))"
proof -
  let ?P = "\<lambda>c w. c \<le> ts \<and> is_a_version (wr_kind w)"
  have "newest_where (write_at m k) ?P (Some (version_new c (demo_put s v)))"
    using w by (auto simp: newest_where_def version_new_def)
  moreover obtain r where "newest_where (write_at m k) ?P r"
    "read_at (snap_of m) k ts = Some (case r of None \<Rightarrow> Ok RdNotFound | Some v \<Rightarrow> value_of (snap_of m) k (vn_record v))"
    using eng.read_at_newest [OF m, of k] l by (auto simp: blocking_lock_def)
  ultimately show ?thesis using newest_where_unique by (force simp: value_of_def version_new_def)
qed

theorem snapshot_reads_stable_witness:
  "\<exists>m m'. kv_reachable demo_line m \<and> kv_run demo_line (commits_after demo_line 25) m m'
     \<and> write_at m' [107] 40 = Some (demo_put 30 [2])
     \<and> read_at (snap_of m) [107] 25 = Some (Ok (RdValue [1]))
     \<and> (read_at (snap_of m') [107] 25 = Some (Ok (RdValue [1]))
        \<or> (\<exists>l. read_at (snap_of m') [107] 25 = Some (Ok (RdLocked l))))"
proof -
  have ts: "(25::nat) \<le> u64_max" by (simp add: u64_max_def)
  obtain m m' where m: "kv_reachable demo_line m" "kv_run demo_line (commits_after demo_line 25) m m'" "store_ok m"
    "kview m [107] = (None, [20 \<mapsto> demo_put 10 [1]], \<lambda>_. None)"
    "kview m' [107] = (None, [20 \<mapsto> demo_put 10 [1], 40 \<mapsto> demo_put 30 [2]], \<lambda>_. None)"
    using demo_history by blast
  have r: "read_at (snap_of m) [107] 25 = Some (Ok (RdValue [1]))"
    by (rule read_put [OF m(3) ts, where c = 20 and s = 10]) (auto simp: kview_simps m(4) split: if_splits)
  have w: "write_at m' [107] 40 = Some (demo_put 30 [2])" by (simp add: kview_simps m(5))
  show ?thesis using m(1,2) r w snapshot_reads_stable [OF demo_line_ok m(1,2) ts r] by auto
qed



text \<open>C16. No committed command stops a peer. In every reachable state every command that keeps the contract is
  applied and answered: the walk over the versions ends, and no read of the state fails.\<close>

theorem apply_never_stops:
  assumes "timeline_ok R" "kv_reachable R m" "command_contract R c"
  shows "\<exists>m' resp. apply_txn m c = Some (m', resp)"
  using kv_reachable_inv [OF assms(2,1)] apply_txn_total [OF _ assms(1,3)] unfolding store_inv_def by blast

theorem apply_never_stops_witness: "\<exists>m' resp. apply_txn mem_store_new (CmdCommit 10 20 [[107]]) = Some (m', resp)"
  by (rule apply_never_stops [OF demo_line_ok kv_run.refl demo_contract(2)])

text \<open>C15. Every command refines the machine of single keys. Whatever keys a command names, repeated ones
  included, its batch takes each key of the state through steps of the five-transition machine, and only
  a prewrite locks, for its own transaction.\<close>

theorem commands_refine_key_machine:
  assumes "timeline_ok R" "kv_reachable R m" "command_contract R c" "apply_txn m c = Some (m', resp)"
  shows "store_ok m' \<and> (\<forall>k. (key_step R (lockers c) k)\<^sup>*\<^sup>* (kview m k) (kview m' k))"
  by (rule apply_txn_refines [OF kv_reachable_inv [OF assms(2,1)] assms(1,3) order.refl assms(4)])

theorem commands_refine_key_machine_witness:
  "\<exists>m. (key_step demo_line {10} [107])\<^sup>*\<^sup>* (None, \<lambda>_. None, \<lambda>_. None) (kview m [107])
     \<and> apply_txn mem_store_new (CmdPrewrite 10 [107] 3000 [TwPut [107] [1] None]) = Some (m, RespPrewrite [TsOk])"
proof -
  have s: "(10::nat) < u64_max" by (simp add: u64_max_def)
  let ?c = "CmdPrewrite 10 [107] 3000 [TwPut [107] [1] None]"
  have new: "store_ok mem_store_new" "lock_at mem_store_new [107] = None" "unrecorded (write_at mem_store_new [107]) 10"
    by (simp_all add: unrecorded_def kview_simps kview_new)
  obtain m where m: "apply_txn mem_store_new ?c = Some (m, RespPrewrite [TsOk])"
    using prewrite_granted [OF new(1) s new(2,3)] by (auto simp: kview_simps kview_new)
  have c: "command_contract demo_line ?c" by (rule demo_contract(1)) simp
  have "(key_step demo_line (lockers ?c) [107])\<^sup>*\<^sup>* (kview mem_store_new [107]) (kview m [107])"
    using commands_refine_key_machine [OF demo_line_ok kv_run.refl c m] by blast
  with m show ?thesis by (auto simp: kview_new)
qed

end
