(* ===== verification/Region.thy ===== *)
theory Region
  imports WireCodec "HOL-Library.List_Lexorder"
begin

text \<open>
  Regions, epochs and peers (\<^verbatim>\<open>esker-proto/src/region.rs\<close>): the range tests every request passes through, and
  the wire format. A region's end key is exclusive and an empty one stands for the end of the key space,
  which is why none of the tests is a plain comparison; each is shown to decide the question about sets of
  keys it stands for.
\<close>

section \<open>Types\<close>

record epoch =
  ep_conf_ver :: u64
  ep_version :: u64

definition EPOCH_INITIAL :: epoch where
  "EPOCH_INITIAL = \<lparr>ep_conf_ver = 1, ep_version = 1\<rparr>"

definition is_stale_against :: "epoch \<Rightarrow> epoch \<Rightarrow> bool" where
  "is_stale_against e other \<longleftrightarrow> ep_conf_ver e < ep_conf_ver other \<or> ep_version e < ep_version other"

datatype peer_role = RoleVoter | RoleLearner | RoleColumnarLearner

fun role_as_u8 :: "peer_role \<Rightarrow> byte" where
  "role_as_u8 RoleVoter = 1"
| "role_as_u8 RoleLearner = 2"
| "role_as_u8 RoleColumnarLearner = 3"

definition role_from_u8 :: "byte \<Rightarrow> peer_role option" where
  "role_from_u8 b =
     (if b = 1 then Some RoleVoter else if b = 2 then Some RoleLearner
      else if b = 3 then Some RoleColumnarLearner else None)"

record region_peer =
  pe_store_id :: u64
  pe_peer_id :: u64
  pe_role :: peer_role

definition peer_voter :: "u64 \<Rightarrow> u64 \<Rightarrow> region_peer" where
  "peer_voter store_id peer_id = \<lparr>pe_store_id = store_id, pe_peer_id = peer_id, pe_role = RoleVoter\<rparr>"

definition peer_learner :: "u64 \<Rightarrow> u64 \<Rightarrow> region_peer" where
  "peer_learner store_id peer_id = \<lparr>pe_store_id = store_id, pe_peer_id = peer_id, pe_role = RoleLearner\<rparr>"

record region =
  rg_id :: u64
  rg_start_key :: bytes
  rg_end_key :: bytes
  rg_peers :: "region_peer list"
  rg_epoch :: epoch

definition region_bootstrap :: "u64 \<Rightarrow> u64 \<Rightarrow> u64 \<Rightarrow> region" where
  "region_bootstrap i store_id peer_id =
     \<lparr>rg_id = i, rg_start_key = [], rg_end_key = [], rg_peers = [peer_voter store_id peer_id], rg_epoch = EPOCH_INITIAL\<rparr>"

section \<open>Ranges\<close>

definition region_contains :: "region \<Rightarrow> bytes \<Rightarrow> bool" where
  "region_contains r key \<longleftrightarrow> key \<ge> rg_start_key r \<and> (rg_end_key r = [] \<or> key < rg_end_key r)"

definition contains_range :: "region \<Rightarrow> bytes \<Rightarrow> bytes \<Rightarrow> bool" where
  "contains_range r start end' =
     (if start < rg_start_key r then False
      else if rg_end_key r = [] then True
      else if end' = [] then False
      else end' \<le> rg_end_key r)"

definition region_overlaps :: "region \<Rightarrow> bytes \<Rightarrow> bytes \<Rightarrow> bool" where
  "region_overlaps r start end' =
     (if start = end' \<and> start \<noteq> [] then region_contains r start
      else let before = (rg_end_key r \<noteq> [] \<and> rg_end_key r \<le> start);
               after = (end' \<noteq> [] \<and> end' \<le> rg_start_key r)
           in \<not> (before \<or> after))"

section \<open>The wire format\<close>

definition epoch_encode :: "epoch \<Rightarrow> bytes" where
  "epoch_encode e = enc_varint (ep_conf_ver e) @ enc_varint (ep_version e)"

definition epoch_encoded_len :: "epoch \<Rightarrow> nat" where
  "epoch_encoded_len e = varint_len (ep_conf_ver e) + varint_len (ep_version e)"

definition epoch_decode :: "bytes \<Rightarrow> epoch decoded" where
  "epoch_decode rest =
     ok_then (dec_varint ''epoch.conf_ver'' rest) (\<lambda>(c, rest).
     ok_then (dec_varint ''epoch.version'' rest) (\<lambda>(v, rest).
     Ok (\<lparr>ep_conf_ver = c, ep_version = v\<rparr>, rest)))"

definition peer_encode :: "region_peer \<Rightarrow> bytes" where
  "peer_encode p = enc_varint (pe_store_id p) @ enc_varint (pe_peer_id p) @ enc_u8 (role_as_u8 (pe_role p))"

definition peer_decode :: "bytes \<Rightarrow> region_peer decoded" where
  "peer_decode rest =
     ok_then (dec_varint ''peer.store_id'' rest) (\<lambda>(s, rest).
     ok_then (dec_varint ''peer.peer_id'' rest) (\<lambda>(i, rest).
     ok_then (dec_u8 ''peer.role'' rest) (\<lambda>(b, rest).
       (case role_from_u8 b of
          None \<Rightarrow> Err (DeUnknownTag ''peer role'' (unat b))
        | Some role \<Rightarrow> Ok (\<lparr>pe_store_id = s, pe_peer_id = i, pe_role = role\<rparr>, rest)))))"

definition region_encode :: "region \<Rightarrow> bytes" where
  "region_encode r =
     enc_varint (rg_id r) @ enc_bytes (rg_start_key r) @ enc_bytes (rg_end_key r) @ epoch_encode (rg_epoch r)
       @ enc_varint (length (rg_peers r)) @ concat (map peer_encode (rg_peers r))"

definition region_decode :: "bytes \<Rightarrow> region decoded" where
  "region_decode rest =
     ok_then (dec_varint ''region.id'' rest) (\<lambda>(i, rest).
     ok_then (dec_bytes ''region.start_key'' rest) (\<lambda>(s, rest).
     ok_then (dec_bytes ''region.end_key'' rest) (\<lambda>(e, rest).
     ok_then (epoch_decode rest) (\<lambda>(ep, rest).
     ok_then (dec_count ''region.peers'' rest) (\<lambda>(n, rest).
     ok_then (dec_repeat peer_decode n rest) (\<lambda>(ps, rest).
       Ok (\<lparr>rg_id = i, rg_start_key = s, rg_end_key = e, rg_peers = ps, rg_epoch = ep\<rparr>, rest)))))))"

definition epoch_sized :: "epoch \<Rightarrow> bool" where
  "epoch_sized e \<longleftrightarrow> ep_conf_ver e \<le> u64_max \<and> ep_version e \<le> u64_max"

definition peer_sized :: "region_peer \<Rightarrow> bool" where
  "peer_sized p \<longleftrightarrow> pe_store_id p \<le> u64_max \<and> pe_peer_id p \<le> u64_max"

definition region_sized :: "region \<Rightarrow> bool" where
  "region_sized r \<longleftrightarrow> rg_id r \<le> u64_max \<and> length (rg_start_key r) \<le> u64_max \<and> length (rg_end_key r) \<le> u64_max
     \<and> epoch_sized (rg_epoch r) \<and> length (rg_peers r) \<le> u64_max \<and> (\<forall>p \<in> set (rg_peers r). peer_sized p)"

lemma role_from_u8_iff: "role_from_u8 b = Some role \<longleftrightarrow> b = role_as_u8 role"
  by (cases role) (auto simp: role_from_u8_def)

lemma enc_not_Nil [simp]: "enc_varint v \<noteq> []" "enc_u8 b \<noteq> []" "enc_bytes bs \<noteq> []"
  by (simp_all add: enc_varint_def enc_u8_def enc_bytes_def)

interpretation epoch_codec: exact_codec epoch_encode epoch_decode epoch_sized
proof
  show "epoch_decode bs = Ok (e, r) \<longleftrightarrow> epoch_sized e \<and> bs = epoch_encode e @ r" for bs e r
    by (cases e) (auto simp: epoch_decode_def epoch_encode_def epoch_sized_def ok_then_Ok dec_field_Ok)
qed (simp add: epoch_encode_def)

lemma role_from_as [simp]: "role_from_u8 (role_as_u8 role) = Some role"
  by (simp add: role_from_u8_iff)

interpretation peer_codec: exact_codec peer_encode peer_decode peer_sized
proof
  show "peer_decode bs = Ok (p, r) \<longleftrightarrow> peer_sized p \<and> bs = peer_encode p @ r" for bs p r
  proof
    assume "peer_decode bs = Ok (p, r)"
    then show "peer_sized p \<and> bs = peer_encode p @ r"
      by (auto simp: peer_decode_def peer_encode_def peer_sized_def ok_then_Ok dec_field_Ok role_from_u8_iff split: option.splits)
  qed (simp add: peer_decode_def peer_encode_def peer_sized_def)
qed (simp add: peer_encode_def)

interpretation region_codec: exact_codec region_encode region_decode region_sized
proof
  show "region_decode bs = Ok (v, r) \<longleftrightarrow> region_sized v \<and> bs = region_encode v @ r" for bs v r
  proof
    assume "region_decode bs = Ok (v, r)"
    then show "region_sized v \<and> bs = region_encode v @ r"
      by (auto simp: region_decode_def region_encode_def region_sized_def ok_then_Ok dec_field_Ok dec_count_Ok
          epoch_codec.exact peer_codec.repeat_exact)
  next
    assume v: "region_sized v \<and> bs = region_encode v @ r"
    let ?ps = "concat (map peer_encode (rg_peers v))"
    have "dec_count ''region.peers'' (enc_varint (length (rg_peers v)) @ ?ps @ r) = Ok (length (rg_peers v), ?ps @ r)"
      using v peer_codec.length_le_concat [of "rg_peers v"] by (auto simp: dec_count_Ok region_sized_def)
    moreover have "dec_repeat peer_decode (length (rg_peers v)) (?ps @ r) = Ok (rg_peers v, r)"
      using v by (auto simp: peer_codec.repeat_exact region_sized_def)
    ultimately show "region_decode bs = Ok (v, r)"
      using v by (simp add: region_decode_def region_encode_def region_sized_def epoch_codec.roundtrip)
  qed
qed (simp add: region_encode_def)

section \<open>What the range tests decide\<close>

definition key_in :: "bytes \<Rightarrow> bytes \<Rightarrow> bytes \<Rightarrow> bool" where
  "key_in start end' key \<longleftrightarrow> start \<le> key \<and> (end' = [] \<or> key < end')"

definition range_proper :: "bytes \<Rightarrow> bytes \<Rightarrow> bool" where
  "range_proper start end' \<longleftrightarrow> end' = [] \<or> start < end'"

lemma contains_key_in: "region_contains r key \<longleftrightarrow> key_in (rg_start_key r) (rg_end_key r) key"
  by (simp add: region_contains_def key_in_def)

lemma overlaps_iff:
  assumes "range_proper (rg_start_key r) (rg_end_key r)" "range_proper start end'"
  shows "region_overlaps r start end' \<longleftrightarrow> (\<exists>key. region_contains r key \<and> key_in start end' key)"
proof
  assume o: "region_overlaps r start end'"
  let ?k = "max start (rg_start_key r)"
  from o assms have "region_contains r ?k \<and> key_in start end' ?k"
    by (auto simp: region_overlaps_def region_contains_def key_in_def range_proper_def not_le Let_def split: if_splits)
  then show "\<exists>key. region_contains r key \<and> key_in start end' key" by blast
next
  assume "\<exists>key. region_contains r key \<and> key_in start end' key"
  then obtain key where k: "region_contains r key" "key_in start end' key" by blast
  have "start = end' \<Longrightarrow> start = []" using assms(2) by (auto simp: range_proper_def)
  moreover have "\<not> (rg_end_key r \<noteq> [] \<and> rg_end_key r \<le> start)" "\<not> (end' \<noteq> [] \<and> end' \<le> rg_start_key r)"
    using k by (auto simp: region_contains_def key_in_def)
  ultimately show "region_overlaps r start end'" by (auto simp: region_overlaps_def)
qed

lemma contains_range_iff:
  assumes "range_proper start end'"
  shows "contains_range r start end' \<longleftrightarrow> (\<forall>key. key_in start end' key \<longrightarrow> region_contains r key)"
proof
  assume "contains_range r start end'"
  then show "\<forall>key. key_in start end' key \<longrightarrow> region_contains r key"
    by (auto simp: contains_range_def key_in_def region_contains_def split: if_splits)
next
  assume all: "\<forall>key. key_in start end' key \<longrightarrow> region_contains r key"
  have "key_in start end' start" using assms by (auto simp: key_in_def range_proper_def)
  then have s: "rg_start_key r \<le> start" using all by (auto simp: region_contains_def)
  show "contains_range r start end'"
  proof (rule ccontr)
    assume "\<not> contains_range r start end'"
    with s have e: "rg_end_key r \<noteq> []" "end' = [] \<or> rg_end_key r < end'"
      by (auto simp: contains_range_def split: if_splits)
    let ?k = "max start (rg_end_key r)"
    have "key_in start end' ?k" using e(2) assms by (auto simp: key_in_def range_proper_def)
    then have "region_contains r ?k" using all by blast
    with e(1) show False by (simp add: region_contains_def)
  qed
qed

text \<open>C40. The range tests of a region decide questions about keys. For a proper range, contains_range holds
  exactly when every key of the range is in the region, overlaps exactly when some key is in both, and
  an empty request is the point at its start; the empty end key is the end of the key space throughout.\<close>

theorem region_ranges_exact:
  assumes "range_proper (rg_start_key r) (rg_end_key r)" "range_proper start end'"
  shows "(contains_range r start end' \<longleftrightarrow> (\<forall>key. key_in start end' key \<longrightarrow> region_contains r key))
    \<and> (region_overlaps r start end' \<longleftrightarrow> (\<exists>key. region_contains r key \<and> key_in start end' key))
    \<and> (start \<noteq> [] \<longrightarrow> region_overlaps r start start = region_contains r start)"
  using overlaps_iff [OF assms] contains_range_iff [OF assms(2)] by (auto simp: region_overlaps_def)

theorem region_ranges_exact_witness:
  "let r = \<lparr>rg_id = 2, rg_start_key = [98], rg_end_key = [], rg_peers = [], rg_epoch = EPOCH_INITIAL\<rparr>
   in region_overlaps r [97] [] \<and> (\<exists>key. region_contains r key \<and> key_in [97] [] key) \<and> \<not> contains_range r [97] []"
proof -
  let ?r = "\<lparr>rg_id = 2, rg_start_key = [98], rg_end_key = [], rg_peers = [], rg_epoch = EPOCH_INITIAL\<rparr> :: region"
  have "region_overlaps ?r [97] []" "\<not> contains_range ?r [97] []"
    by (simp_all add: region_overlaps_def contains_range_def)
  moreover have "region_overlaps ?r [97] [] \<longleftrightarrow> (\<exists>key. region_contains ?r key \<and> key_in [97] [] key)"
    using region_ranges_exact [of ?r "[97]" "[]"] by (simp add: range_proper_def)
  ultimately show ?thesis by (simp add: Let_def)
qed

end
