(* ===== verification/PdOracle.thy ===== *)
theory PdOracle
  imports WireCodec BTree
begin

text \<open>
  The counters of the placement driver: the timestamp oracle (\<^verbatim>\<open>esker-pd/src/tso.rs\<close>), the id allocator
  (\<^verbatim>\<open>esker-pd/src/alloc.rs\<close>) and the garbage-collection safepoint (\<^verbatim>\<open>esker-pd/src/safepoint.rs\<close>), with the
  timestamp layout of \<^verbatim>\<open>esker-pd/src/lib.rs\<close>. The callback that makes a reservation durable is a parameter
  that transforms a state of the caller's choosing and may fail. Oracle and allocator share one contract,
  the locale \<^verbatim>\<open>durable_counter\<close>: what they hand out lies between the value they were loaded from and a
  bound they have made durable first.
\<close>

unbundle bit_operations_syntax

section \<open>Errors\<close>

datatype pd_reason =
    TsoCountZero | TsoBatchTooLarge u64 | TimestampsExhausted | ClockPastEnd u64
  | IdCountZero | IdsExhausted
  | StoreIdZero | NotRegistered u64 | RegionIdZero | RangeInverted u64 | UnexpectedAnswer
  | ProposalFailed | StoppedLeading | DriverStopped

datatype pd_detail =
    PdField decode_error | PdVersion byte | PdOperatorKind byte | PdOutcome byte | PdPeerRole byte
  | PdCommandKind byte | PdClusterIdZero | PdHistoryLength nat

datatype pd_error =
    PdEngine string
  | PdCorrupt string pd_detail
  | PdNotBootstrapped
  | PdClusterMismatch u64 u64
  | PdNotLeader u64 bytes
  | PdInvalid pd_reason
  | PdInternal pd_reason

type_synonym 'a pd_result = "('a, pd_error) result"

section \<open>The layout of a timestamp\<close>

definition PD_LOGICAL_BITS :: nat where
  "PD_LOGICAL_BITS = 18"

definition TSO_MAX_LOGICAL :: u64 where
  "TSO_MAX_LOGICAL = 2 ^ PD_LOGICAL_BITS - 1"

definition TSO_SAVE_INTERVAL_MS :: u64 where
  "TSO_SAVE_INTERVAL_MS = 3000"

definition compose_ts :: "u64 \<Rightarrow> u64 \<Rightarrow> u64" where
  "compose_ts physical logical = take_bit 64 (push_bit PD_LOGICAL_BITS physical) OR (logical AND TSO_MAX_LOGICAL)"

definition decompose_ts :: "u64 \<Rightarrow> u64 \<times> u64" where
  "decompose_ts ts = (drop_bit PD_LOGICAL_BITS ts, ts AND TSO_MAX_LOGICAL)"

definition LOGICAL_SPACE :: u64 where
  "LOGICAL_SPACE = TSO_MAX_LOGICAL + 1"

definition MAX_PHYSICAL_MS :: u64 where
  "MAX_PHYSICAL_MS = 2 ^ (64 - PD_LOGICAL_BITS) - 1"

lemma layout_values:
  "PD_LOGICAL_BITS = 18" "TSO_MAX_LOGICAL = mask 18" "LOGICAL_SPACE = 2 ^ 18" "MAX_PHYSICAL_MS = 2 ^ 46 - 1"
  by (simp_all add: PD_LOGICAL_BITS_def TSO_MAX_LOGICAL_def LOGICAL_SPACE_def MAX_PHYSICAL_MS_def mask_eq_exp_minus_1)

lemma or_disjoint_add:
  fixes a b :: nat
  assumes "b < 2 ^ n"
  shows "push_bit n a OR b = a * 2 ^ n + b"
proof -
  have "take_bit n b = b" using assms by (simp add: take_bit_nat_eq_self)
  then have "push_bit n a AND b = 0"
    by (metis and.assoc and.commute and_zero_eq take_bit_eq_mask take_bit_push_bit diff_self_eq_0 push_bit_of_0 take_bit_0)
  then show ?thesis by (metis disjunctive_add_eq_or push_bit_nat_def)
qed

lemma compose_ts_eq:
  assumes "p \<le> MAX_PHYSICAL_MS"
  shows "compose_ts p l = p * 2 ^ 18 + l mod 2 ^ 18"
proof -
  have "push_bit 18 p < 2 ^ 64" using assms by (simp add: layout_values push_bit_nat_def)
  then have "take_bit 64 (push_bit 18 p) = push_bit 18 p" by (simp add: take_bit_nat_eq_self)
  moreover have "l AND mask 18 = l mod 2 ^ 18" by (metis take_bit_eq_mask take_bit_nat_def)
  ultimately show ?thesis using or_disjoint_add [of "l mod 2 ^ 18" 18 p] by (simp add: compose_ts_def layout_values)
qed

lemma decompose_compose:
  assumes "p \<le> MAX_PHYSICAL_MS"
  shows "decompose_ts (compose_ts p l) = (p, l mod 2 ^ 18)"
proof -
  have "ts AND mask 18 = ts mod 2 ^ 18" for ts :: nat by (metis take_bit_eq_mask take_bit_nat_def)
  then show ?thesis
    unfolding decompose_ts_def layout_values drop_bit_nat_def by (simp add: compose_ts_eq [OF assms])
qed

section \<open>The oracle\<close>

record tso_record =
  tr_high_water_ms :: u64

record tso_oracle =
  or_physical_ms :: u64
  or_logical :: u64
  or_high_water_ms :: u64
  or_save_interval_ms :: u64

definition oracle_load :: "tso_record option \<Rightarrow> u64 \<Rightarrow> u64 \<Rightarrow> tso_oracle" where
  "oracle_load rec now_ms save_interval_ms =
     (let high_water_ms = (case rec of None \<Rightarrow> 0 | Some r \<Rightarrow> tr_high_water_ms r)
      in \<lparr>or_physical_ms = max now_ms high_water_ms, or_logical = 0, or_high_water_ms = high_water_ms,
          or_save_interval_ms = max save_interval_ms 1\<rparr>)"

text \<open>\<^verbatim>\<open>allocate\<close> in the order of its steps: follow the clock up, roll into the next millisecond when this
  one is full, refuse a clock past the layout, cover the millisecond by a durable mark, hand out. A mark
  is made durable by \<open>persist\<close>, which acts on the caller's state.\<close>

definition oracle_follow :: "u64 \<Rightarrow> tso_oracle \<Rightarrow> tso_oracle" where
  "oracle_follow now_ms q = (if now_ms > or_physical_ms q then q\<lparr>or_physical_ms := now_ms, or_logical := 0\<rparr> else q)"

definition oracle_roll :: "u64 \<Rightarrow> tso_oracle \<Rightarrow> tso_oracle \<times> unit pd_result" where
  "oracle_roll count q =
     (if or_logical q + count > LOGICAL_SPACE
      then (case checked_add (or_physical_ms q) 1 of
              None \<Rightarrow> (q, Err (PdInternal TimestampsExhausted))
            | Some p \<Rightarrow> (q\<lparr>or_physical_ms := p, or_logical := 0\<rparr>, Ok ()))
      else (q, Ok ()))"

definition oracle_cover ::
  "('d \<Rightarrow> u64 \<Rightarrow> 'd \<times> unit pd_result) \<Rightarrow> 'd \<times> tso_oracle \<Rightarrow> ('d \<times> tso_oracle) \<times> unit pd_result" where
  "oracle_cover persist s =
     (let (d, q) = s in
      if or_physical_ms q \<ge> or_high_water_ms q
      then (case checked_add (or_physical_ms q) (or_save_interval_ms q) of
              None \<Rightarrow> ((d, q), Err (PdInternal TimestampsExhausted))
            | Some mark \<Rightarrow>
                (case persist d mark of
                   (d', Err e) \<Rightarrow> ((d', q), Err e)
                 | (d', Ok _) \<Rightarrow> ((d', q\<lparr>or_high_water_ms := mark\<rparr>), Ok ())))
      else ((d, q), Ok ()))"

definition oracle_allocate ::
  "('d \<Rightarrow> u64 \<Rightarrow> 'd \<times> unit pd_result) \<Rightarrow> 'd \<Rightarrow> tso_oracle \<Rightarrow> u64 \<Rightarrow> u64 \<Rightarrow> ('d \<times> tso_oracle) \<times> u64 pd_result" where
  "oracle_allocate persist d q count now_ms =
     (if count = 0 then ((d, q), Err (PdInvalid TsoCountZero))
      else if count > LOGICAL_SPACE then ((d, q), Err (PdInvalid (TsoBatchTooLarge count)))
      else
        (case oracle_roll count (oracle_follow now_ms q) of
           (q, Err e) \<Rightarrow> ((d, q), Err e)
         | (q, Ok _) \<Rightarrow>
             if or_physical_ms q > MAX_PHYSICAL_MS
             then ((d, q), Err (PdInternal (ClockPastEnd (or_physical_ms q))))
             else and_then (oracle_cover persist (d, q)) (\<lambda>(d, q) _.
               ((d, q\<lparr>or_logical := or_logical q + count\<rparr>), Ok (compose_ts (or_physical_ms q) (or_logical q))))))"

definition oracle_record :: "tso_oracle \<Rightarrow> tso_record" where
  "oracle_record q = \<lparr>tr_high_water_ms = or_high_water_ms q\<rparr>"

section \<open>The id allocator\<close>

record alloc_record =
  ar_allocated_end :: u64

record allocator =
  al_next :: u64
  al_allocated_end :: u64
  al_batch :: u64

definition ALLOC_BATCH :: u64 where
  "ALLOC_BATCH = 1000"

definition alloc_load :: "alloc_record option \<Rightarrow> u64 \<Rightarrow> allocator" where
  "alloc_load rec batch =
     (let allocated_end = (case rec of None \<Rightarrow> 0 | Some r \<Rightarrow> ar_allocated_end r)
      in \<lparr>al_next = u64_add allocated_end 1, al_allocated_end = allocated_end, al_batch = max batch 1\<rparr>)"

text \<open>\<^verbatim>\<open>u64::div_ceil\<close>.\<close>

definition div_ceil :: "u64 \<Rightarrow> u64 \<Rightarrow> u64" where
  "div_ceil a b = (if a mod b = 0 then a div b else a div b + 1)"

definition alloc_reserve ::
  "('d \<Rightarrow> u64 \<Rightarrow> 'd \<times> unit pd_result) \<Rightarrow> 'd \<times> allocator \<Rightarrow> u64 \<Rightarrow> ('d \<times> allocator) \<times> unit pd_result" where
  "alloc_reserve reserve s last_id =
     (let (d, a) = s in
      if last_id > al_allocated_end a
      then let batches = div_ceil (last_id - al_allocated_end a) (al_batch a);
               end' = sat_add (al_allocated_end a) (sat_mul batches (al_batch a))
           in (case reserve d end' of
                 (d', Err e) \<Rightarrow> ((d', a), Err e)
               | (d', Ok _) \<Rightarrow> ((d', a\<lparr>al_allocated_end := end'\<rparr>), Ok ()))
      else ((d, a), Ok ()))"

definition alloc_allocate ::
  "('d \<Rightarrow> u64 \<Rightarrow> 'd \<times> unit pd_result) \<Rightarrow> 'd \<Rightarrow> allocator \<Rightarrow> u64 \<Rightarrow> ('d \<times> allocator) \<times> u64 pd_result" where
  "alloc_allocate reserve d a count =
     (if count = 0 then ((d, a), Err (PdInvalid IdCountZero))
      else if al_next a = 0 then ((d, a), Err (PdInternal IdsExhausted))
      else (case checked_add (al_next a) (count - 1) of
              None \<Rightarrow> ((d, a), Err (PdInternal IdsExhausted))
            | Some last_id \<Rightarrow>
                and_then (alloc_reserve reserve (d, a) last_id) (\<lambda>(d, a) _.
                  ((d, a\<lparr>al_next := u64_add last_id 1\<rparr>), Ok (al_next a)))))"

definition alloc_record_of :: "allocator \<Rightarrow> alloc_record" where
  "alloc_record_of a = \<lparr>ar_allocated_end = al_allocated_end a\<rparr>"

section \<open>The garbage-collection safepoint\<close>

record reporter =
  rp_oldest :: "u64 option"
  rp_heard :: u64

record safepoints =
  sp_retention_ms :: u64
  sp_ttl_ms :: u64
  sp_reporters :: "(u64, reporter) btree"
  sp_published :: u64

text \<open>\<^verbatim>\<open>u64::checked_shl\<close>: it refuses a shift by the width or more, and nothing else.\<close>

definition checked_shl :: "u64 \<Rightarrow> nat \<Rightarrow> u64 option" where
  "checked_shl a n = (if n < 64 then Some (take_bit 64 (push_bit n a)) else None)"

definition as_ts :: "u64 \<Rightarrow> u64" where
  "as_ts ms = (case checked_shl ms PD_LOGICAL_BITS of None \<Rightarrow> u64_max | Some t \<Rightarrow> t)"

definition safepoints_new :: "u64 \<Rightarrow> u64 \<Rightarrow> safepoints" where
  "safepoints_new retention_ms ttl_ms =
     \<lparr>sp_retention_ms = retention_ms, sp_ttl_ms = ttl_ms, sp_reporters = [], sp_published = 0\<rparr>"

definition sp_report :: "u64 \<Rightarrow> u64 option \<Rightarrow> u64 \<Rightarrow> safepoints \<Rightarrow> safepoints" where
  "sp_report i oldest now s =
     s\<lparr>sp_reporters := bt_insert i \<lparr>rp_oldest = oldest, rp_heard = now\<rparr> (sp_reporters s)\<rparr>"

definition sp_forget :: "u64 \<Rightarrow> safepoints \<Rightarrow> safepoints" where
  "sp_forget i s = s\<lparr>sp_reporters := bt_remove i (sp_reporters s)\<rparr>"

definition rp_pins :: "reporter \<Rightarrow> u64" where
  "rp_pins r = (case rp_oldest r of None \<Rightarrow> rp_heard r | Some t \<Rightarrow> t)"

definition sp_safepoint :: "u64 \<Rightarrow> safepoints \<Rightarrow> safepoints \<times> u64" where
  "sp_safepoint now s =
     (let ttl = as_ts (sp_ttl_ms s);
          live = filter (\<lambda>(_, r). now - rp_heard r \<le> ttl) (sp_reporters s);
          s = s\<lparr>sp_reporters := live\<rparr>
      in if live = [] then (s, sp_published s)
         else let window = now - as_ts (sp_retention_ms s);
                  oldest = Min (set (map (rp_pins \<circ> snd) live));
                  computed = min window oldest;
                  published = max (sp_published s) computed
              in (s\<lparr>sp_published := published\<rparr>, published))"

section \<open>The contract of a durable counter\<close>

text \<open>
  A counter hands out runs of numbers. Its \<open>floor\<close> is the first number it may still hand out, its \<open>cap\<close>
  the first one it may not hand out without making a larger value durable, and a durable value \<open>v\<close> covers
  the numbers below \<open>covers v\<close>. A counter loaded from a durable value starts at what that value covers.
\<close>

locale durable_counter =
  fixes load :: "u64 \<Rightarrow> 'e \<Rightarrow> 'c"
    and alloc :: "('d \<Rightarrow> u64 \<Rightarrow> 'd \<times> unit pd_result) \<Rightarrow> 'd \<Rightarrow> 'c \<Rightarrow> 'q \<Rightarrow> ('d \<times> 'c) \<times> u64 pd_result"
    and run :: "'q \<Rightarrow> nat"
    and floor_of cap :: "'c \<Rightarrow> nat"
    and covers :: "u64 \<Rightarrow> nat"
    and ok :: "'c \<Rightarrow> bool"
  assumes covers_mono: "v \<le> w \<Longrightarrow> covers v \<le> covers w"
    and load_ok: "v \<le> u64_max \<Longrightarrow> ok (load v e)"
    and load_floor: "v \<le> u64_max \<Longrightarrow> covers v \<le> floor_of (load v e)"
    and load_cap: "v \<le> u64_max \<Longrightarrow> cap (load v e) \<le> floor_of (load v e)"
    and alloc_ok: "ok c \<Longrightarrow> alloc persist d c q = ((d', c'), r) \<Longrightarrow> ok c'"
    and alloc_floor: "ok c \<Longrightarrow> alloc persist d c q = ((d', c'), r) \<Longrightarrow> floor_of c \<le> floor_of c'"
    and alloc_run: "ok c \<Longrightarrow> alloc persist d c q = ((d', c'), Ok s) \<Longrightarrow>
      0 < run q \<and> floor_of c \<le> s \<and> s + run q \<le> floor_of c' \<and> s + run q \<le> cap c'"
    and alloc_cap: "ok c \<Longrightarrow> alloc persist d c q = ((d', c'), r) \<Longrightarrow>
      (d' = d \<and> cap c' = cap c)
      \<or> (\<exists>v \<le> u64_max. persist d v = (d', Ok ()) \<and> cap c' = covers v)
      \<or> (\<exists>v \<le> u64_max. \<exists>e. persist d v = (d', Err e) \<and> cap c' = cap c \<and> r = Err e)"

subsection \<open>The oracle\<close>

definition oracle_floor :: "tso_oracle \<Rightarrow> nat" where
  "oracle_floor q = or_physical_ms q * 2 ^ 18 + or_logical q"

definition oracle_cap :: "tso_oracle \<Rightarrow> nat" where
  "oracle_cap q = or_high_water_ms q * 2 ^ 18"

definition oracle_ok :: "tso_oracle \<Rightarrow> bool" where
  "oracle_ok q \<longleftrightarrow> or_logical q \<le> LOGICAL_SPACE \<and> 0 < or_save_interval_ms q"

text \<open>A member that takes office loads the oracle from the mark it has applied.\<close>

definition oracle_office :: "u64 \<Rightarrow> u64 \<times> u64 \<Rightarrow> tso_oracle" where
  "oracle_office high_water_ms e =
     oracle_load (if high_water_ms > 0 then Some \<lparr>tr_high_water_ms = high_water_ms\<rparr> else None) (fst e) (snd e)"

abbreviation oracle_serve ::
  "('d \<Rightarrow> u64 \<Rightarrow> 'd \<times> unit pd_result) \<Rightarrow> 'd \<Rightarrow> tso_oracle \<Rightarrow> u64 \<times> u64 \<Rightarrow> ('d \<times> tso_oracle) \<times> u64 pd_result" where
  "oracle_serve persist d q r \<equiv> oracle_allocate persist d q (fst r) (snd r)"

lemma oracle_follow_floor: "oracle_ok q \<Longrightarrow> oracle_ok (oracle_follow now q) \<and> oracle_floor q \<le> oracle_floor (oracle_follow now q)
    \<and> or_high_water_ms (oracle_follow now q) = or_high_water_ms q
    \<and> or_save_interval_ms (oracle_follow now q) = or_save_interval_ms q"
  by (auto simp: oracle_ok_def oracle_floor_def oracle_follow_def layout_values)

lemma oracle_roll_floor:
  assumes "oracle_ok q" "oracle_roll n q = (q', r)"
  shows "oracle_ok q' \<and> oracle_floor q \<le> oracle_floor q' \<and> or_high_water_ms q' = or_high_water_ms q
    \<and> or_save_interval_ms q' = or_save_interval_ms q \<and> (r = Ok () \<longrightarrow> n \<le> LOGICAL_SPACE \<longrightarrow> or_logical q' + n \<le> LOGICAL_SPACE)"
proof (cases "or_logical q + n > LOGICAL_SPACE \<and> or_physical_ms q + 1 \<le> u64_max")
  case True
  with assms(2) have "q' = q\<lparr>or_physical_ms := or_physical_ms q + 1, or_logical := 0\<rparr>" "r = Ok ()"
    by (simp_all add: oracle_roll_def checked_add_def)
  moreover have "or_logical q \<le> 2 ^ 18" using assms(1) unfolding oracle_ok_def layout_values(3) by blast
  ultimately show ?thesis using assms(1) by (simp add: oracle_ok_def oracle_floor_def)
next
  case False
  with assms(2) have "q' = q" "r = Ok () \<longrightarrow> \<not> or_logical q + n > LOGICAL_SPACE"
    by (auto simp: oracle_roll_def checked_add_def split: if_splits)
  with assms(1) show ?thesis by (simp add: not_less)
qed

lemma oracle_cover_cases:
  assumes "oracle_ok q" "oracle_cover persist (d, q) = ((d', q'), r)"
  obtains (covered) "d' = d" "q' = q" "r = Ok ()" "or_physical_ms q < or_high_water_ms q"
  | (full) e where "d' = d" "q' = q" "r = Err e"
  | (marked) mark where "mark \<le> u64_max" "persist d mark = (d', Ok ())" "q' = q\<lparr>or_high_water_ms := mark\<rparr>" "r = Ok ()"
      "or_physical_ms q < mark"
  | (failed) mark e where "mark \<le> u64_max" "persist d mark = (d', Err e)" "q' = q" "r = Err e"
proof -
  let ?m = "or_physical_ms q + or_save_interval_ms q"
  obtain d2 r2 where p: "persist d ?m = (d2, r2)" by (cases "persist d ?m")
  have pos: "0 < or_save_interval_ms q" using assms(1) by (simp add: oracle_ok_def)
  consider "or_physical_ms q < or_high_water_ms q" | "\<not> or_physical_ms q < or_high_water_ms q" "u64_max < ?m"
    | "\<not> or_physical_ms q < or_high_water_ms q" "?m \<le> u64_max" by linarith
  then show thesis
  proof cases
    case 1
    with assms(2) show thesis by (intro covered) (auto simp: oracle_cover_def)
  next
    case 2
    with assms(2) show thesis by (intro full) (auto simp: oracle_cover_def checked_add_def)
  next
    case 3
    show thesis
    proof (cases r2)
      case (Ok u)
      with 3 p assms(2) have "d' = d2" "q' = q\<lparr>or_high_water_ms := ?m\<rparr>" "r = Ok ()"
        by (auto simp: oracle_cover_def checked_add_def)
      with 3 p Ok pos show thesis by (intro marked [of ?m]) simp_all
    next
      case (Err e)
      with 3 p assms(2) have "d' = d2" "q' = q" "r = Err e"
        by (auto simp: oracle_cover_def checked_add_def)
      with 3 p Err show thesis by (intro failed [of ?m]) simp_all
    qed
  qed
qed

lemma oracle_allocate_cases:
  assumes "oracle_ok q" "oracle_allocate persist d q n now = ((d', q'), r)"
  obtains (refused) e where "d' = d" "r = Err e" "oracle_ok q'" "oracle_floor q \<le> oracle_floor q'" "or_high_water_ms q' = or_high_water_ms q"
  | (served) q1 q2 where "oracle_ok q1" "oracle_floor q \<le> oracle_floor q1" "or_high_water_ms q1 = or_high_water_ms q"
      "0 < n" "or_logical q1 + n \<le> LOGICAL_SPACE" "or_physical_ms q1 \<le> MAX_PHYSICAL_MS"
      "oracle_cover persist (d, q1) = ((d', q2), Ok ())" "q' = q2\<lparr>or_logical := or_logical q2 + n\<rparr>"
      "r = Ok (compose_ts (or_physical_ms q2) (or_logical q2))"
  | (failed) q1 e where "oracle_ok q1" "oracle_floor q \<le> oracle_floor q1" "or_high_water_ms q1 = or_high_water_ms q"
      "oracle_cover persist (d, q1) = ((d', q'), Err e)" "r = Err e"
proof -
  obtain q1 rr where roll: "oracle_roll n (oracle_follow now q) = (q1, rr)" by (cases "oracle_roll n (oracle_follow now q)")
  note f = oracle_follow_floor [OF assms(1), of now]
  note g = oracle_roll_floor [OF conjunct1 [OF f] roll]
  have q1: "oracle_ok q1" "oracle_floor q \<le> oracle_floor q1" "or_high_water_ms q1 = or_high_water_ms q" using f g by auto
  obtain d2 q2 r2 where cov: "oracle_cover persist (d, q1) = ((d2, q2), r2)" by (metis surj_pair)
  have rr: "rr = Ok () \<or> (\<exists>e. rr = Err e)" by (cases rr) auto
  consider "n = 0 \<or> LOGICAL_SPACE < n" | e where "\<not> (n = 0 \<or> LOGICAL_SPACE < n)" "rr = Err e"
    | "\<not> (n = 0 \<or> LOGICAL_SPACE < n)" "rr = Ok ()" "MAX_PHYSICAL_MS < or_physical_ms q1"
    | "\<not> (n = 0 \<or> LOGICAL_SPACE < n)" "rr = Ok ()" "\<not> MAX_PHYSICAL_MS < or_physical_ms q1"
    using rr by blast
  then show thesis
  proof cases
    case 1
    then have "\<exists>e. oracle_allocate persist d q n now = ((d, q), Err e)" by (auto simp: oracle_allocate_def)
    with assms show thesis using refused by auto
  next
    case 2
    with roll have "oracle_allocate persist d q n now = ((d, q1), Err e)" by (simp add: oracle_allocate_def)
    with assms(2) q1 show thesis using refused by auto
  next
    case 3
    with roll have "\<exists>e. oracle_allocate persist d q n now = ((d, q1), Err e)" by (simp add: oracle_allocate_def)
    with assms(2) q1 show thesis using refused by auto
  next
    case 4
    with roll have eq: "oracle_allocate persist d q n now = and_then ((d2, q2), r2) (\<lambda>(d, q) _.
         ((d, q\<lparr>or_logical := or_logical q + n\<rparr>), Ok (compose_ts (or_physical_ms q) (or_logical q))))"
      by (simp add: oracle_allocate_def cov)
    show thesis
    proof (cases r2)
      case (Ok u)
      with eq assms(2) have "d' = d2" "q' = q2\<lparr>or_logical := or_logical q2 + n\<rparr>" "r = Ok (compose_ts (or_physical_ms q2) (or_logical q2))"
        by auto
      moreover have "or_logical q1 + n \<le> LOGICAL_SPACE" using g 4(1,2) by simp
      ultimately show thesis using served [OF q1] 4 cov Ok by simp
    next
      case (Err e)
      with eq assms(2) have "d' = d2" "q' = q2" "r = Err e" by auto
      with cov Err show thesis using failed [OF q1] by simp
    qed
  qed
qed

lemma oracle_cover_Ok:
  assumes "oracle_ok q" "oracle_cover persist (d, q) = ((d', q'), Ok u)"
  shows "or_physical_ms q' = or_physical_ms q \<and> or_logical q' = or_logical q \<and> or_save_interval_ms q' = or_save_interval_ms q
    \<and> or_physical_ms q < or_high_water_ms q'"
  by (cases rule: oracle_cover_cases [OF assms]) simp_all

lemma oracle_serve_ok:
  assumes "oracle_ok q" "oracle_allocate persist d q n now = ((d', q'), r)"
  shows "oracle_ok q' \<and> oracle_floor q \<le> oracle_floor q'"
  using assms
proof (cases rule: oracle_allocate_cases)
  case (served q1 q2)
  with oracle_cover_Ok [OF served(1,7)] show ?thesis by (simp add: oracle_ok_def oracle_floor_def)
next
  case (failed q1 e)
  have "q' = q1" by (cases rule: oracle_cover_cases [OF failed(1,4)]) simp_all
  with failed show ?thesis by simp
qed simp

lemma oracle_serve_run:
  assumes "oracle_ok q" "oracle_allocate persist d q n now = ((d', q'), Ok s)"
  shows "0 < n \<and> oracle_floor q \<le> s \<and> s + n \<le> oracle_floor q' \<and> s + n \<le> oracle_cap q'"
  using assms
proof (cases rule: oracle_allocate_cases)
  case (served q1 q2)
  have q2: "or_physical_ms q2 = or_physical_ms q1" "or_logical q2 = or_logical q1"
    "or_physical_ms q1 < or_high_water_ms q2"
    using oracle_cover_Ok [OF served(1,7)] by simp_all
  have l: "or_logical q1 + n \<le> 2 ^ 18" using served(5) by (simp add: layout_values)
  then have "or_logical q1 < 2 ^ 18" using served(4) by linarith
  then have s: "s = or_physical_ms q1 * 2 ^ 18 + or_logical q1"
    using served(6,9) q2 by (simp add: compose_ts_eq)
  have "(or_physical_ms q1 + 1) * 2 ^ 18 \<le> or_high_water_ms q2 * 2 ^ 18" using q2(3) by simp
  with s l served(2,4,8) q2 show ?thesis by (simp add: oracle_floor_def oracle_cap_def)
qed simp_all

lemma oracle_serve_cap:
  assumes "oracle_ok q" "oracle_allocate persist d q n now = ((d', q'), r)"
  shows "(d' = d \<and> oracle_cap q' = oracle_cap q)
    \<or> (\<exists>v \<le> u64_max. persist d v = (d', Ok ()) \<and> oracle_cap q' = v * 2 ^ 18)
    \<or> (\<exists>v \<le> u64_max. \<exists>e. persist d v = (d', Err e) \<and> oracle_cap q' = oracle_cap q \<and> r = Err e)"
  using assms
proof (cases rule: oracle_allocate_cases)
  case (served q1 q2)
  from served(7) show ?thesis
    by (cases rule: oracle_cover_cases [OF served(1)]) (use served(3,8) in \<open>auto simp: oracle_cap_def\<close>)
next
  case (failed q1 e)
  from failed(4) show ?thesis
    by (cases rule: oracle_cover_cases [OF failed(1)]) (use failed(3,5) in \<open>auto simp: oracle_cap_def\<close>)
qed (simp add: oracle_cap_def)

interpretation oracle_counter: durable_counter oracle_office oracle_serve fst oracle_floor oracle_cap "\<lambda>v. v * 2 ^ 18" oracle_ok
proof
  show "oracle_ok (oracle_office v e)" "v * 2 ^ 18 \<le> oracle_floor (oracle_office v e)"
    "oracle_cap (oracle_office v e) \<le> oracle_floor (oracle_office v e)" for v e
    by (auto simp: oracle_ok_def oracle_office_def oracle_load_def oracle_floor_def oracle_cap_def layout_values)
  fix q :: tso_oracle and persist :: "'d \<Rightarrow> u64 \<Rightarrow> 'd \<times> unit pd_result" and d d' :: 'd and q' r e n
  assume q: "oracle_ok q" and a: "oracle_allocate persist d q (fst n) (snd n) = ((d', q'), r)"
  show "oracle_ok q'" "oracle_floor q \<le> oracle_floor q'" using oracle_serve_ok [OF q a] by simp_all
  show "(d' = d \<and> oracle_cap q' = oracle_cap q)
      \<or> (\<exists>v \<le> u64_max. persist d v = (d', Ok ()) \<and> oracle_cap q' = v * 2 ^ 18)
      \<or> (\<exists>v \<le> u64_max. \<exists>e. persist d v = (d', Err e) \<and> oracle_cap q' = oracle_cap q \<and> r = Err e)"
    by (rule oracle_serve_cap [OF q a])
next
  fix q :: tso_oracle and persist :: "'d \<Rightarrow> u64 \<Rightarrow> 'd \<times> unit pd_result" and d d' :: 'd and q' s n
  assume q: "oracle_ok q" and a: "oracle_allocate persist d q (fst n) (snd n) = ((d', q'), Ok s)"
  show "0 < fst n \<and> oracle_floor q \<le> s \<and> s + fst n \<le> oracle_floor q' \<and> s + fst n \<le> oracle_cap q'"
    by (rule oracle_serve_run [OF q a])
qed simp

subsection \<open>The allocator\<close>

definition alloc_floor :: "allocator \<Rightarrow> nat" where
  "alloc_floor a = (if al_next a = 0 then u64_max + 1 else al_next a)"

definition alloc_cap :: "allocator \<Rightarrow> nat" where
  "alloc_cap a = al_allocated_end a + 1"

definition alloc_ok :: "allocator \<Rightarrow> bool" where
  "alloc_ok a \<longleftrightarrow> al_next a \<le> u64_max \<and> al_allocated_end a \<le> u64_max \<and> 0 < al_batch a"

definition alloc_office :: "u64 \<Rightarrow> u64 \<Rightarrow> allocator" where
  "alloc_office allocated_end batch =
     alloc_load (if allocated_end > 0 then Some \<lparr>ar_allocated_end = allocated_end\<rparr> else None) batch"

lemma div_ceil_covers:
  assumes "0 < b"
  shows "a \<le> div_ceil a b * b"
proof (cases "a mod b = 0")
  case True
  then have "a div b * b = a" by (metis add.right_neutral div_mult_mod_eq)
  with True show ?thesis by (simp add: div_ceil_def)
next
  case False
  have "a div b * b + a mod b = a" by simp
  moreover have "a mod b \<le> b" using assms by (simp add: less_imp_le)
  moreover have "div_ceil a b * b = a div b * b + b" using False by (simp add: div_ceil_def)
  ultimately show ?thesis by linarith
qed

lemma alloc_reserve_cases:
  assumes "alloc_ok a" "l \<le> u64_max" "alloc_reserve reserve (d, a) l = ((d', a'), r)"
  obtains (held) "d' = d" "a' = a" "r = Ok ()" "l \<le> al_allocated_end a"
  | (reserved) v where "v \<le> u64_max" "l \<le> v" "reserve d v = (d', Ok ())" "a' = a\<lparr>al_allocated_end := v\<rparr>" "r = Ok ()"
  | (failed) v e where "v \<le> u64_max" "reserve d v = (d', Err e)" "a' = a" "r = Err e"
proof -
  let ?v = "sat_add (al_allocated_end a) (sat_mul (div_ceil (l - al_allocated_end a) (al_batch a)) (al_batch a))"
  obtain d2 r2 where p: "reserve d ?v = (d2, r2)" by (cases "reserve d ?v")
  have "l - al_allocated_end a \<le> div_ceil (l - al_allocated_end a) (al_batch a) * al_batch a"
    by (rule div_ceil_covers) (use assms(1) in \<open>simp add: alloc_ok_def\<close>)
  then have v: "?v \<le> u64_max" "l \<le> ?v" using assms(2) by (auto simp: sat_add_def sat_mul_def)
  show thesis
  proof (cases "l \<le> al_allocated_end a")
    case True
    with assms(3) show thesis by (intro held) (auto simp: alloc_reserve_def)
  next
    case False
    show thesis
    proof (cases r2)
      case (Ok u)
      with False p assms(3) have "d' = d2" "a' = a\<lparr>al_allocated_end := ?v\<rparr>" "r = Ok ()"
        by (auto simp: alloc_reserve_def Let_def)
      with v p Ok show thesis by (intro reserved [of ?v]) simp_all
    next
      case (Err e)
      with False p assms(3) have "d' = d2" "a' = a" "r = Err e" by (auto simp: alloc_reserve_def Let_def)
      with v p Err show thesis by (intro failed [of ?v]) simp_all
    qed
  qed
qed

lemma alloc_allocate_cases:
  assumes "alloc_ok a" "alloc_allocate reserve d a n = ((d', a'), r)"
  obtains (refused) e where "d' = d" "a' = a" "r = Err e"
  | (served) l a1 where "0 < n" "al_next a \<noteq> 0" "l = al_next a + (n - 1)" "l \<le> u64_max"
      "alloc_reserve reserve (d, a) l = ((d', a1), Ok ())" "a' = a1\<lparr>al_next := u64_add l 1\<rparr>" "r = Ok (al_next a1)"
  | (failed) l e where "l \<le> u64_max" "alloc_reserve reserve (d, a) l = ((d', a'), Err e)" "r = Err e"
proof -
  define l where "l = al_next a + (n - 1)"
  obtain d2 a2 r2 where c: "alloc_reserve reserve (d, a) l = ((d2, a2), r2)"
    by (cases "alloc_reserve reserve (d, a) l", cases "fst (alloc_reserve reserve (d, a) l)") auto
  have ca: "checked_add (al_next a) (n - 1) = (if l \<le> u64_max then Some l else None)"
    unfolding checked_add_def l_def ..
  show thesis
  proof (cases "n = 0 \<or> al_next a = 0 \<or> u64_max < l")
    case True
    then have "\<exists>e. alloc_allocate reserve d a n = ((d, a), Err e)" unfolding alloc_allocate_def ca by auto
    with assms(2) show thesis using refused by auto
  next
    case False
    then have eq: "alloc_allocate reserve d a n = and_then ((d2, a2), r2) (\<lambda>(d, a) _.
        ((d, a\<lparr>al_next := u64_add l 1\<rparr>), Ok (al_next a)))"
      unfolding alloc_allocate_def ca by (simp add: c)
    show thesis
    proof (cases r2)
      case (Ok u)
      with eq assms(2) have "d' = d2" "a' = a2\<lparr>al_next := u64_add l 1\<rparr>" "r = Ok (al_next a2)" by auto
      with served [OF _ _ l_def, of a2] False c Ok show thesis by simp
    next
      case (Err e)
      have "((d', a'), r) = ((d2, a2), Err e)" using eq assms(2) Err by simp
      with failed [of l e] False c Err show thesis by simp
    qed
  qed
qed

lemma alloc_reserve_Ok:
  assumes "alloc_ok a" "l \<le> u64_max" "alloc_reserve reserve (d, a) l = ((d', a'), Ok u)"
  shows "al_next a' = al_next a \<and> alloc_ok a' \<and> l \<le> al_allocated_end a'"
  by (cases rule: alloc_reserve_cases [OF assms]) (use assms(1) in \<open>simp_all add: alloc_ok_def\<close>)

lemma floor_after: "l \<le> u64_max \<Longrightarrow> al_next a = u64_add l 1 \<Longrightarrow> alloc_floor a = l + 1"
  by (cases "l = u64_max") (simp_all add: u64_add_def alloc_floor_def)

lemma alloc_serve_ok:
  assumes "alloc_ok a" "alloc_allocate reserve d a n = ((d', a'), r)"
  shows "alloc_ok a' \<and> alloc_floor a \<le> alloc_floor a'"
  using assms
proof (cases rule: alloc_allocate_cases)
  case (served l a1)
  have "alloc_floor a' = l + 1" by (rule floor_after [OF served(4)]) (simp add: served(6))
  with served alloc_reserve_Ok [OF assms(1) served(4,5)] show ?thesis
    by (simp add: alloc_floor_def alloc_ok_def u64_add_le_max)
next
  case (failed l e)
  have "a' = a" by (cases rule: alloc_reserve_cases [OF assms(1) failed(1,2)]) simp_all
  with assms(1) show ?thesis by simp
qed (use assms(1) in simp)

lemma alloc_serve_run:
  assumes "alloc_ok a" "alloc_allocate reserve d a n = ((d', a'), Ok s)"
  shows "0 < n \<and> alloc_floor a \<le> s \<and> s + n \<le> alloc_floor a' \<and> s + n \<le> alloc_cap a'"
  using assms
proof (cases rule: alloc_allocate_cases)
  case (served l a1)
  have "alloc_floor a' = l + 1" by (rule floor_after [OF served(4)]) (simp add: served(6))
  moreover have "al_next a1 = al_next a" "l \<le> al_allocated_end a1" using alloc_reserve_Ok [OF assms(1) served(4,5)] by simp_all
  moreover have "s + n = l + 1" "alloc_floor a = s" using served(1-3,7) calculation(2) by (simp_all add: alloc_floor_def)
  ultimately show ?thesis using served(1,6) by (simp add: alloc_cap_def)
qed simp_all

lemma alloc_serve_cap:
  assumes "alloc_ok a" "alloc_allocate reserve d a n = ((d', a'), r)"
  shows "(d' = d \<and> alloc_cap a' = alloc_cap a)
    \<or> (\<exists>v \<le> u64_max. reserve d v = (d', Ok ()) \<and> alloc_cap a' = v + 1)
    \<or> (\<exists>v \<le> u64_max. \<exists>e. reserve d v = (d', Err e) \<and> alloc_cap a' = alloc_cap a \<and> r = Err e)"
  using assms
proof (cases rule: alloc_allocate_cases)
  case (served l a1)
  show ?thesis
    by (cases rule: alloc_reserve_cases [OF assms(1) served(4,5)]) (use served(6) in \<open>auto simp: alloc_cap_def\<close>)
next
  case (failed l e)
  show ?thesis
    by (cases rule: alloc_reserve_cases [OF assms(1) failed(1,2)]) (use failed(3) in \<open>auto simp: alloc_cap_def\<close>)
qed simp

interpretation alloc_counter: durable_counter alloc_office alloc_allocate "\<lambda>n. n" alloc_floor alloc_cap "\<lambda>v. v + 1" alloc_ok
proof
  fix v batch :: u64
  assume v: "v \<le> u64_max"
  have a: "alloc_office v batch = \<lparr>al_next = u64_add v 1, al_allocated_end = v, al_batch = max batch 1\<rparr>"
    by (simp add: alloc_office_def alloc_load_def)
  have "alloc_floor (alloc_office v batch) = v + 1"
    by (rule floor_after [OF v]) (simp add: a)
  then show "v + 1 \<le> alloc_floor (alloc_office v batch)" "alloc_cap (alloc_office v batch) \<le> alloc_floor (alloc_office v batch)"
    by (simp_all add: alloc_cap_def a)
  show "alloc_ok (alloc_office v batch)" using v by (simp add: a alloc_ok_def u64_add_le_max)
next
  fix a :: allocator and reserve :: "'d \<Rightarrow> u64 \<Rightarrow> 'd \<times> unit pd_result" and d d' :: 'd and a' r n
  assume a: "alloc_ok a" and s: "alloc_allocate reserve d a n = ((d', a'), r)"
  show "alloc_ok a'" "alloc_floor a \<le> alloc_floor a'" using alloc_serve_ok [OF a s] by simp_all
  show "(d' = d \<and> alloc_cap a' = alloc_cap a)
      \<or> (\<exists>v \<le> u64_max. reserve d v = (d', Ok ()) \<and> alloc_cap a' = v + 1)
      \<or> (\<exists>v \<le> u64_max. \<exists>e. reserve d v = (d', Err e) \<and> alloc_cap a' = alloc_cap a \<and> r = Err e)"
    by (rule alloc_serve_cap [OF a s])
next
  fix a :: allocator and reserve :: "'d \<Rightarrow> u64 \<Rightarrow> 'd \<times> unit pd_result" and d d' :: 'd and a' s n
  assume a: "alloc_ok a" and s: "alloc_allocate reserve d a n = ((d', a'), Ok s)"
  show "0 < n \<and> alloc_floor a \<le> s \<and> s + n \<le> alloc_floor a' \<and> s + n \<le> alloc_cap a'"
    by (rule alloc_serve_run [OF a s])
qed simp

section \<open>What a clock past the layout does\<close>

text \<open>An oracle that once saw a clock past the end of the layout has followed it. It refuses that call and
  every later one, whatever the clock reads then, although it never handed out the time it followed.\<close>

lemma oracle_wedged:
  assumes "MAX_PHYSICAL_MS < or_physical_ms q" "oracle_allocate persist d q n now = ((d', q'), r)"
  shows "MAX_PHYSICAL_MS < or_physical_ms q' \<and> d' = d \<and> (\<exists>e. r = Err e)"
proof -
  obtain q1 rr where roll: "oracle_roll n (oracle_follow now q) = (q1, rr)" by (cases "oracle_roll n (oracle_follow now q)")
  have "MAX_PHYSICAL_MS < or_physical_ms (oracle_follow now q)" using assms(1) by (simp add: oracle_follow_def)
  with roll have "MAX_PHYSICAL_MS < or_physical_ms q1"
    by (auto simp: oracle_roll_def checked_add_def split: if_splits)
  with assms roll show ?thesis by (cases rr) (auto simp: oracle_allocate_def split: if_splits)
qed

lemma bad_clock_wedges:
  assumes "0 < n" "n \<le> LOGICAL_SPACE" "MAX_PHYSICAL_MS < now" "now \<le> u64_max"
  shows "\<exists>e q'. oracle_allocate persist d (oracle_load None 0 w) n now = ((d, q'), Err e) \<and> MAX_PHYSICAL_MS < or_physical_ms q'"
  using assms by (auto simp: oracle_allocate_def oracle_follow_def oracle_load_def oracle_roll_def)

section \<open>The safepoint\<close>

text \<open>A shift by less than the width is never refused, so a window past the layout wraps instead of
  saturating: it is as if there were no window at all.\<close>

lemma window_wraps: "as_ts (2 ^ 46) = 0"
  by (simp add: as_ts_def checked_shl_def layout_values push_bit_nat_def take_bit_nat_def)

lemma safepoint_published:
  assumes "sp_safepoint now s = (s', p)"
  shows "p = sp_published s' \<and> sp_published s \<le> p \<and> sp_ttl_ms s' = sp_ttl_ms s
    \<and> sp_reporters s' = filter (\<lambda>(_, r). now - rp_heard r \<le> as_ts (sp_ttl_ms s)) (sp_reporters s)"
  using assms by (auto simp: sp_safepoint_def Let_def split: if_splits)

lemma safepoint_pinned:
  assumes "sp_safepoint now s = (s', p)" "(i, r) \<in> set (sp_reporters s)" "now - rp_heard r \<le> as_ts (sp_ttl_ms s)"
  shows "p \<le> max (sp_published s) (rp_pins r)"
proof -
  let ?live = "filter (\<lambda>(_, r). now - rp_heard r \<le> as_ts (sp_ttl_ms s)) (sp_reporters s)"
  have i: "(i, r) \<in> set ?live" using assms(2,3) by simp
  then have "Min (set (map (rp_pins \<circ> snd) ?live)) \<le> rp_pins r" by (intro Min_le) force+
  moreover have "p = max (sp_published s) (min (now - as_ts (sp_retention_ms s)) (Min (set (map (rp_pins \<circ> snd) ?live))))"
  proof -
    have "?live \<noteq> []" using i by (metis empty_iff empty_set)
    with assms(1) show ?thesis by (auto simp: sp_safepoint_def Let_def)
  qed
  ultimately show ?thesis by (metis max.mono min.coboundedI2 order_refl)
qed

text \<open>The calls the placement driver makes on the registry, and what a node does that keeps a read open at
  \<open>ts\<close>: it reports nothing newer than \<open>ts\<close>, is not forgotten, and is heard again before its time to live
  runs out.\<close>

datatype sp_call = SpReport u64 "u64 option" u64 | SpForget u64 | SpSafepoint u64

fun sp_do :: "sp_call \<Rightarrow> safepoints \<Rightarrow> safepoints" where
  "sp_do (SpReport i oldest now) s = sp_report i oldest now s"
| "sp_do (SpForget i) s = sp_forget i s"
| "sp_do (SpSafepoint now) s = fst (sp_safepoint now s)"

fun reads_on :: "u64 \<Rightarrow> u64 \<Rightarrow> u64 \<Rightarrow> u64 \<Rightarrow> sp_call list \<Rightarrow> bool" where
  "reads_on i ts ttl heard [] = True"
| "reads_on i ts ttl heard (SpReport j oldest now # cs) =
     (if j = i then (case oldest of None \<Rightarrow> False | Some t \<Rightarrow> t \<le> ts) \<and> reads_on i ts ttl now cs
      else reads_on i ts ttl heard cs)"
| "reads_on i ts ttl heard (SpForget j # cs) \<longleftrightarrow> j \<noteq> i \<and> reads_on i ts ttl heard cs"
| "reads_on i ts ttl heard (SpSafepoint now # cs) \<longleftrightarrow> now - heard \<le> ttl \<and> reads_on i ts ttl heard cs"

lemma map_of_filter: "bt_ok m \<Longrightarrow> map_of m i = Some r \<Longrightarrow> P (i, r) \<Longrightarrow> map_of (filter P m) i = Some r"
proof -
  assume m: "bt_ok m" "map_of m i = Some r" "P (i, r)"
  then have "(i, r) \<in> set (filter P m)" by (simp add: map_of_SomeD)
  then show ?thesis by (rule map_of_is_SomeI [OF bt_ok_distinct [OF bt_ok_filter [OF m(1)]]])
qed

lemma safepoint_spares:
  assumes "bt_ok (sp_reporters s)" "map_of (sp_reporters s) i = Some r" "rp_pins r \<le> ts" "sp_published s \<le> ts"
    "reads_on i ts (as_ts (sp_ttl_ms s)) (rp_heard r) cs"
  shows "sp_published (fold sp_do cs s) \<le> ts"
  using assms
proof (induction cs arbitrary: s r)
  case (Cons c cs)
  show ?case
  proof (cases c)
    case (SpReport j oldest now)
    show ?thesis
    proof (cases "j = i")
      case True
      with SpReport Cons.prems(5) obtain t where t: "oldest = Some t" "t \<le> ts" "reads_on i ts (as_ts (sp_ttl_ms s)) now cs"
        by (auto split: option.splits)
      show ?thesis
        using Cons.IH [of "sp_do c s" "\<lparr>rp_oldest = oldest, rp_heard = now\<rparr>"] Cons.prems True t SpReport
        by (simp add: sp_report_def rp_pins_def)
    next
      case False
      with Cons.IH [of "sp_do c s" r] Cons.prems SpReport show ?thesis by (simp add: sp_report_def)
    qed
  next
    case (SpForget j)
    with Cons.IH [of "sp_do c s" r] Cons.prems show ?thesis by (simp add: sp_forget_def)
  next
    case (SpSafepoint now)
    obtain s' p where sp: "sp_safepoint now s = (s', p)" by (cases "sp_safepoint now s")
    note pub = safepoint_published [OF sp]
    have live: "now - rp_heard r \<le> as_ts (sp_ttl_ms s)" "reads_on i ts (as_ts (sp_ttl_ms s)) (rp_heard r) cs"
      using Cons.prems(5) SpSafepoint by simp_all
    have "(i, r) \<in> set (sp_reporters s)" using Cons.prems(2) by (rule map_of_SomeD)
    then have "p \<le> ts" using safepoint_pinned [OF sp _ live(1)] Cons.prems(3,4) by fastforce
    moreover have "map_of (sp_reporters s') i = Some r"
      using pub live(1) map_of_filter [OF Cons.prems(1,2)] by simp
    moreover have "bt_ok (sp_reporters s')" using pub bt_ok_filter [OF Cons.prems(1)] by simp
    ultimately show ?thesis using Cons.IH [of s' r] Cons.prems(3) live(2) pub sp SpSafepoint by simp
  qed
qed simp

text \<open>C20. The safepoint never passes a read that is being reported. While a node that reads at a timestamp
  keeps reporting it within its time to live, no sequence of reports, departures and computations by it
  and others moves the published safepoint above that timestamp; and the safepoint never moves back.\<close>

theorem safepoint_spares_readers:
  assumes "bt_ok (sp_reporters s)" "map_of (sp_reporters s) i = Some r" "rp_pins r \<le> ts" "sp_published s \<le> ts"
    "reads_on i ts (as_ts (sp_ttl_ms s)) (rp_heard r) cs"
  shows "sp_published (fold sp_do cs s) \<le> ts \<and> sp_published s \<le> sp_published (fold sp_do cs s)"
proof
  show "sp_published (fold sp_do cs s) \<le> ts" by (rule safepoint_spares [OF assms])
  have "sp_published s \<le> sp_published (sp_do c s)" for c s
    using safepoint_published [of _ s] by (cases c) (auto simp: sp_report_def sp_forget_def, metis eq_fst_iff)
  then show "sp_published s \<le> sp_published (fold sp_do cs s)"
    by (induction cs arbitrary: s) (auto intro: order_trans)
qed

theorem safepoint_spares_readers_witness:
  "sp_published (fold sp_do [SpReport 2 (Some (9 * 2 ^ 18)) (12 * 2 ^ 18), SpSafepoint (15 * 2 ^ 18)]
     (sp_report 1 (Some (5 * 2 ^ 18)) (10 * 2 ^ 18) (safepoints_new 1 20000))) \<le> 5 * 2 ^ 18"
proof -
  let ?s = "sp_report 1 (Some (5 * 2 ^ 18)) (10 * 2 ^ 18) (safepoints_new 1 20000)"
  let ?r = "\<lparr>rp_oldest = Some (5 * 2 ^ 18), rp_heard = 10 * 2 ^ 18\<rparr>"
  have "sp_published (fold sp_do [SpReport 2 (Some (9 * 2 ^ 18)) (12 * 2 ^ 18), SpSafepoint (15 * 2 ^ 18)] ?s) \<le> 5 * 2 ^ 18
      \<and> sp_published ?s \<le> sp_published (fold sp_do [SpReport 2 (Some (9 * 2 ^ 18)) (12 * 2 ^ 18), SpSafepoint (15 * 2 ^ 18)] ?s)"
    by (rule safepoint_spares_readers [of _ 1 ?r])
      (simp_all add: sp_report_def safepoints_new_def rp_pins_def as_ts_def checked_shl_def layout_values push_bit_nat_def take_bit_nat_def)
  then show ?thesis by blast
qed

end
