(* ===== verification/PdRecord.thy ===== *)
theory PdRecord
  imports Region PdOracle
begin

text \<open>
  The placement driver's durable records (\<^verbatim>\<open>esker-pd/src/record.rs\<close>), the keys they are stored under
  (\<^verbatim>\<open>esker-pd/src/keys.rs\<close>) and the commands its log carries (\<^verbatim>\<open>esker-pd/src/command.rs\<close>). A record starts
  with a version byte and must end where its last field ends; every decoder accepts exactly the encodings.
\<close>

section \<open>Keys\<close>

definition PD_PREFIX :: byte where "PD_PREFIX = 0x6D"
definition KEY_CLUSTER :: byte where "KEY_CLUSTER = 0x63"
definition KEY_ALLOC :: byte where "KEY_ALLOC = 0x61"
definition KEY_HISTORY :: byte where "KEY_HISTORY = 0x68"
definition KEY_RANGE :: byte where "KEY_RANGE = 0x6B"
definition KEY_REGION :: byte where "KEY_REGION = 0x72"
definition KEY_STORE :: byte where "KEY_STORE = 0x73"
definition KEY_TSO :: byte where "KEY_TSO = 0x74"
definition KEY_COLUMNAR :: byte where "KEY_COLUMNAR = 0x6C"
definition TAG_BOUNDED :: byte where "TAG_BOUNDED = 1"
definition TAG_UNBOUNDED :: byte where "TAG_UNBOUNDED = 2"

lemmas key_bytes = PD_PREFIX_def KEY_CLUSTER_def KEY_ALLOC_def KEY_HISTORY_def KEY_RANGE_def KEY_REGION_def
  KEY_STORE_def KEY_TSO_def KEY_COLUMNAR_def TAG_BOUNDED_def TAG_UNBOUNDED_def

definition cluster_key :: bytes where "cluster_key = [PD_PREFIX, KEY_CLUSTER]"
definition alloc_key :: bytes where "alloc_key = [PD_PREFIX, KEY_ALLOC]"
definition history_key :: bytes where "history_key = [PD_PREFIX, KEY_HISTORY]"
definition columnar_key :: bytes where "columnar_key = [PD_PREFIX, KEY_COLUMNAR]"
definition tso_key :: bytes where "tso_key = [PD_PREFIX, KEY_TSO]"

lemmas single_keys = cluster_key_def alloc_key_def history_key_def columnar_key_def tso_key_def

definition ID_KEY_LEN :: nat where "ID_KEY_LEN = 10"

definition id_key :: "byte \<Rightarrow> u64 \<Rightarrow> bytes" where
  "id_key k i = PD_PREFIX # k # rev (le_bytes 8 i)"

definition store_key :: "u64 \<Rightarrow> bytes" where
  "store_key i = id_key KEY_STORE i"

definition region_key :: "u64 \<Rightarrow> bytes" where
  "region_key i = id_key KEY_REGION i"

definition id_in_key :: "byte \<Rightarrow> bytes \<Rightarrow> u64 option" where
  "id_in_key k key =
     (if length key \<noteq> ID_KEY_LEN \<or> key ! 0 \<noteq> PD_PREFIX \<or> key ! 1 \<noteq> k then None
      else Some (of_le_bytes (rev (drop 2 key))))"

definition kind_prefix :: "byte \<Rightarrow> bytes" where
  "kind_prefix k = [PD_PREFIX, k]"

definition range_key :: "bytes \<Rightarrow> bytes" where
  "range_key end_key =
     [PD_PREFIX, KEY_RANGE] @ (if end_key = [] then [TAG_UNBOUNDED] else TAG_BOUNDED # end_key)"

definition range_seek_key :: "bytes \<Rightarrow> bytes" where
  "range_seek_key key = [PD_PREFIX, KEY_RANGE, TAG_BOUNDED] @ key @ [0]"

definition end_key_in_range_key :: "bytes \<Rightarrow> bytes option option" where
  "end_key_in_range_key key =
     (if length key < 3 \<or> key ! 0 \<noteq> PD_PREFIX \<or> key ! 1 \<noteq> KEY_RANGE then None
      else if key ! 2 = TAG_BOUNDED then Some (Some (drop 3 key))
      else if key ! 2 = TAG_UNBOUNDED \<and> length key = 3 then Some None
      else None)"

section \<open>Records\<close>

definition RECORD_VERSION :: byte where
  "RECORD_VERSION = 1"

record cluster_record =
  cl_cluster_id :: u64
  cl_first_region_id :: u64
  cl_created_ms :: u64

record store_stats =
  ss_capacity :: u64
  ss_available :: u64
  ss_region_count :: u64
  ss_leader_count :: u64
  ss_applied_bytes :: u64

record store_record =
  sr_store_id :: u64
  sr_address :: bytes
  sr_started_ms :: u64
  sr_last_heartbeat_ms :: u64
  sr_stats :: store_stats

record region_record =
  rr_region :: region
  rr_leader_peer_id :: u64
  rr_term :: u64
  rr_approximate_size :: u64
  rr_applied_index :: u64
  rr_last_heartbeat_ms :: u64

definition region_record_new :: "region \<Rightarrow> u64 \<Rightarrow> region_record" where
  "region_record_new r now_ms =
     \<lparr>rr_region = r, rr_leader_peer_id = 0, rr_term = 0, rr_approximate_size = 0, rr_applied_index = 0,
      rr_last_heartbeat_ms = now_ms\<rparr>"

record columnar_wish =
  cw_start_key :: bytes
  cw_end_key :: bytes
  cw_replicas :: byte

record columnar_record =
  cr_wishes :: "columnar_wish list"

definition ranges_overlap :: "bytes \<Rightarrow> bytes \<Rightarrow> bytes \<Rightarrow> bytes \<Rightarrow> bool" where
  "ranges_overlap a_start a_end b_start b_end =
     (let a_before_b = (a_end \<noteq> [] \<and> a_end \<le> b_start);
          b_before_a = (b_end \<noteq> [] \<and> b_end \<le> a_start)
      in \<not> a_before_b \<and> \<not> b_before_a)"

definition wanted_for :: "columnar_record \<Rightarrow> bytes \<Rightarrow> bytes \<Rightarrow> byte" where
  "wanted_for c start end' =
     (let ws = filter (\<lambda>w. ranges_overlap start end' (cw_start_key w) (cw_end_key w)) (cr_wishes c)
      in if ws = [] then 0 else Max (set (map cw_replicas ws)))"

datatype event_kind = EvAddPeer | EvRemovePeer | EvTransferLeader | EvAddLearner

datatype event_outcome = EoIssued | EoDone | EoCancelled | EoTimedOut

fun event_kind_as_u8 :: "event_kind \<Rightarrow> byte" where
  "event_kind_as_u8 EvAddPeer = 1"
| "event_kind_as_u8 EvRemovePeer = 2"
| "event_kind_as_u8 EvTransferLeader = 3"
| "event_kind_as_u8 EvAddLearner = 4"

definition event_kind_from_u8 :: "byte \<Rightarrow> event_kind option" where
  "event_kind_from_u8 b =
     (if b = 1 then Some EvAddPeer else if b = 2 then Some EvRemovePeer
      else if b = 3 then Some EvTransferLeader else if b = 4 then Some EvAddLearner else None)"

fun event_outcome_as_u8 :: "event_outcome \<Rightarrow> byte" where
  "event_outcome_as_u8 EoIssued = 1"
| "event_outcome_as_u8 EoDone = 2"
| "event_outcome_as_u8 EoCancelled = 3"
| "event_outcome_as_u8 EoTimedOut = 4"

definition event_outcome_from_u8 :: "byte \<Rightarrow> event_outcome option" where
  "event_outcome_from_u8 b =
     (if b = 1 then Some EoIssued else if b = 2 then Some EoDone
      else if b = 3 then Some EoCancelled else if b = 4 then Some EoTimedOut else None)"

record operator_event =
  oe_at_ms :: u64
  oe_region_id :: u64
  oe_kind :: event_kind
  oe_outcome :: event_outcome
  oe_store_id :: u64
  oe_peer_id :: u64

definition HISTORY_CAPACITY :: nat where
  "HISTORY_CAPACITY = 64"

record history_record =
  hr_events :: "operator_event list"

definition history_push :: "history_record \<Rightarrow> operator_event \<Rightarrow> history_record" where
  "history_push h e =
     (let events = hr_events h;
          events = (if length events \<ge> HISTORY_CAPACITY
                    then drop (length events - HISTORY_CAPACITY + 1) events else events)
      in h\<lparr>hr_events := events @ [e]\<rparr>)"

subsection \<open>Framing\<close>

fun pd_field :: "string \<Rightarrow> ('a, decode_error) result \<Rightarrow> 'a pd_result" where
  "pd_field what (Ok x) = Ok x"
| "pd_field what (Err e) = Err (PdCorrupt what (PdField e))"

definition rec_start :: bytes where
  "rec_start = enc_u8 RECORD_VERSION"

definition rec_open :: "string \<Rightarrow> bytes \<Rightarrow> bytes pd_result" where
  "rec_open what bs =
     ok_then (pd_field what (dec_u8 ''record.version'' bs)) (\<lambda>(v, rest).
       if v \<noteq> RECORD_VERSION then Err (PdCorrupt what (PdVersion v)) else Ok rest)"

definition rec_close :: "string \<Rightarrow> bytes \<Rightarrow> unit pd_result" where
  "rec_close what rest = pd_field what (dec_finish rest)"

text \<open>One field read with \<^verbatim>\<open>?\<close>, and the rest of the decoder after it.\<close>

definition rd :: "string \<Rightarrow> (bytes \<Rightarrow> 'a decoded) \<Rightarrow> bytes \<Rightarrow> ('a \<Rightarrow> bytes \<Rightarrow> 'b pd_result) \<Rightarrow> 'b pd_result" where
  "rd what dec rest k = ok_then (pd_field what (dec rest)) (\<lambda>(x, rest). k x rest)"

subsection \<open>Formats\<close>

definition cluster_encode :: "cluster_record \<Rightarrow> bytes" where
  "cluster_encode c = rec_start @ enc_varint (cl_cluster_id c) @ enc_varint (cl_first_region_id c) @ enc_varint (cl_created_ms c)"

definition cluster_decode :: "bytes \<Rightarrow> cluster_record pd_result" where
  "cluster_decode bs =
     (let what = ''cluster'' in
      ok_then (rec_open what bs) (\<lambda>rest.
      rd what (dec_varint ''cluster.id'') rest (\<lambda>i rest.
      rd what (dec_varint ''cluster.first_region'') rest (\<lambda>f rest.
      rd what (dec_varint ''cluster.created_ms'') rest (\<lambda>c rest.
      ok_then (rec_close what rest) (\<lambda>_.
        if i = 0 then Err (PdCorrupt what PdClusterIdZero)
        else Ok \<lparr>cl_cluster_id = i, cl_first_region_id = f, cl_created_ms = c\<rparr>))))))"

definition alloc_record_encode :: "alloc_record \<Rightarrow> bytes" where
  "alloc_record_encode a = rec_start @ enc_varint (ar_allocated_end a)"

definition alloc_record_decode :: "bytes \<Rightarrow> alloc_record pd_result" where
  "alloc_record_decode bs =
     (let what = ''alloc'' in
      ok_then (rec_open what bs) (\<lambda>rest.
      rd what (dec_varint ''alloc.end'') rest (\<lambda>e rest.
      ok_then (rec_close what rest) (\<lambda>_. Ok \<lparr>ar_allocated_end = e\<rparr>))))"

definition tso_record_encode :: "tso_record \<Rightarrow> bytes" where
  "tso_record_encode t = rec_start @ enc_varint (tr_high_water_ms t)"

definition tso_record_decode :: "bytes \<Rightarrow> tso_record pd_result" where
  "tso_record_decode bs =
     (let what = ''tso'' in
      ok_then (rec_open what bs) (\<lambda>rest.
      rd what (dec_varint ''tso.high_water_ms'') rest (\<lambda>h rest.
      ok_then (rec_close what rest) (\<lambda>_. Ok \<lparr>tr_high_water_ms = h\<rparr>))))"

definition wish_encode :: "columnar_wish \<Rightarrow> bytes" where
  "wish_encode w = enc_bytes (cw_start_key w) @ enc_bytes (cw_end_key w) @ enc_u8 (cw_replicas w)"

definition wish_decode :: "string \<Rightarrow> bytes \<Rightarrow> (columnar_wish \<times> bytes) pd_result" where
  "wish_decode what rest =
     rd what (dec_bytes ''columnar.start_key'') rest (\<lambda>s rest.
     rd what (dec_bytes ''columnar.end_key'') rest (\<lambda>e rest.
     rd what (dec_u8 ''columnar.replicas'') rest (\<lambda>n rest.
       Ok (\<lparr>cw_start_key = s, cw_end_key = e, cw_replicas = n\<rparr>, rest))))"

definition columnar_encode :: "columnar_record \<Rightarrow> bytes" where
  "columnar_encode c = rec_start @ enc_varint (length (cr_wishes c)) @ concat (map wish_encode (cr_wishes c))"

definition columnar_decode :: "bytes \<Rightarrow> columnar_record pd_result" where
  "columnar_decode bs =
     (let what = ''columnar'' in
      ok_then (rec_open what bs) (\<lambda>rest.
      rd what (dec_count ''columnar.len'') rest (\<lambda>n rest.
      ok_then (dec_repeat (wish_decode what) n rest) (\<lambda>(ws, rest).
      ok_then (rec_close what rest) (\<lambda>_. Ok \<lparr>cr_wishes = ws\<rparr>)))))"

definition stats_encode :: "store_stats \<Rightarrow> bytes" where
  "stats_encode s = enc_varint (ss_capacity s) @ enc_varint (ss_available s) @ enc_varint (ss_region_count s)
     @ enc_varint (ss_leader_count s) @ enc_varint (ss_applied_bytes s)"

definition store_encode :: "store_record \<Rightarrow> bytes" where
  "store_encode s = rec_start @ enc_varint (sr_store_id s) @ enc_str (sr_address s) @ enc_varint (sr_started_ms s)
     @ enc_varint (sr_last_heartbeat_ms s) @ stats_encode (sr_stats s)"

definition store_decode :: "bytes \<Rightarrow> store_record pd_result" where
  "store_decode bs =
     (let what = ''store'' in
      ok_then (rec_open what bs) (\<lambda>rest.
      rd what (dec_varint ''store.id'') rest (\<lambda>i rest.
      rd what (dec_str ''store.address'') rest (\<lambda>a rest.
      rd what (dec_varint ''store.started_ms'') rest (\<lambda>st rest.
      rd what (dec_varint ''store.last_beat'') rest (\<lambda>lb rest.
      rd what (dec_varint ''store.capacity'') rest (\<lambda>c rest.
      rd what (dec_varint ''store.available'') rest (\<lambda>av rest.
      rd what (dec_varint ''store.regions'') rest (\<lambda>rc rest.
      rd what (dec_varint ''store.leaders'') rest (\<lambda>lc rest.
      rd what (dec_varint ''store.applied_bytes'') rest (\<lambda>ab rest.
      ok_then (rec_close what rest) (\<lambda>_.
        Ok \<lparr>sr_store_id = i, sr_address = a, sr_started_ms = st, sr_last_heartbeat_ms = lb,
            sr_stats = \<lparr>ss_capacity = c, ss_available = av, ss_region_count = rc, ss_leader_count = lc,
              ss_applied_bytes = ab\<rparr>\<rparr>))))))))))))"

definition rec_peer_decode :: "string \<Rightarrow> bytes \<Rightarrow> (region_peer \<times> bytes) pd_result" where
  "rec_peer_decode what rest =
     rd what (dec_varint ''peer.store_id'') rest (\<lambda>s rest.
     rd what (dec_varint ''peer.peer_id'') rest (\<lambda>i rest.
     rd what (dec_u8 ''peer.role'') rest (\<lambda>b rest.
       (case role_from_u8 b of
          None \<Rightarrow> Err (PdCorrupt what (PdPeerRole b))
        | Some role \<Rightarrow> Ok (\<lparr>pe_store_id = s, pe_peer_id = i, pe_role = role\<rparr>, rest)))))"

definition rec_region_encode :: "region \<Rightarrow> bytes" where
  "rec_region_encode r =
     enc_varint (rg_id r) @ enc_bytes (rg_start_key r) @ enc_bytes (rg_end_key r)
       @ enc_varint (ep_conf_ver (rg_epoch r)) @ enc_varint (ep_version (rg_epoch r))
       @ enc_varint (length (rg_peers r))
       @ concat (map (\<lambda>p. enc_varint (pe_store_id p) @ enc_varint (pe_peer_id p) @ enc_u8 (role_as_u8 (pe_role p))) (rg_peers r))"

definition rec_region_decode :: "string \<Rightarrow> bytes \<Rightarrow> (region \<times> bytes) pd_result" where
  "rec_region_decode what rest =
     rd what (dec_varint ''region.id'') rest (\<lambda>i rest.
     rd what (dec_bytes ''region.start'') rest (\<lambda>s rest.
     rd what (dec_bytes ''region.end'') rest (\<lambda>e rest.
     rd what (dec_varint ''region.conf_ver'') rest (\<lambda>c rest.
     rd what (dec_varint ''region.version'') rest (\<lambda>v rest.
     rd what (dec_count ''region.peers'') rest (\<lambda>n rest.
     ok_then (dec_repeat (rec_peer_decode what) n rest) (\<lambda>(ps, rest).
       Ok (\<lparr>rg_id = i, rg_start_key = s, rg_end_key = e, rg_peers = ps,
            rg_epoch = \<lparr>ep_conf_ver = c, ep_version = v\<rparr>\<rparr>, rest))))))))"

definition region_record_encode :: "region_record \<Rightarrow> bytes" where
  "region_record_encode r = rec_start @ rec_region_encode (rr_region r) @ enc_varint (rr_leader_peer_id r)
     @ enc_varint (rr_term r) @ enc_varint (rr_approximate_size r) @ enc_varint (rr_applied_index r)
     @ enc_varint (rr_last_heartbeat_ms r)"

definition region_record_decode :: "bytes \<Rightarrow> region_record pd_result" where
  "region_record_decode bs =
     (let what = ''region'' in
      ok_then (rec_open what bs) (\<lambda>rest.
      ok_then (rec_region_decode what rest) (\<lambda>(r, rest).
      rd what (dec_varint ''region.leader'') rest (\<lambda>l rest.
      rd what (dec_varint ''region.term'') rest (\<lambda>t rest.
      rd what (dec_varint ''region.size'') rest (\<lambda>s rest.
      rd what (dec_varint ''region.applied'') rest (\<lambda>a rest.
      rd what (dec_varint ''region.last_beat'') rest (\<lambda>b rest.
      ok_then (rec_close what rest) (\<lambda>_.
        Ok \<lparr>rr_region = r, rr_leader_peer_id = l, rr_term = t, rr_approximate_size = s, rr_applied_index = a,
            rr_last_heartbeat_ms = b\<rparr>)))))))))"

definition put_event :: "operator_event \<Rightarrow> bytes" where
  "put_event e = enc_varint (oe_at_ms e) @ enc_varint (oe_region_id e) @ enc_u8 (event_kind_as_u8 (oe_kind e))
     @ enc_u8 (event_outcome_as_u8 (oe_outcome e)) @ enc_varint (oe_store_id e) @ enc_varint (oe_peer_id e)"

definition get_event :: "string \<Rightarrow> bytes \<Rightarrow> (operator_event \<times> bytes) pd_result" where
  "get_event what rest =
     rd what (dec_varint ''event.at_ms'') rest (\<lambda>at rest.
     rd what (dec_varint ''event.region_id'') rest (\<lambda>r rest.
     rd what (dec_u8 ''event.kind'') rest (\<lambda>k rest.
     rd what (dec_u8 ''event.outcome'') rest (\<lambda>oc rest.
       (case event_kind_from_u8 k of
          None \<Rightarrow> Err (PdCorrupt what (PdOperatorKind k))
        | Some k \<Rightarrow>
            (case event_outcome_from_u8 oc of
               None \<Rightarrow> Err (PdCorrupt what (PdOutcome oc))
             | Some oc \<Rightarrow>
                 rd what (dec_varint ''event.store_id'') rest (\<lambda>s rest.
                 rd what (dec_varint ''event.peer_id'') rest (\<lambda>p rest.
                   Ok (\<lparr>oe_at_ms = at, oe_region_id = r, oe_kind = k, oe_outcome = oc, oe_store_id = s, oe_peer_id = p\<rparr>, rest)))))))))"

definition history_encode :: "history_record \<Rightarrow> bytes" where
  "history_encode h = rec_start @ enc_varint (length (hr_events h)) @ concat (map put_event (hr_events h))"

definition history_decode :: "bytes \<Rightarrow> history_record pd_result" where
  "history_decode bs =
     (let what = ''history'' in
      ok_then (rec_open what bs) (\<lambda>rest.
      rd what (dec_count ''history.count'') rest (\<lambda>n rest.
      ok_then (dec_repeat (get_event what) n rest) (\<lambda>(es, rest).
      ok_then (rec_close what rest) (\<lambda>_.
        if length es > HISTORY_CAPACITY then Err (PdCorrupt what (PdHistoryLength (length es)))
        else Ok \<lparr>hr_events = es\<rparr>)))))"

definition encode_range_entry :: "u64 \<Rightarrow> bytes" where
  "encode_range_entry i = rec_start @ enc_varint i"

definition decode_range_entry :: "bytes \<Rightarrow> u64 pd_result" where
  "decode_range_entry bs =
     (let what = ''range index'' in
      ok_then (rec_open what bs) (\<lambda>rest.
      rd what (dec_varint ''index.region_id'') rest (\<lambda>i rest.
      ok_then (rec_close what rest) (\<lambda>_. Ok i))))"

section \<open>Commands\<close>

datatype pd_command =
    PcTakeOffice u64 u64
  | PcBootstrap u64 bytes u64 u64 u64
  | PcReserveIds u64
  | PcAdvanceTso u64
  | PcStoreBeat u64 store_stats u64
  | PcRegionBeat region_record
  | PcColumnar "columnar_wish list"
  | PcHistory operator_event

definition COMMAND_VERSION :: byte where "COMMAND_VERSION = 1"
definition TAKE_OFFICE :: byte where "TAKE_OFFICE = 1"
definition BOOTSTRAP :: byte where "BOOTSTRAP = 2"
definition RESERVE_IDS :: byte where "RESERVE_IDS = 3"
definition ADVANCE_TSO :: byte where "ADVANCE_TSO = 4"
definition STORE_BEAT :: byte where "STORE_BEAT = 5"
definition REGION_BEAT :: byte where "REGION_BEAT = 6"
definition COLUMNAR :: byte where "COLUMNAR = 7"
definition HISTORY :: byte where "HISTORY = 8"

lemmas command_kinds = TAKE_OFFICE_def BOOTSTRAP_def RESERVE_IDS_def ADVANCE_TSO_def STORE_BEAT_def REGION_BEAT_def
  COLUMNAR_def HISTORY_def

fun pd_command_body :: "pd_command \<Rightarrow> bytes" where
  "pd_command_body (PcTakeOffice term now_ms) = enc_u8 TAKE_OFFICE @ enc_varint term @ enc_varint now_ms"
| "pd_command_body (PcBootstrap store_id address base_id cluster_id now_ms) =
     enc_u8 BOOTSTRAP @ enc_varint store_id @ enc_str address @ enc_varint base_id @ enc_u64 cluster_id @ enc_varint now_ms"
| "pd_command_body (PcReserveIds e) = enc_u8 RESERVE_IDS @ enc_u64 e"
| "pd_command_body (PcAdvanceTso mark) = enc_u8 ADVANCE_TSO @ enc_varint mark"
| "pd_command_body (PcStoreBeat store_id stats now_ms) =
     enc_u8 STORE_BEAT @ enc_varint store_id @ enc_varint (ss_capacity stats) @ enc_varint (ss_available stats)
       @ enc_varint (ss_region_count stats) @ enc_varint (ss_leader_count stats) @ enc_varint (ss_applied_bytes stats)
       @ enc_varint now_ms"
| "pd_command_body (PcRegionBeat rec) = enc_u8 REGION_BEAT @ enc_bytes (region_record_encode rec)"
| "pd_command_body (PcColumnar wishes) = enc_u8 COLUMNAR @ enc_bytes (columnar_encode \<lparr>cr_wishes = wishes\<rparr>)"
| "pd_command_body (PcHistory event) = enc_u8 HISTORY @ put_event event"

definition pd_command_encode :: "pd_command \<Rightarrow> bytes" where
  "pd_command_encode c = enc_u8 COMMAND_VERSION @ pd_command_body c"

definition pd_command_fields :: "byte \<Rightarrow> bytes \<Rightarrow> (pd_command \<times> bytes) pd_result" where
  "pd_command_fields k rest =
     (let what = ''pd command'' in
      if k = TAKE_OFFICE then
        rd what (dec_varint ''take_office.term'') rest (\<lambda>t rest.
        rd what (dec_varint ''take_office.now_ms'') rest (\<lambda>n rest. Ok (PcTakeOffice t n, rest)))
      else if k = BOOTSTRAP then
        rd what (dec_varint ''bootstrap.store_id'') rest (\<lambda>s rest.
        rd what (dec_str ''bootstrap.address'') rest (\<lambda>a rest.
        rd what (dec_varint ''bootstrap.base_id'') rest (\<lambda>b rest.
        rd what (dec_u64 ''bootstrap.cluster_id'') rest (\<lambda>c rest.
        rd what (dec_varint ''bootstrap.now_ms'') rest (\<lambda>n rest. Ok (PcBootstrap s a b c n, rest))))))
      else if k = RESERVE_IDS then
        rd what (dec_u64 ''reserve_ids.end'') rest (\<lambda>e rest. Ok (PcReserveIds e, rest))
      else if k = ADVANCE_TSO then
        rd what (dec_varint ''advance_tso.mark'') rest (\<lambda>m rest. Ok (PcAdvanceTso m, rest))
      else if k = STORE_BEAT then
        rd what (dec_varint ''store_beat.store_id'') rest (\<lambda>s rest.
        rd what (dec_varint ''store_beat.capacity'') rest (\<lambda>c rest.
        rd what (dec_varint ''store_beat.available'') rest (\<lambda>av rest.
        rd what (dec_varint ''store_beat.region_count'') rest (\<lambda>rc rest.
        rd what (dec_varint ''store_beat.leader_count'') rest (\<lambda>lc rest.
        rd what (dec_varint ''store_beat.applied_bytes'') rest (\<lambda>ab rest.
        rd what (dec_varint ''store_beat.now_ms'') rest (\<lambda>n rest.
          Ok (PcStoreBeat s \<lparr>ss_capacity = c, ss_available = av, ss_region_count = rc, ss_leader_count = lc,
                ss_applied_bytes = ab\<rparr> n, rest))))))))
      else if k = REGION_BEAT then
        rd what (dec_bytes ''region_beat.record'') rest (\<lambda>bs rest.
        ok_then (region_record_decode bs) (\<lambda>rec. Ok (PcRegionBeat rec, rest)))
      else if k = COLUMNAR then
        rd what (dec_bytes ''columnar.record'') rest (\<lambda>bs rest.
        ok_then (columnar_decode bs) (\<lambda>rec. Ok (PcColumnar (cr_wishes rec), rest)))
      else if k = HISTORY then
        ok_then (get_event what rest) (\<lambda>(e, rest). Ok (PcHistory e, rest))
      else Err (PdCorrupt what (PdCommandKind k)))"

definition pd_command_decode :: "bytes \<Rightarrow> pd_command pd_result" where
  "pd_command_decode bs =
     (let what = ''pd command'' in
      rd what (dec_u8 ''command.version'') bs (\<lambda>v rest.
        if v \<noteq> COMMAND_VERSION then Err (PdCorrupt what (PdVersion v))
        else
          rd what (dec_u8 ''command.kind'') rest (\<lambda>k rest.
          ok_then (pd_command_fields k rest) (\<lambda>(c, rest).
          ok_then (rec_close what rest) (\<lambda>_. Ok c)))))"

section \<open>The formats are exact\<close>

text \<open>A format that takes up a whole value.\<close>

locale exact_record =
  fixes enc :: "'a \<Rightarrow> bytes"
    and dec :: "bytes \<Rightarrow> 'a pd_result"
    and ok :: "'a \<Rightarrow> bool"
  assumes exact: "dec bs = Ok v \<longleftrightarrow> ok v \<and> bs = enc v"
begin

lemma roundtrip: "ok v \<Longrightarrow> dec (enc v) = Ok v"
  by (simp add: exact)

lemma injective: "ok v \<Longrightarrow> ok w \<Longrightarrow> enc v = enc w \<Longrightarrow> v = w"
  by (metis exact result.inject(1))

lemma opt_roundtrip: "(case o' of None \<Rightarrow> True | Some v \<Rightarrow> ok v) \<Longrightarrow>
    (case map_option enc o' of None \<Rightarrow> Ok None | Some b \<Rightarrow> ok_then (dec b) (\<lambda>v. Ok (Some v))) = (Ok o' :: 'a option pd_result)"
  by (cases o') (simp_all add: roundtrip)

end

lemma pd_field_Ok [simp]: "pd_field what r = Ok x \<longleftrightarrow> r = Ok x"
  by (cases r) auto

lemma rd_Ok: "rd what dec rest k = Ok y \<longleftrightarrow> (\<exists>x r. dec rest = Ok (x, r) \<and> k x r = Ok y)"
  by (auto simp: rd_def ok_then_Ok)

lemma rd_simps [simp]: "dec rest = Ok (x, r) \<Longrightarrow> rd what dec rest k = k x r"
  by (simp add: rd_def)

lemma rec_open_Ok: "rec_open what bs = Ok r \<longleftrightarrow> bs = rec_start @ r"
  by (auto simp: rec_open_def rec_start_def ok_then_Ok dec_field_Ok split: if_splits)

lemma rec_close_Ok: "rec_close what r = Ok u \<longleftrightarrow> r = []"
  by (auto simp: rec_close_def dec_finish_def)

lemma rec_simps [simp]: "rec_open what (rec_start @ r) = Ok r" "rec_close what [] = Ok ()"
  by (simp_all add: rec_open_Ok rec_close_Ok)

lemma dec_whole [simp]:
  "dec_u8 f (enc_u8 b) = Ok (b, [])" "v \<le> u64_max \<Longrightarrow> dec_varint f (enc_varint v) = Ok (v, [])"
  "length bs \<le> u64_max \<Longrightarrow> dec_bytes f (enc_bytes bs) = Ok (bs, [])" "v \<le> u64_max \<Longrightarrow> dec_u64 f (enc_u64 v) = Ok (v, [])"
  using dec_field_simps [where r = "[]"] by simp_all

lemma some_Ok: "(case r of None \<Rightarrow> Err e | Some x \<Rightarrow> f x) = Ok y \<longleftrightarrow> (\<exists>x. r = Some x \<and> f x = Ok y)"
  by (cases r) auto

lemmas rec_exact = rd_Ok some_Ok rec_open_Ok rec_close_Ok ok_then_Ok dec_field_Ok dec_count_Ok

definition cluster_sized :: "cluster_record \<Rightarrow> bool" where
  "cluster_sized c \<longleftrightarrow> 0 < cl_cluster_id c \<and> cl_cluster_id c \<le> u64_max \<and> cl_first_region_id c \<le> u64_max \<and> cl_created_ms c \<le> u64_max"

lemma exact_recordI:
  assumes "\<And>bs v. dec bs = Ok v \<Longrightarrow> ok v \<and> bs = enc v" "\<And>v. ok v \<Longrightarrow> dec (enc v) = Ok v"
  shows "exact_record enc dec ok"
  by unfold_locales (use assms in blast)

lemma exact_codecI:
  assumes "\<And>bs v r. dec bs = Ok (v, r) \<Longrightarrow> ok v \<and> bs = enc v @ r" "\<And>v r. ok v \<Longrightarrow> dec (enc v @ r) = Ok (v, r)"
    "\<And>v. ok v \<Longrightarrow> enc v \<noteq> []"
  shows "exact_codec enc dec ok"
  by unfold_locales (use assms in blast)+

interpretation cluster_format: exact_record cluster_encode cluster_decode cluster_sized
  by (rule exact_recordI)
    ((auto simp: cluster_decode_def cluster_encode_def cluster_sized_def rec_exact Let_def split: if_splits)[1],
     simp add: cluster_decode_def cluster_encode_def cluster_sized_def)

interpretation alloc_format: exact_record alloc_record_encode alloc_record_decode "\<lambda>a. ar_allocated_end a \<le> u64_max"
  by (rule exact_recordI)
    ((auto simp: alloc_record_decode_def alloc_record_encode_def rec_exact Let_def)[1],
     simp add: alloc_record_decode_def alloc_record_encode_def)

interpretation tso_format: exact_record tso_record_encode tso_record_decode "\<lambda>t. tr_high_water_ms t \<le> u64_max"
  by (rule exact_recordI)
    ((auto simp: tso_record_decode_def tso_record_encode_def rec_exact Let_def)[1],
     simp add: tso_record_decode_def tso_record_encode_def)

interpretation range_format: exact_record encode_range_entry decode_range_entry "\<lambda>i. i \<le> u64_max"
  by (rule exact_recordI)
    ((auto simp: decode_range_entry_def encode_range_entry_def rec_exact Let_def)[1],
     simp add: decode_range_entry_def encode_range_entry_def)

definition stats_sized :: "store_stats \<Rightarrow> bool" where
  "stats_sized s \<longleftrightarrow> ss_capacity s \<le> u64_max \<and> ss_available s \<le> u64_max \<and> ss_region_count s \<le> u64_max
     \<and> ss_leader_count s \<le> u64_max \<and> ss_applied_bytes s \<le> u64_max"

definition str_sized :: "bytes \<Rightarrow> bool" where
  "str_sized a \<longleftrightarrow> utf8_valid a \<and> length a \<le> u64_max"

definition store_sized :: "store_record \<Rightarrow> bool" where
  "store_sized s \<longleftrightarrow> sr_store_id s \<le> u64_max \<and> str_sized (sr_address s) \<and> sr_started_ms s \<le> u64_max
     \<and> sr_last_heartbeat_ms s \<le> u64_max \<and> stats_sized (sr_stats s)"

lemmas store_sized_defs = store_sized_def str_sized_def stats_sized_def

interpretation store_format: exact_record store_encode store_decode store_sized
  by (rule exact_recordI)
    ((auto simp: store_decode_def store_encode_def stats_encode_def store_sized_defs rec_exact Let_def)[1],
     simp add: store_decode_def store_encode_def stats_encode_def store_sized_defs)

definition wish_sized :: "columnar_wish \<Rightarrow> bool" where
  "wish_sized w \<longleftrightarrow> length (cw_start_key w) \<le> u64_max \<and> length (cw_end_key w) \<le> u64_max"

interpretation wish_codec: exact_codec wish_encode "wish_decode what" wish_sized for what
  by (rule exact_codecI)
    ((auto simp: wish_decode_def wish_encode_def wish_sized_def rec_exact)[1],
     simp_all add: wish_decode_def wish_encode_def wish_sized_def)

definition event_sized :: "operator_event \<Rightarrow> bool" where
  "event_sized e \<longleftrightarrow> oe_at_ms e \<le> u64_max \<and> oe_region_id e \<le> u64_max \<and> oe_store_id e \<le> u64_max \<and> oe_peer_id e \<le> u64_max"

lemma event_kind_from_u8_iff: "event_kind_from_u8 b = Some k \<longleftrightarrow> b = event_kind_as_u8 k"
  by (cases k) (auto simp: event_kind_from_u8_def)

lemma event_outcome_from_u8_iff: "event_outcome_from_u8 b = Some k \<longleftrightarrow> b = event_outcome_as_u8 k"
  by (cases k) (auto simp: event_outcome_from_u8_def)

lemma event_bytes [simp]: "event_kind_from_u8 (event_kind_as_u8 k) = Some k" "event_outcome_from_u8 (event_outcome_as_u8 c) = Some c"
  by (simp_all add: event_kind_from_u8_iff event_outcome_from_u8_iff)

interpretation event_codec: exact_codec put_event "get_event what" event_sized for what
  by (rule exact_codecI)
    ((auto simp: get_event_def put_event_def event_sized_def rec_exact event_kind_from_u8_iff event_outcome_from_u8_iff)[1],
     simp_all add: get_event_def put_event_def event_sized_def)

interpretation rec_peer_codec: exact_codec peer_encode "rec_peer_decode what" peer_sized for what
  by (rule exact_codecI)
    ((auto simp: rec_peer_decode_def peer_encode_def peer_sized_def rec_exact role_from_u8_iff)[1],
     simp_all add: rec_peer_decode_def peer_encode_def peer_sized_def)

lemma count_roundtrip:
  assumes "exact_codec enc dec ok" "length vs \<le> u64_max" "\<forall>v \<in> set vs. ok v"
  shows "dec_count f (enc_varint (length vs) @ concat (map enc vs) @ r) = Ok (length vs, concat (map enc vs) @ r)"
    and "dec_repeat dec (length vs) (concat (map enc vs) @ r) = Ok (vs, r)"
  using assms exact_codec.length_le_concat [OF assms(1,3)] exact_codec.repeat_exact [OF assms(1)]
  by (auto simp: dec_count_Ok trans_le_add1)

lemma rec_region_encode_eq: "rec_region_encode r = region_encode r"
  by (simp add: rec_region_encode_def region_encode_def epoch_encode_def peer_encode_def [abs_def])

interpretation rec_region_codec: exact_codec region_encode "rec_region_decode what" region_sized for what
proof (rule exact_codecI)
  fix bs v r
  assume "rec_region_decode what bs = Ok (v, r)"
  then show "region_sized v \<and> bs = region_encode v @ r"
    by (auto simp: rec_region_decode_def region_encode_def epoch_encode_def region_sized_def epoch_sized_def rec_exact
        rec_peer_codec.repeat_exact)
next
  fix v r
  assume v: "region_sized v"
  then show "rec_region_decode what (region_encode v @ r) = Ok (v, r)"
    using count_roundtrip [OF rec_peer_codec.exact_codec_axioms, where vs = "rg_peers v" and r = r]
    by (simp add: rec_region_decode_def region_encode_def epoch_encode_def region_sized_def epoch_sized_def)
qed (simp add: region_encode_def)

definition region_record_sized :: "region_record \<Rightarrow> bool" where
  "region_record_sized r \<longleftrightarrow> region_sized (rr_region r) \<and> rr_leader_peer_id r \<le> u64_max \<and> rr_term r \<le> u64_max
     \<and> rr_approximate_size r \<le> u64_max \<and> rr_applied_index r \<le> u64_max \<and> rr_last_heartbeat_ms r \<le> u64_max"

interpretation region_format: exact_record region_record_encode region_record_decode region_record_sized
  by (rule exact_recordI)
    ((auto simp: region_record_decode_def region_record_encode_def region_record_sized_def rec_exact Let_def
      rec_region_encode_eq rec_region_codec.exact)[1],
     simp add: region_record_decode_def region_record_encode_def region_record_sized_def rec_region_encode_eq
       rec_region_codec.roundtrip)

definition columnar_sized :: "columnar_record \<Rightarrow> bool" where
  "columnar_sized c \<longleftrightarrow> length (cr_wishes c) \<le> u64_max \<and> (\<forall>w \<in> set (cr_wishes c). wish_sized w)"

interpretation columnar_format: exact_record columnar_encode columnar_decode columnar_sized
proof (rule exact_recordI)
  fix bs v
  assume "columnar_decode bs = Ok v"
  then show "columnar_sized v \<and> bs = columnar_encode v"
    by (auto simp: columnar_decode_def columnar_encode_def columnar_sized_def rec_exact Let_def wish_codec.repeat_exact)
next
  fix v
  assume "columnar_sized v"
  then show "columnar_decode (columnar_encode v) = Ok v"
    using count_roundtrip [OF wish_codec.exact_codec_axioms, where vs = "cr_wishes v" and r = "[]"]
    by (simp add: columnar_decode_def columnar_encode_def columnar_sized_def)
qed

definition history_sized :: "history_record \<Rightarrow> bool" where
  "history_sized h \<longleftrightarrow> length (hr_events h) \<le> HISTORY_CAPACITY \<and> (\<forall>e \<in> set (hr_events h). event_sized e)"

interpretation history_format: exact_record history_encode history_decode history_sized
proof (rule exact_recordI)
  fix bs v
  assume "history_decode bs = Ok v"
  then show "history_sized v \<and> bs = history_encode v"
    by (auto simp: history_decode_def history_encode_def history_sized_def rec_exact Let_def event_codec.repeat_exact split: if_splits)
next
  fix v
  assume v: "history_sized v"
  then have "length (hr_events v) \<le> u64_max" by (simp add: history_sized_def HISTORY_CAPACITY_def u64_max_def)
  with v show "history_decode (history_encode v) = Ok v"
    using count_roundtrip [OF event_codec.exact_codec_axioms, where vs = "hr_events v" and r = "[]"]
    by (simp add: history_decode_def history_encode_def history_sized_def)
qed

fun pd_command_sized :: "pd_command \<Rightarrow> bool" where
  "pd_command_sized (PcTakeOffice t n) \<longleftrightarrow> t \<le> u64_max \<and> n \<le> u64_max"
| "pd_command_sized (PcBootstrap s a b c n) \<longleftrightarrow> s \<le> u64_max \<and> str_sized a \<and> b \<le> u64_max \<and> c \<le> u64_max \<and> n \<le> u64_max"
| "pd_command_sized (PcReserveIds e) \<longleftrightarrow> e \<le> u64_max"
| "pd_command_sized (PcAdvanceTso m) \<longleftrightarrow> m \<le> u64_max"
| "pd_command_sized (PcStoreBeat s st n) \<longleftrightarrow> s \<le> u64_max \<and> stats_sized st \<and> n \<le> u64_max"
| "pd_command_sized (PcRegionBeat r) \<longleftrightarrow> region_record_sized r \<and> length (region_record_encode r) \<le> u64_max"
| "pd_command_sized (PcColumnar ws) \<longleftrightarrow> columnar_sized \<lparr>cr_wishes = ws\<rparr> \<and> length (columnar_encode \<lparr>cr_wishes = ws\<rparr>) \<le> u64_max"
| "pd_command_sized (PcHistory e) \<longleftrightarrow> event_sized e"

lemma columnar_eta: "\<lparr>cr_wishes = cr_wishes c\<rparr> = c"
  by simp

lemma pd_command_fields_sound:
  "pd_command_fields k bs = Ok (c, r) \<Longrightarrow> pd_command_sized c \<and> enc_u8 k @ bs = pd_command_body c @ r"
  by (auto simp: pd_command_fields_def rec_exact region_format.exact columnar_format.exact event_codec.exact str_sized_def
      stats_sized_def columnar_eta Let_def split: if_splits)

lemma pd_command_complete:
  assumes "pd_command_sized c"
  shows "pd_command_decode (pd_command_encode c) = Ok c"
  using assms event_codec.roundtrip [where r = "[]"]
  by (cases c) (simp_all add: pd_command_decode_def pd_command_encode_def pd_command_fields_def command_kinds
      region_format.roundtrip columnar_format.roundtrip stats_sized_def str_sized_def)

interpretation command_format: exact_record pd_command_encode pd_command_decode pd_command_sized
proof (rule exact_recordI)
  fix bs c
  assume "pd_command_decode bs = Ok c"
  then show "pd_command_sized c \<and> bs = pd_command_encode c"
    using pd_command_fields_sound by (auto simp: pd_command_decode_def pd_command_encode_def rec_exact Let_def split: if_splits)
qed (rule pd_command_complete)


end
