(* ===== verification/PdMachine.thy ===== *)
theory PdMachine
  imports PdRecord TxnSnapshot
begin

text \<open>
  The placement driver's routing table (\<^verbatim>\<open>esker-pd/src/routing.rs\<close>) and its replicated state machine
  (\<^verbatim>\<open>esker-pd/src/machine.rs\<close>) over the engine it keeps its records in. A command is applied by reading the
  engine, moving the in-memory mirrors and staging a batch of writes. What the machine promises is stated
  on a picture of its state as maps of records: applying a command never fails on a well-formed state,
  does to the records what the command says, and leaves mirrors that a restart would read back.
\<close>

section \<open>The engine as the machine sees it\<close>

datatype pd_write = PdPut bytes bytes | PdDelete bytes | PdDeleteRange bytes bytes

definition pd_get :: "engine \<Rightarrow> bytes \<Rightarrow> bytes option pd_result" where
  "pd_get db key = (case en_get db CfDefault key of Ok v \<Rightarrow> Ok v | Err e \<Rightarrow> Err (PdEngine e))"

definition pd_iter :: "engine \<Rightarrow> unit pd_result" where
  "pd_iter db = (case en_iter db CfDefault of Ok _ \<Rightarrow> Ok () | Err e \<Rightarrow> Err (PdEngine e))"

fun pd_status :: "string option \<Rightarrow> unit pd_result" where
  "pd_status None = Ok ()"
| "pd_status (Some e) = Err (PdEngine e)"

text \<open>An engine whose default column family is a table, and writing a batch to the table.\<close>

definition pd_db :: "(bytes, bytes) btree \<Rightarrow> engine" where
  "pd_db D = engine_of (mem_store_new\<lparr>ms_default := D\<rparr>)"

fun pd_write_one :: "(bytes, bytes) btree \<Rightarrow> pd_write \<Rightarrow> (bytes, bytes) btree" where
  "pd_write_one m (PdPut k v) = bt_insert k v m"
| "pd_write_one m (PdDelete k) = bt_remove k m"
| "pd_write_one m (PdDeleteRange a b) = filter (\<lambda>(k, _). \<not> (a \<le> k \<and> k < b)) m"

definition pd_write_all :: "pd_write list \<Rightarrow> (bytes, bytes) btree \<Rightarrow> (bytes, bytes) btree" where
  "pd_write_all ws m = fold (\<lambda>w m. pd_write_one m w) ws m"

section \<open>Routing\<close>

datatype upsert = UpApplied | UpStale

definition accepts :: "region_record \<Rightarrow> epoch \<Rightarrow> u64 \<Rightarrow> bool" where
  "accepts stored ep term =
     (if is_stale_against ep (rg_epoch (rr_region stored)) then False
      else if ep = rg_epoch (rr_region stored) then term \<ge> rr_term stored
      else True)"

definition stage_store :: "pd_write list \<Rightarrow> store_record \<Rightarrow> pd_write list" where
  "stage_store batch rec = batch @ [PdPut (store_key (sr_store_id rec)) (store_encode rec)]"

definition stage_region :: "pd_write list \<Rightarrow> region_record \<Rightarrow> region_record option \<Rightarrow> pd_write list" where
  "stage_region batch rec previous =
     batch
     @ (case previous of
          Some p \<Rightarrow> if rg_end_key (rr_region p) \<noteq> rg_end_key (rr_region rec)
                    then [PdDelete (range_key (rg_end_key (rr_region p)))] else []
        | None \<Rightarrow> [])
     @ [PdPut (region_key (rg_id (rr_region rec))) (region_record_encode rec),
        PdPut (range_key (rg_end_key (rr_region rec))) (encode_range_entry (rg_id (rr_region rec)))]"

definition read_region :: "engine \<Rightarrow> u64 \<Rightarrow> region_record option pd_result" where
  "read_region db i =
     ok_then (pd_get db (region_key i)) (\<lambda>b.
       (case b of None \<Rightarrow> Ok None | Some v \<Rightarrow> ok_then (region_record_decode v) (\<lambda>r. Ok (Some r))))"

definition read_store :: "engine \<Rightarrow> u64 \<Rightarrow> store_record option pd_result" where
  "read_store db i =
     ok_then (pd_get db (store_key i)) (\<lambda>b.
       (case b of None \<Rightarrow> Ok None | Some v \<Rightarrow> ok_then (store_decode v) (\<lambda>s. Ok (Some s))))"

definition pd_lookup :: "engine \<Rightarrow> bytes \<Rightarrow> region_record option pd_result" where
  "pd_lookup db key =
     ok_then (pd_iter db) (\<lambda>_.
     (let (es, st) = en_seek db CfDefault (range_seek_key key) in
      case es of
        [] \<Rightarrow> ok_then (pd_status (st 0)) (\<lambda>_. Ok None)
      | (k, v) # _ \<Rightarrow>
          if \<not> starts_with (kind_prefix KEY_RANGE) k then Ok None
          else ok_then (decode_range_entry v) (\<lambda>i.
            ok_then (pd_status (st 0)) (\<lambda>_.
            ok_then (read_region db i) (\<lambda>r.
              (case r of
                 None \<Rightarrow> Ok None
               | Some rec \<Rightarrow> if \<not> region_contains (rr_region rec) key then Ok None else Ok (Some rec)))))))"

fun scan_ranges_loop :: "engine \<Rightarrow> nat \<Rightarrow> (bytes \<times> bytes) list \<Rightarrow> (nat \<Rightarrow> string option) \<Rightarrow> region_record list \<Rightarrow> region_record list pd_result" where
  "scan_ranges_loop db limit [] st out = ok_then (pd_status (st 0)) (\<lambda>_. Ok out)"
| "scan_ranges_loop db limit ((k, v) # es) st out =
     (if starts_with (kind_prefix KEY_RANGE) k \<and> length out < limit
      then ok_then (decode_range_entry v) (\<lambda>i.
           ok_then (read_region db i) (\<lambda>r.
             scan_ranges_loop db limit es (\<lambda>i. st (Suc i)) (case r of Some rec \<Rightarrow> out @ [rec] | None \<Rightarrow> out)))
      else ok_then (pd_status (st 0)) (\<lambda>_. Ok out))"

definition scan_ranges :: "engine \<Rightarrow> bytes \<Rightarrow> nat \<Rightarrow> region_record list pd_result" where
  "scan_ranges db start_key limit =
     (if limit = 0 then Ok []
      else ok_then (pd_iter db) (\<lambda>_.
        let (es, st) = en_seek db CfDefault (range_seek_key start_key) in scan_ranges_loop db limit es st []))"

fun pd_scan_loop ::
  "(bytes \<times> bytes \<Rightarrow> 'a pd_result) \<Rightarrow> bytes \<Rightarrow> (bytes \<times> bytes) list \<Rightarrow> (nat \<Rightarrow> string option) \<Rightarrow> 'a list \<Rightarrow> 'a list pd_result" where
  "pd_scan_loop visit pre [] st out = ok_then (pd_status (st 0)) (\<lambda>_. Ok out)"
| "pd_scan_loop visit pre (e # es) st out =
     (if starts_with pre (fst e)
      then ok_then (visit e) (\<lambda>x. pd_scan_loop visit pre es (\<lambda>i. st (Suc i)) (out @ [x]))
      else ok_then (pd_status (st 0)) (\<lambda>_. Ok out))"

definition pd_scan :: "engine \<Rightarrow> byte \<Rightarrow> (bytes \<times> bytes \<Rightarrow> 'a pd_result) \<Rightarrow> 'a list pd_result" where
  "pd_scan db k visit =
     ok_then (pd_iter db) (\<lambda>_.
       let (es, st) = en_seek db CfDefault (kind_prefix k) in pd_scan_loop visit (kind_prefix k) es st [])"

definition range_index :: "engine \<Rightarrow> (bytes \<times> u64) list pd_result" where
  "range_index db =
     pd_scan db KEY_RANGE (\<lambda>(k, v).
       let end_key = (case end_key_in_range_key k of Some (Some e) \<Rightarrow> e | _ \<Rightarrow> [])
       in ok_then (decode_range_entry v) (\<lambda>i. Ok (end_key, i)))"

definition pd_regions :: "engine \<Rightarrow> region_record list pd_result" where
  "pd_regions db = pd_scan db KEY_REGION (\<lambda>(_, v). region_record_decode v)"

definition pd_stores :: "engine \<Rightarrow> store_record list pd_result" where
  "pd_stores db = pd_scan db KEY_STORE (\<lambda>(_, v). store_decode v)"

definition store_is_down :: "store_record \<Rightarrow> u64 \<Rightarrow> u64 \<Rightarrow> bool" where
  "store_is_down s now_ms max_down_ms \<longleftrightarrow> now_ms - sr_last_heartbeat_ms s > max_down_ms"

definition down_stores :: "store_record list \<Rightarrow> u64 \<Rightarrow> u64 \<Rightarrow> u64 list" where
  "down_stores ss now_ms max_down_ms = map sr_store_id (filter (\<lambda>s. store_is_down s now_ms max_down_ms) ss)"

section \<open>The state machine\<close>

record bootstrapped =
  bo_cluster_id :: u64
  bo_region :: "region option"

datatype pd_answer = AnDone | AnBootstrapped bootstrapped | AnUpserted upsert

record applied_state =
  ap_cluster :: "cluster_record option"
  ap_allocated_end :: u64
  ap_high_water_ms :: u64
  ap_history :: history_record
  ap_columnar :: columnar_record

text \<open>A read of a single record, with its default.\<close>

definition load_one :: "engine \<Rightarrow> bytes \<Rightarrow> (bytes \<Rightarrow> 'a pd_result) \<Rightarrow> 'a option pd_result" where
  "load_one db key dec =
     ok_then (pd_get db key) (\<lambda>b. (case b of None \<Rightarrow> Ok None | Some v \<Rightarrow> ok_then (dec v) (\<lambda>x. Ok (Some x))))"

definition machine_load :: "engine \<Rightarrow> applied_state pd_result" where
  "machine_load db =
     ok_then (load_one db cluster_key cluster_decode) (\<lambda>cl.
     ok_then (load_one db alloc_key alloc_record_decode) (\<lambda>al.
     ok_then (load_one db tso_key tso_record_decode) (\<lambda>ts.
     ok_then (load_one db history_key history_decode) (\<lambda>hi.
     ok_then (load_one db columnar_key columnar_decode) (\<lambda>co.
       Ok \<lparr>ap_cluster = cl,
           ap_allocated_end = (case al of None \<Rightarrow> 0 | Some r \<Rightarrow> ar_allocated_end r),
           ap_high_water_ms = (case ts of None \<Rightarrow> 0 | Some r \<Rightarrow> tr_high_water_ms r),
           ap_history = (case hi of None \<Rightarrow> \<lparr>hr_events = []\<rparr> | Some r \<Rightarrow> r),
           ap_columnar = (case co of None \<Rightarrow> \<lparr>cr_wishes = []\<rparr> | Some r \<Rightarrow> r)\<rparr>)))))"

definition machine_store_record :: "engine \<Rightarrow> u64 \<Rightarrow> bytes \<Rightarrow> u64 \<Rightarrow> store_record pd_result" where
  "machine_store_record db store_id address now_ms =
     ok_then (read_store db store_id) (\<lambda>existing.
       Ok \<lparr>sr_store_id = store_id, sr_address = address, sr_started_ms = now_ms, sr_last_heartbeat_ms = now_ms,
           sr_stats = (case existing of
                         Some s \<Rightarrow> sr_stats s
                       | None \<Rightarrow> \<lparr>ss_capacity = 0, ss_available = 0, ss_region_count = 0, ss_leader_count = 0, ss_applied_bytes = 0\<rparr>)\<rparr>)"

definition machine_bootstrap ::
  "engine \<Rightarrow> applied_state \<times> pd_write list \<Rightarrow> u64 \<Rightarrow> bytes \<Rightarrow> u64 \<Rightarrow> u64 \<Rightarrow> u64 \<Rightarrow> (applied_state \<times> pd_write list) \<times> pd_answer pd_result" where
  "machine_bootstrap db s store_id address base_id cluster_id now_ms =
     (let (st, batch) = s in
      try_read s (machine_store_record db store_id address now_ms) (\<lambda>store.
        (case ap_cluster st of
           Some cluster \<Rightarrow>
             ((st, stage_store batch store), Ok (AnBootstrapped \<lparr>bo_cluster_id = cl_cluster_id cluster, bo_region = None\<rparr>))
         | None \<Rightarrow>
             let r = region_bootstrap base_id store_id (u64_add base_id 1);
                 cluster = \<lparr>cl_cluster_id = cluster_id, cl_first_region_id = rg_id r, cl_created_ms = now_ms\<rparr>;
                 batch = batch @ [PdPut cluster_key (cluster_encode cluster)];
                 batch = stage_store batch store;
                 batch = stage_region batch (region_record_new r now_ms) None
             in ((st\<lparr>ap_cluster := Some cluster\<rparr>, batch),
                 Ok (AnBootstrapped \<lparr>bo_cluster_id = cluster_id, bo_region = Some r\<rparr>)))))"

definition machine_apply ::
  "engine \<Rightarrow> applied_state \<times> pd_write list \<Rightarrow> pd_command \<Rightarrow> (applied_state \<times> pd_write list) \<times> pd_answer pd_result" where
  "machine_apply db s c =
     (let (st, batch) = s in
      case c of
        PcTakeOffice _ _ \<Rightarrow> (s, Ok AnDone)
      | PcBootstrap store_id address base_id cluster_id now_ms \<Rightarrow>
          machine_bootstrap db s store_id address base_id cluster_id now_ms
      | PcReserveIds e \<Rightarrow>
          let v = max (ap_allocated_end st) e
          in ((st\<lparr>ap_allocated_end := v\<rparr>, batch @ [PdPut alloc_key (alloc_record_encode \<lparr>ar_allocated_end = v\<rparr>)]), Ok AnDone)
      | PcAdvanceTso mark \<Rightarrow>
          let v = max (ap_high_water_ms st) mark
          in ((st\<lparr>ap_high_water_ms := v\<rparr>, batch @ [PdPut tso_key (tso_record_encode \<lparr>tr_high_water_ms = v\<rparr>)]), Ok AnDone)
      | PcStoreBeat store_id stats now_ms \<Rightarrow>
          try_read s (read_store db store_id) (\<lambda>existing.
            (case existing of
               None \<Rightarrow> (s, Ok AnDone)
             | Some rec \<Rightarrow>
                 ((st, stage_store batch (rec\<lparr>sr_stats := stats, sr_last_heartbeat_ms := now_ms\<rparr>)), Ok AnDone)))
      | PcRegionBeat rec \<Rightarrow>
          try_read s (read_region db (rg_id (rr_region rec))) (\<lambda>previous.
            if (case previous of None \<Rightarrow> False | Some held \<Rightarrow> \<not> accepts held (rg_epoch (rr_region rec)) (rr_term rec))
            then (s, Ok (AnUpserted UpStale))
            else ((st, stage_region batch rec previous), Ok (AnUpserted UpApplied)))
      | PcColumnar wishes \<Rightarrow>
          let v = \<lparr>cr_wishes = wishes\<rparr>
          in ((st\<lparr>ap_columnar := v\<rparr>, batch @ [PdPut columnar_key (columnar_encode v)]), Ok AnDone)
      | PcHistory event \<Rightarrow>
          let v = history_push (ap_history st) event
          in ((st\<lparr>ap_history := v\<rparr>, batch @ [PdPut history_key (history_encode v)]), Ok AnDone))"

text \<open>One committed command applied by itself, in a batch of its own; and, when a round has no message to
  send, every committed command of the round staged into one batch before any of it is written.\<close>

definition pd_apply_one ::
  "(bytes, bytes) btree \<times> applied_state \<Rightarrow> pd_command \<Rightarrow> ((bytes, bytes) btree \<times> applied_state) \<times> pd_answer pd_result" where
  "pd_apply_one s c =
     (let (D, st) = s; ((st, batch), r) = machine_apply (pd_db D) (st, []) c
      in ((pd_write_all batch D, st), r))"

fun pd_apply_each ::
  "(bytes, bytes) btree \<times> applied_state \<Rightarrow> pd_command list \<Rightarrow> ((bytes, bytes) btree \<times> applied_state) \<times> pd_answer pd_result list" where
  "pd_apply_each s [] = (s, [])"
| "pd_apply_each s (c # cs) =
     (let (s, r) = pd_apply_one s c; (s, rs) = pd_apply_each s cs in (s, r # rs))"

fun stage_each :: "engine \<Rightarrow> applied_state \<times> pd_write list \<Rightarrow> pd_command list \<Rightarrow> (applied_state \<times> pd_write list) \<times> pd_answer pd_result list" where
  "stage_each db s [] = (s, [])"
| "stage_each db s (c # cs) =
     (let (s, r) = machine_apply db s c; (s, rs) = stage_each db s cs in (s, r # rs))"

definition pd_apply_folded ::
  "(bytes, bytes) btree \<times> applied_state \<Rightarrow> pd_command list \<Rightarrow> ((bytes, bytes) btree \<times> applied_state) \<times> pd_answer pd_result list" where
  "pd_apply_folded s cs =
     (let (D, st) = s; ((st, batch), rs) = stage_each (pd_db D) (st, []) cs
      in ((pd_write_all batch D, st), rs))"

definition PD_SNAPSHOT_VERSION :: byte where
  "PD_SNAPSHOT_VERSION = 1"

definition pair_encode :: "bytes \<times> bytes \<Rightarrow> bytes" where
  "pair_encode e = enc_bytes (fst e) @ enc_bytes (snd e)"

definition machine_snapshot :: "engine \<Rightarrow> bytes pd_result" where
  "machine_snapshot db =
     ok_then (pd_iter db) (\<lambda>_.
     (let (es, st) = en_seek db CfDefault [] in
      ok_then (pd_status (st (length es))) (\<lambda>_.
        Ok (enc_u8 PD_SNAPSHOT_VERSION @ enc_varint (length es) @ enc_bytes (concat (map pair_encode es))))))"

fun install_pairs :: "nat \<Rightarrow> bytes \<Rightarrow> pd_write list \<Rightarrow> pd_write list \<times> bytes pd_result" where
  "install_pairs 0 rest batch = (batch, Ok rest)"
| "install_pairs (Suc n) rest batch =
     try_read batch (pd_field ''pd snapshot'' (dec_bytes ''snapshot.key'' rest)) (\<lambda>(k, rest).
     try_read batch (pd_field ''pd snapshot'' (dec_bytes ''snapshot.value'' rest)) (\<lambda>(v, rest).
       install_pairs n rest (batch @ [PdPut k v])))"

definition machine_install :: "bytes \<Rightarrow> pd_write list \<Rightarrow> pd_write list \<times> unit pd_result" where
  "machine_install data batch =
     (let what = ''pd snapshot'' in
      try_read batch (pd_field what (dec_u8 ''snapshot.version'' data)) (\<lambda>(v, rest).
      if v \<noteq> PD_SNAPSHOT_VERSION then (batch, Err (PdCorrupt what (PdVersion v)))
      else
        try_read batch (pd_field what (dec_count ''snapshot.count'' rest)) (\<lambda>(n, rest).
        try_read batch (pd_field what (dec_bytes ''snapshot.pairs'' rest)) (\<lambda>(body, rest).
        try_read batch (rec_close what rest) (\<lambda>_.
          case install_pairs n body (batch @ [PdDeleteRange [PD_PREFIX] [PD_PREFIX + 1]]) of
            (batch, Err e) \<Rightarrow> (batch, Err e)
          | (batch, Ok rest) \<Rightarrow> (batch, rec_close what rest))))))"

definition machine_reload :: "engine \<Rightarrow> applied_state \<Rightarrow> applied_state \<times> unit pd_result" where
  "machine_reload db st = (case machine_load db of Ok fresh \<Rightarrow> (fresh, Ok ()) | Err e \<Rightarrow> (st, Err e))"

record store_info =
  si_store_id :: u64
  si_address :: bytes

fun stores_for_loop :: "engine \<Rightarrow> region_peer list \<Rightarrow> store_info list \<Rightarrow> store_info list pd_result" where
  "stores_for_loop db [] out = Ok out"
| "stores_for_loop db (p # ps) out =
     ok_then (read_store db (pe_store_id p)) (\<lambda>s.
       stores_for_loop db ps
         (case s of Some st \<Rightarrow> out @ [\<lparr>si_store_id = sr_store_id st, si_address = sr_address st\<rparr>] | None \<Rightarrow> out))"

definition stores_for :: "engine \<Rightarrow> region \<Rightarrow> store_info list pd_result" where
  "stores_for db r = stores_for_loop db (rg_peers r) []"

section \<open>The picture of the records\<close>

text \<open>What the records say, as maps: the mirrors, the stores and regions by id, and the range index by end
  key. A table holds exactly a picture when every key it has is one of the machine's and each key holds the
  encoding of what the picture says.\<close>

record pd_image =
  im_applied :: applied_state
  im_stores :: "u64 \<rightharpoonup> store_record"
  im_regions :: "u64 \<rightharpoonup> region_record"
  im_ranges :: "bytes \<rightharpoonup> u64"

definition pd_key :: "bytes \<Rightarrow> bool" where
  "pd_key k \<longleftrightarrow> k \<in> {cluster_key, alloc_key, history_key, columnar_key, tso_key}
     \<or> (\<exists>i \<le> u64_max. k = store_key i) \<or> (\<exists>i \<le> u64_max. k = region_key i) \<or> (\<exists>e. k = range_key e)"

definition single_holds :: "bytes option \<Rightarrow> ('a \<Rightarrow> bytes) \<Rightarrow> 'a \<Rightarrow> 'a \<Rightarrow> bool" where
  "single_holds b enc dflt x \<longleftrightarrow> b = Some (enc x) \<or> b = None \<and> x = dflt"

definition holds_singles :: "(bytes \<rightharpoonup> bytes) \<Rightarrow> applied_state \<Rightarrow> bool" where
  "holds_singles f a \<longleftrightarrow>
     f cluster_key = map_option cluster_encode (ap_cluster a)
     \<and> single_holds (f alloc_key) alloc_record_encode \<lparr>ar_allocated_end = 0\<rparr> \<lparr>ar_allocated_end = ap_allocated_end a\<rparr>
     \<and> single_holds (f tso_key) tso_record_encode \<lparr>tr_high_water_ms = 0\<rparr> \<lparr>tr_high_water_ms = ap_high_water_ms a\<rparr>
     \<and> single_holds (f history_key) history_encode \<lparr>hr_events = []\<rparr> (ap_history a)
     \<and> single_holds (f columnar_key) columnar_encode \<lparr>cr_wishes = []\<rparr> (ap_columnar a)"

definition holds :: "(bytes, bytes) btree \<Rightarrow> pd_image \<Rightarrow> bool" where
  "holds D im \<longleftrightarrow> bt_ok D \<and> (\<forall>e \<in> set D. pd_key (fst e))
     \<and> holds_singles (map_of D) (im_applied im)
     \<and> (\<forall>i \<le> u64_max. map_of D (store_key i) = map_option store_encode (im_stores im i))
     \<and> (\<forall>i \<le> u64_max. map_of D (region_key i) = map_option region_record_encode (im_regions im i))
     \<and> (\<forall>e. map_of D (range_key e) = map_option encode_range_entry (im_ranges im e))"

definition applied_ok :: "applied_state \<Rightarrow> bool" where
  "applied_ok a \<longleftrightarrow> (\<forall>c. ap_cluster a = Some c \<longrightarrow> cluster_sized c) \<and> ap_allocated_end a \<le> u64_max
     \<and> ap_high_water_ms a \<le> u64_max \<and> history_sized (ap_history a) \<and> columnar_sized (ap_columnar a)"

definition image_ok :: "pd_image \<Rightarrow> bool" where
  "image_ok im \<longleftrightarrow> applied_ok (im_applied im)
     \<and> (\<forall>i s. im_stores im i = Some s \<longrightarrow> store_sized s \<and> sr_store_id s = i)
     \<and> (\<forall>i r. im_regions im i = Some r \<longrightarrow> region_record_sized r \<and> rg_id (rr_region r) = i)
     \<and> (\<forall>e i. im_ranges im e = Some i \<longrightarrow> i \<le> u64_max)"

definition image_empty :: pd_image where
  "image_empty =
     \<lparr>im_applied = \<lparr>ap_cluster = None, ap_allocated_end = 0, ap_high_water_ms = 0, ap_history = \<lparr>hr_events = []\<rparr>,
        ap_columnar = \<lparr>cr_wishes = []\<rparr>\<rparr>,
      im_stores = Map.empty, im_regions = Map.empty, im_ranges = Map.empty\<rparr>"

subsection \<open>What a command does to the picture\<close>

definition image_put_region :: "pd_image \<Rightarrow> region_record \<Rightarrow> pd_image" where
  "image_put_region im r =
     (let i = rg_id (rr_region r); e = rg_end_key (rr_region r);
          moved = (case im_regions im i of
                     Some p \<Rightarrow> (im_ranges im)(rg_end_key (rr_region p) := None)
                   | None \<Rightarrow> im_ranges im)
      in im\<lparr>im_regions := (im_regions im)(i \<mapsto> r), im_ranges := moved(e \<mapsto> i)\<rparr>)"

definition image_register :: "pd_image \<Rightarrow> u64 \<Rightarrow> bytes \<Rightarrow> u64 \<Rightarrow> pd_image" where
  "image_register im s a n =
     im\<lparr>im_stores := (im_stores im)(s \<mapsto>
       \<lparr>sr_store_id = s, sr_address = a, sr_started_ms = n, sr_last_heartbeat_ms = n,
        sr_stats = (case im_stores im s of Some old \<Rightarrow> sr_stats old | None \<Rightarrow> \<lparr>ss_capacity = 0, ss_available = 0,
          ss_region_count = 0, ss_leader_count = 0, ss_applied_bytes = 0\<rparr>)\<rparr>)\<rparr>"

definition image_applied :: "(applied_state \<Rightarrow> applied_state) \<Rightarrow> pd_image \<Rightarrow> pd_image" where
  "image_applied f im = im\<lparr>im_applied := f (im_applied im)\<rparr>"

text \<open>The first \<^verbatim>\<open>Bootstrap\<close> makes the cluster and its one region; the region is staged as new, whatever the
  table holds under its id.\<close>

fun image_step :: "pd_image \<Rightarrow> pd_command \<Rightarrow> pd_image \<times> pd_answer" where
  "image_step im (PcTakeOffice t n) = (im, AnDone)"
| "image_step im (PcBootstrap s a b c n) =
     (case ap_cluster (im_applied im) of
        Some cl \<Rightarrow> (image_register im s a n, AnBootstrapped \<lparr>bo_cluster_id = cl_cluster_id cl, bo_region = None\<rparr>)
      | None \<Rightarrow>
          let r = region_bootstrap b s (u64_add b 1);
              im = image_applied (ap_cluster_update (\<lambda>_. Some \<lparr>cl_cluster_id = c, cl_first_region_id = b, cl_created_ms = n\<rparr>)) im;
              im = image_register im s a n
          in (im\<lparr>im_regions := (im_regions im)(b \<mapsto> region_record_new r n), im_ranges := (im_ranges im)([] \<mapsto> b)\<rparr>,
              AnBootstrapped \<lparr>bo_cluster_id = c, bo_region = Some r\<rparr>))"
| "image_step im (PcReserveIds e) = (image_applied (ap_allocated_end_update (\<lambda>v. max v e)) im, AnDone)"
| "image_step im (PcAdvanceTso m) = (image_applied (ap_high_water_ms_update (\<lambda>v. max v m)) im, AnDone)"
| "image_step im (PcStoreBeat s stats n) =
     (case im_stores im s of
        None \<Rightarrow> (im, AnDone)
      | Some old \<Rightarrow> (im\<lparr>im_stores := (im_stores im)(s \<mapsto> old\<lparr>sr_stats := stats, sr_last_heartbeat_ms := n\<rparr>)\<rparr>, AnDone))"
| "image_step im (PcRegionBeat r) =
     (case im_regions im (rg_id (rr_region r)) of
        Some held \<Rightarrow>
          if accepts held (rg_epoch (rr_region r)) (rr_term r) then (image_put_region im r, AnUpserted UpApplied)
          else (im, AnUpserted UpStale)
      | None \<Rightarrow> (image_put_region im r, AnUpserted UpApplied))"
| "image_step im (PcColumnar ws) = (image_applied (ap_columnar_update (\<lambda>_. \<lparr>cr_wishes = ws\<rparr>)) im, AnDone)"
| "image_step im (PcHistory e) = (image_applied (ap_history_update (\<lambda>h. history_push h e)) im, AnDone)"

subsection \<open>Keys do not collide\<close>

lemma id_key_inj: "i \<le> u64_max \<Longrightarrow> j \<le> u64_max \<Longrightarrow> id_key k i = id_key k' j \<longleftrightarrow> k = k' \<and> i = j"
  by (auto simp: id_key_def) (metis of_le_bytes_u64)

lemma id_key_not_single [simp]: "id_key k i \<noteq> [a, b]" "[a, b] \<noteq> id_key k i"
  by (auto simp: id_key_def dest: arg_cong [of _ _ length])

lemma range_key_inj [simp]: "range_key a = range_key b \<longleftrightarrow> a = b"
  by (auto simp: range_key_def key_bytes)

lemma range_key_not_single [simp]: "range_key e \<noteq> [a, b]" "[a, b] \<noteq> range_key e"
  by (auto simp: range_key_def)

lemma range_key_not_id [simp]:
  "range_key e \<noteq> store_key i" "store_key i \<noteq> range_key e" "range_key e \<noteq> region_key i" "region_key i \<noteq> range_key e"
  "region_key i \<noteq> store_key j" "store_key i \<noteq> region_key j"
  by (auto simp: range_key_def id_key_def store_key_def region_key_def key_bytes)

lemma id_keys_inj [simp]:
  "i \<le> u64_max \<Longrightarrow> j \<le> u64_max \<Longrightarrow> store_key i = store_key j \<longleftrightarrow> i = j"
  "i \<le> u64_max \<Longrightarrow> j \<le> u64_max \<Longrightarrow> region_key i = region_key j \<longleftrightarrow> i = j"
  by (simp_all add: store_key_def region_key_def id_key_inj)

lemma single_keys_apart [simp]:
  "cluster_key \<noteq> alloc_key" "cluster_key \<noteq> history_key" "cluster_key \<noteq> columnar_key" "cluster_key \<noteq> tso_key"
  "alloc_key \<noteq> cluster_key" "alloc_key \<noteq> history_key" "alloc_key \<noteq> columnar_key" "alloc_key \<noteq> tso_key"
  "history_key \<noteq> cluster_key" "history_key \<noteq> alloc_key" "history_key \<noteq> columnar_key" "history_key \<noteq> tso_key"
  "columnar_key \<noteq> cluster_key" "columnar_key \<noteq> alloc_key" "columnar_key \<noteq> history_key" "columnar_key \<noteq> tso_key"
  "tso_key \<noteq> cluster_key" "tso_key \<noteq> alloc_key" "tso_key \<noteq> history_key" "tso_key \<noteq> columnar_key"
  by (simp_all add: single_keys key_bytes)

lemma single_not_id [simp]:
  "store_key i \<noteq> cluster_key" "store_key i \<noteq> alloc_key" "store_key i \<noteq> history_key" "store_key i \<noteq> columnar_key"
  "store_key i \<noteq> tso_key" "region_key i \<noteq> cluster_key" "region_key i \<noteq> alloc_key" "region_key i \<noteq> history_key"
  "region_key i \<noteq> columnar_key" "region_key i \<noteq> tso_key" "range_key e \<noteq> cluster_key" "range_key e \<noteq> alloc_key"
  "range_key e \<noteq> history_key" "range_key e \<noteq> columnar_key" "range_key e \<noteq> tso_key"
  by (simp_all add: store_key_def region_key_def single_keys)

lemmas single_not_id_sym [simp] = single_not_id [symmetric]

subsection \<open>Reading a table that holds a picture\<close>

lemma pd_db_simps [simp]:
  "pd_get (pd_db D) k = Ok (map_of D k)" "pd_iter (pd_db D) = Ok ()"
  "en_seek (pd_db D) CfDefault t = (bt_from t D, \<lambda>_. None)"
  by (simp_all add: pd_db_def pd_get_def pd_iter_def)

lemma load_one_cluster:
  "(\<forall>c. x = Some c \<longrightarrow> cluster_sized c) \<Longrightarrow> map_of D k = map_option cluster_encode x \<Longrightarrow>
    load_one (pd_db D) k cluster_decode = Ok x"
  by (cases x) (auto simp: load_one_def cluster_format.roundtrip)

lemma load_one_single:
  assumes "exact_record enc dec ok" "ok x" "single_holds (map_of D k) enc dflt x"
  obtains r where "load_one (pd_db D) k dec = Ok r" "(case r of None \<Rightarrow> dflt | Some v \<Rightarrow> v) = x"
  using assms exact_record.roundtrip [OF assms(1,2)] that by (auto simp: load_one_def single_holds_def)

lemma read_store_holds [simp]:
  assumes "holds D im" "image_ok im" "i \<le> u64_max"
  shows "read_store (pd_db D) i = Ok (im_stores im i)"
  using assms store_format.roundtrip by (cases "im_stores im i") (auto simp: read_store_def holds_def image_ok_def)

lemma read_region_holds [simp]:
  assumes "holds D im" "image_ok im" "i \<le> u64_max"
  shows "read_region (pd_db D) i = Ok (im_regions im i)"
  using assms region_format.roundtrip by (cases "im_regions im i") (auto simp: read_region_def holds_def image_ok_def)

lemma load_holds:
  assumes "holds D im" "image_ok im"
  shows "machine_load (pd_db D) = Ok (im_applied im)"
proof -
  let ?a = "im_applied im"
  have h: "holds_singles (map_of D) ?a" and ok: "applied_ok ?a" using assms by (simp_all add: holds_def image_ok_def)
  note hs = h [unfolded holds_singles_def] and oks = ok [unfolded applied_ok_def]
  have cl: "load_one (pd_db D) cluster_key cluster_decode = Ok (ap_cluster ?a)"
    using hs oks by (intro load_one_cluster) simp_all
  obtain al where al: "load_one (pd_db D) alloc_key alloc_record_decode = Ok al"
      "(case al of None \<Rightarrow> \<lparr>ar_allocated_end = 0\<rparr> | Some v \<Rightarrow> v) = \<lparr>ar_allocated_end = ap_allocated_end ?a\<rparr>"
    using hs oks by (auto elim: load_one_single [OF alloc_format.exact_record_axioms, rotated])
  obtain ts where ts: "load_one (pd_db D) tso_key tso_record_decode = Ok ts"
      "(case ts of None \<Rightarrow> \<lparr>tr_high_water_ms = 0\<rparr> | Some v \<Rightarrow> v) = \<lparr>tr_high_water_ms = ap_high_water_ms ?a\<rparr>"
    using hs oks by (auto elim: load_one_single [OF tso_format.exact_record_axioms, rotated])
  obtain hi where hi: "load_one (pd_db D) history_key history_decode = Ok hi"
      "(case hi of None \<Rightarrow> \<lparr>hr_events = []\<rparr> | Some v \<Rightarrow> v) = ap_history ?a"
    using hs oks by (auto elim: load_one_single [OF history_format.exact_record_axioms, rotated])
  obtain co where co: "load_one (pd_db D) columnar_key columnar_decode = Ok co"
      "(case co of None \<Rightarrow> \<lparr>cr_wishes = []\<rparr> | Some v \<Rightarrow> v) = ap_columnar ?a"
    using hs oks by (auto elim: load_one_single [OF columnar_format.exact_record_axioms, rotated])
  have "(case al of None \<Rightarrow> 0 | Some r \<Rightarrow> ar_allocated_end r) = ap_allocated_end ?a" using al(2) by (cases al) auto
  moreover have "(case ts of None \<Rightarrow> 0 | Some r \<Rightarrow> tr_high_water_ms r) = ap_high_water_ms ?a" using ts(2) by (cases ts) auto
  ultimately show ?thesis using cl al(1) ts(1) hi co by (simp add: machine_load_def)
qed

subsection \<open>Writing to a table that holds a picture\<close>

lemma pd_keys [simp]:
  "pd_key cluster_key" "pd_key alloc_key" "pd_key history_key" "pd_key columnar_key" "pd_key tso_key"
  "i \<le> u64_max \<Longrightarrow> pd_key (store_key i)" "i \<le> u64_max \<Longrightarrow> pd_key (region_key i)" "pd_key (range_key e)"
  by (auto simp: pd_key_def)

lemma holds_insert_keys:
  "bt_ok D \<Longrightarrow> (\<forall>e \<in> set (bt_insert k v D). P (fst e)) \<longleftrightarrow> P k \<and> (\<forall>e \<in> set D. fst e \<noteq> k \<longrightarrow> P (fst e))"
  by (auto simp: set_bt_insert)

lemma holds_put_store:
  "holds D im \<Longrightarrow> i \<le> u64_max \<Longrightarrow>
    holds (bt_insert (store_key i) (store_encode s) D) (im\<lparr>im_stores := (im_stores im)(i \<mapsto> s)\<rparr>)"
  by (simp add: holds_def holds_insert_keys holds_singles_def)

lemma holds_put_region:
  "holds D im \<Longrightarrow> i \<le> u64_max \<Longrightarrow>
    holds (bt_insert (region_key i) (region_record_encode r) D) (im\<lparr>im_regions := (im_regions im)(i \<mapsto> r)\<rparr>)"
  by (simp add: holds_def holds_insert_keys holds_singles_def)

lemma holds_put_range:
  "holds D im \<Longrightarrow> holds (bt_insert (range_key e) (encode_range_entry i) D) (im\<lparr>im_ranges := (im_ranges im)(e \<mapsto> i)\<rparr>)"
  by (simp add: holds_def holds_insert_keys holds_singles_def)

lemma holds_remove_range:
  "holds D im \<Longrightarrow> holds (bt_remove (range_key e) D) (im\<lparr>im_ranges := (im_ranges im)(e := None)\<rparr>)"
  by (auto simp: holds_def set_bt_remove holds_singles_def)

lemma holds_put_singles:
  assumes "holds D im"
  shows "holds (bt_insert cluster_key (cluster_encode c) D) (image_applied (ap_cluster_update (\<lambda>_. Some c)) im)"
    "f (ap_allocated_end (im_applied im)) = v \<Longrightarrow>
      holds (bt_insert alloc_key (alloc_record_encode \<lparr>ar_allocated_end = v\<rparr>) D) (image_applied (ap_allocated_end_update f) im)"
    "g (ap_high_water_ms (im_applied im)) = w \<Longrightarrow>
      holds (bt_insert tso_key (tso_record_encode \<lparr>tr_high_water_ms = w\<rparr>) D) (image_applied (ap_high_water_ms_update g) im)"
    "h (ap_history (im_applied im)) = x \<Longrightarrow>
      holds (bt_insert history_key (history_encode x) D) (image_applied (ap_history_update h) im)"
    "holds (bt_insert columnar_key (columnar_encode y) D) (image_applied (ap_columnar_update (\<lambda>_. y)) im)"
  using assms by (simp_all add: holds_def holds_insert_keys holds_singles_def image_applied_def single_holds_def)

section \<open>The machine does what the command says\<close>

text \<open>A command as a log can carry it. The cluster id is minted, and never zero.\<close>

definition pd_command_ok :: "pd_command \<Rightarrow> bool" where
  "pd_command_ok c \<longleftrightarrow> pd_command_sized c \<and> (case c of PcBootstrap _ _ _ cluster_id _ \<Rightarrow> 0 < cluster_id | _ \<Rightarrow> True)"

lemma history_push_sized: "history_sized h \<Longrightarrow> event_sized e \<Longrightarrow> history_sized (history_push h e)"
  by (auto simp: history_sized_def history_push_def HISTORY_CAPACITY_def Let_def dest: in_set_dropD)

lemma pd_write_all_simps [simp]:
  "pd_write_all [] D = D" "pd_write_all (w # ws) D = pd_write_all ws (pd_write_one D w)"
  "pd_write_all (ws @ vs) D = pd_write_all vs (pd_write_all ws D)"
  by (simp_all add: pd_write_all_def)

lemma region_bootstrap_sized: "i \<le> u64_max \<Longrightarrow> s \<le> u64_max \<Longrightarrow> region_sized (region_bootstrap i s (u64_add i 1))"
  by (simp add: region_sized_def region_bootstrap_def epoch_sized_def EPOCH_INITIAL_def peer_sized_def peer_voter_def u64_add_def
      u64_max_def)

lemma image_put_store_ok:
  "image_ok im \<Longrightarrow> store_sized r \<Longrightarrow> sr_store_id r = s \<Longrightarrow> image_ok (im\<lparr>im_stores := (im_stores im)(s \<mapsto> r)\<rparr>)"
  by (simp add: image_ok_def)

lemma image_register_ok:
  "image_ok im \<Longrightarrow> s \<le> u64_max \<Longrightarrow> str_sized a \<Longrightarrow> n \<le> u64_max \<Longrightarrow> image_ok (image_register im s a n)"
  by (auto simp: image_ok_def image_register_def store_sized_def stats_sized_def split: option.splits)

lemma image_put_region_ok: "image_ok im \<Longrightarrow> region_record_sized r \<Longrightarrow> image_ok (image_put_region im r)"
  by (auto simp: image_ok_def image_put_region_def Let_def region_record_sized_def region_sized_def split: option.splits if_splits)

lemma image_new_region_ok:
  "image_ok im \<Longrightarrow> region_record_sized r \<Longrightarrow> rg_id (rr_region r) = i \<Longrightarrow> i \<le> u64_max \<Longrightarrow>
    image_ok (im\<lparr>im_regions := (im_regions im)(i \<mapsto> r), im_ranges := (im_ranges im)(e \<mapsto> i)\<rparr>)"
  by (simp add: image_ok_def)

lemma image_step_ok:
  assumes "image_ok im" "pd_command_ok c" "image_step im c = (im', ans)"
  shows "image_ok im'"
proof (cases c)
  case (PcBootstrap s a b i n)
  let ?im = "image_register (image_applied (ap_cluster_update
    (\<lambda>_. Some \<lparr>cl_cluster_id = i, cl_first_region_id = b, cl_created_ms = n\<rparr>)) im) s a n"
  have sz: "s \<le> u64_max" "str_sized a" "b \<le> u64_max" "i \<le> u64_max" "n \<le> u64_max" "0 < i"
    using assms(2) PcBootstrap by (simp_all add: pd_command_ok_def)
  have "image_ok (image_applied (ap_cluster_update (\<lambda>_. Some \<lparr>cl_cluster_id = i, cl_first_region_id = b, cl_created_ms = n\<rparr>)) im)"
    using assms(1) sz by (simp add: image_ok_def image_applied_def applied_ok_def cluster_sized_def)
  then have "image_ok ?im" using sz by (intro image_register_ok)
  moreover have "region_record_sized (region_record_new (region_bootstrap b s (u64_add b 1)) n)"
    using sz region_bootstrap_sized [of b s] by (simp add: region_record_sized_def region_record_new_def)
  moreover have "rg_id (rr_region (region_record_new (region_bootstrap b s (u64_add b 1)) n)) = b"
    by (simp add: region_record_new_def region_bootstrap_def)
  ultimately show ?thesis using assms(1,3) PcBootstrap sz image_new_region_ok [of ?im _ b]
    by (cases "ap_cluster (im_applied im)") (auto simp: image_register_ok Let_def)
next
  case (PcStoreBeat s stats n)
  show ?thesis
  proof (cases "im_stores im s")
    case (Some old)
    then have "store_sized old" "sr_store_id old = s" using assms(1) by (auto simp: image_ok_def)
    then have "store_sized (old\<lparr>sr_stats := stats, sr_last_heartbeat_ms := n\<rparr>)"
      using assms(2) PcStoreBeat by (simp add: pd_command_ok_def store_sized_def)
    then show ?thesis using assms PcStoreBeat Some \<open>sr_store_id old = s\<close> by (auto intro!: image_put_store_ok)
  qed (use assms PcStoreBeat in simp)
next
  case (PcRegionBeat r)
  then show ?thesis using assms image_put_region_ok [of im r]
    by (auto simp: pd_command_ok_def split: option.splits if_splits)
qed (use assms history_push_sized in \<open>auto simp: image_ok_def image_applied_def applied_ok_def pd_command_ok_def\<close>)

lemma holds_stage_store:
  "holds D im \<Longrightarrow> sr_store_id s \<le> u64_max \<Longrightarrow>
    holds (pd_write_all (stage_store [] s) D) (im\<lparr>im_stores := (im_stores im)(sr_store_id s \<mapsto> s)\<rparr>)"
  by (simp add: stage_store_def holds_put_store)

lemma holds_stage_region:
  assumes "holds D im" "rg_id (rr_region r) \<le> u64_max"
  shows "holds (pd_write_all (stage_region [] r (im_regions im (rg_id (rr_region r)))) D) (image_put_region im r)"
    "holds (pd_write_all (stage_region [] r None) D)
       (im\<lparr>im_regions := (im_regions im)(rg_id (rr_region r) \<mapsto> r),
           im_ranges := (im_ranges im)(rg_end_key (rr_region r) \<mapsto> rg_id (rr_region r))\<rparr>)"
proof -
  let ?i = "rg_id (rr_region r)" and ?e = "rg_end_key (rr_region r)"
  have put: "holds (pd_write_all (stage_region [] r None) D')
      (im'\<lparr>im_regions := (im_regions im')(?i \<mapsto> r), im_ranges := (im_ranges im')(?e \<mapsto> ?i)\<rparr>)" if "holds D' im'" for D' im'
    using holds_put_range [OF holds_put_region [OF that assms(2), of r], of ?e ?i] by (simp add: stage_region_def)
  show "holds (pd_write_all (stage_region [] r None) D)
      (im\<lparr>im_regions := (im_regions im)(?i \<mapsto> r), im_ranges := (im_ranges im)(?e \<mapsto> ?i)\<rparr>)"
    by (rule put [OF assms(1)])
  show "holds (pd_write_all (stage_region [] r (im_regions im ?i)) D) (image_put_region im r)"
  proof (cases "im_regions im ?i")
    case None
    then show ?thesis using put [OF assms(1)] by (simp add: image_put_region_def Let_def)
  next
    case (Some p)
    let ?p = "rg_end_key (rr_region p)"
    show ?thesis
    proof (cases "?p = ?e")
      case True
      then have "stage_region [] r (Some p) = stage_region [] r None" by (simp add: stage_region_def)
      then show ?thesis using put [OF assms(1)] Some True by (simp add: image_put_region_def Let_def)
    next
      case False
      then have "stage_region [] r (Some p) = PdDelete (range_key ?p) # stage_region [] r None" by (simp add: stage_region_def)
      then show ?thesis using put [OF holds_remove_range [OF assms(1), of ?p]] Some by (simp add: image_put_region_def Let_def)
    qed
  qed
qed

definition applies_as :: "(bytes, bytes) btree \<Rightarrow> pd_image \<Rightarrow> pd_command \<Rightarrow> pd_image \<Rightarrow> pd_answer \<Rightarrow> bool" where
  "applies_as D im c im' ans \<longleftrightarrow>
     (\<exists>ws. (\<forall>batch. machine_apply (pd_db D) (im_applied im, batch) c = ((im_applied im', batch @ ws), Ok ans))
        \<and> holds (pd_write_all ws D) im')"

lemma applies_asI:
  assumes "\<And>batch. machine_apply (pd_db D) (im_applied im, batch) c = ((im_applied im', batch @ ws), Ok ans)"
    "holds (pd_write_all ws D) im'"
  shows "applies_as D im c im' ans"
  using assms by (auto simp: applies_as_def)

lemma bootstrap_refines:
  assumes im: "holds D im" "image_ok im" and sz: "pd_command_ok (PcBootstrap s a b i n)"
    and step: "image_step im (PcBootstrap s a b i n) = (im', ans)"
  shows "applies_as D im (PcBootstrap s a b i n) im' ans"
proof -
  have le: "s \<le> u64_max" "b \<le> u64_max" using sz by (simp_all add: pd_command_ok_def)
  let ?s = "\<lparr>sr_store_id = s, sr_address = a, sr_started_ms = n, sr_last_heartbeat_ms = n,
        sr_stats = (case im_stores im s of Some old \<Rightarrow> sr_stats old | None \<Rightarrow> \<lparr>ss_capacity = 0, ss_available = 0,
          ss_region_count = 0, ss_leader_count = 0, ss_applied_bytes = 0\<rparr>)\<rparr>"
  have rec: "machine_store_record (pd_db D) s a n = Ok ?s" using im le by (simp add: machine_store_record_def)
  show ?thesis
  proof (cases "ap_cluster (im_applied im)")
    case (Some cl)
    have "holds (pd_write_all (stage_store [] ?s) D) (image_register im s a n)"
      using holds_stage_store [OF im(1), of ?s] le by (simp add: image_register_def)
    then show ?thesis using Some step rec
      by (intro applies_asI [where ws = "stage_store [] ?s"])
        (auto simp: machine_apply_def machine_bootstrap_def image_register_def stage_store_def)
  next
    case None
    define r where "r = region_bootstrap b s (u64_add b 1)"
    define c where "c = \<lparr>cl_cluster_id = i, cl_first_region_id = b, cl_created_ms = n\<rparr>"
    define jm where "jm = image_register (image_applied (ap_cluster_update (\<lambda>_. Some c)) im) s a n"
    let ?ws = "[PdPut cluster_key (cluster_encode c)] @ stage_store [] ?s @ stage_region [] (region_record_new r n) None"
    have ids: "rg_id (rr_region (region_record_new r n)) = b" "rg_end_key (rr_region (region_record_new r n)) = []" "rg_id r = b"
      by (simp_all add: region_record_new_def region_bootstrap_def r_def)
    have im': "im' = jm\<lparr>im_regions := (im_regions jm)(b \<mapsto> region_record_new r n), im_ranges := (im_ranges jm)([] \<mapsto> b)\<rparr>"
      "ans = AnBootstrapped \<lparr>bo_cluster_id = i, bo_region = Some r\<rparr>"
      using None step by (auto simp: Let_def jm_def c_def r_def)
    have "holds (pd_write_all [PdPut cluster_key (cluster_encode c)] D) (image_applied (ap_cluster_update (\<lambda>_. Some c)) im)"
      using holds_put_singles(1) [OF im(1)] by simp
    from holds_stage_store [OF this, of ?s] le
    have "holds (pd_write_all ([PdPut cluster_key (cluster_encode c)] @ stage_store [] ?s) D) jm"
      by (simp add: image_register_def image_applied_def jm_def)
    from holds_stage_region(2) [OF this, of "region_record_new r n"] le
    have holds: "holds (pd_write_all ?ws D) im'" unfolding ids im' pd_write_all_simps(3) by blast
    have "im_applied im' = (im_applied im)\<lparr>ap_cluster := Some c\<rparr>"
      by (simp add: im' jm_def image_register_def image_applied_def)
    then have "machine_apply (pd_db D) (im_applied im, batch) (PcBootstrap s a b i n) = ((im_applied im', batch @ ?ws), Ok ans)" for batch
      using None rec im'(2)
      by (simp add: machine_apply_def machine_bootstrap_def Let_def stage_store_def stage_region_def
          r_def c_def region_record_new_def region_bootstrap_def)
    then show ?thesis using holds by (rule applies_asI)
  qed
qed

lemma machine_refines:
  assumes im: "holds D im" "image_ok im" and ok: "pd_command_ok c" and step: "image_step im c = (im', ans)"
  shows "applies_as D im c im' ans"
proof (cases c)
  case (PcBootstrap s a b i n)
  then show ?thesis using bootstrap_refines im ok step by simp
next
  case (PcReserveIds e)
  let ?v = "max (ap_allocated_end (im_applied im)) e"
  show ?thesis using PcReserveIds step holds_put_singles(2) [OF im(1), of "\<lambda>v. max v e" ?v]
    by (intro applies_asI [where ws = "[PdPut alloc_key (alloc_record_encode \<lparr>ar_allocated_end = ?v\<rparr>)]"])
      (auto simp: machine_apply_def Let_def image_applied_def)
next
  case (PcAdvanceTso e)
  let ?v = "max (ap_high_water_ms (im_applied im)) e"
  show ?thesis using PcAdvanceTso step holds_put_singles(3) [OF im(1), of "\<lambda>v. max v e" ?v]
    by (intro applies_asI [where ws = "[PdPut tso_key (tso_record_encode \<lparr>tr_high_water_ms = ?v\<rparr>)]"])
      (auto simp: machine_apply_def Let_def image_applied_def)
next
  case (PcStoreBeat s stats n)
  then have s: "s \<le> u64_max" using ok by (simp add: pd_command_ok_def)
  show ?thesis
  proof (cases "im_stores im s")
    case None
    then show ?thesis using PcStoreBeat step im s
      by (intro applies_asI [where ws = "[]"]) (auto simp: machine_apply_def)
  next
    case (Some old)
    let ?r = "old\<lparr>sr_stats := stats, sr_last_heartbeat_ms := n\<rparr>"
    have "sr_store_id old = s" using im(2) Some by (auto simp: image_ok_def)
    then show ?thesis using PcStoreBeat step im s Some holds_stage_store [OF im(1), of ?r]
      by (intro applies_asI [where ws = "stage_store [] ?r"]) (auto simp: machine_apply_def stage_store_def)
  qed
next
  case (PcRegionBeat r)
  let ?p = "im_regions im (rg_id (rr_region r))"
  have i: "rg_id (rr_region r) \<le> u64_max" using ok PcRegionBeat by (simp add: pd_command_ok_def region_record_sized_def region_sized_def)
  show ?thesis
  proof (cases "\<exists>held. ?p = Some held \<and> \<not> accepts held (rg_epoch (rr_region r)) (rr_term r)")
    case True
    then show ?thesis using PcRegionBeat step im i
      by (intro applies_asI [where ws = "[]"]) (auto simp: machine_apply_def)
  next
    case False
    then have "im' = image_put_region im r" "ans = AnUpserted UpApplied"
      using step PcRegionBeat by (auto split: option.splits if_splits)
    then show ?thesis using PcRegionBeat False im i holds_stage_region(1) [OF im(1) i]
      by (intro applies_asI [where ws = "stage_region [] r ?p"])
        (auto simp: machine_apply_def stage_region_def image_put_region_def Let_def split: option.splits)
  qed
next
  case (PcColumnar ws)
  show ?thesis using PcColumnar step holds_put_singles(5) [OF im(1), of "\<lparr>cr_wishes = ws\<rparr>"]
    by (intro applies_asI [where ws = "[PdPut columnar_key (columnar_encode \<lparr>cr_wishes = ws\<rparr>)]"])
      (auto simp: machine_apply_def Let_def image_applied_def)
next
  case (PcHistory e)
  let ?v = "history_push (ap_history (im_applied im)) e"
  show ?thesis using PcHistory step holds_put_singles(4) [OF im(1), of "\<lambda>h. history_push h e" ?v]
    by (intro applies_asI [where ws = "[PdPut history_key (history_encode ?v)]"])
      (auto simp: machine_apply_def Let_def image_applied_def)
qed (use im step in \<open>auto intro!: applies_asI [where ws = "[]"] simp: machine_apply_def\<close>)

lemma refines_one:
  assumes "holds D im" "image_ok im" "pd_command_ok c" "image_step im c = (im', ans)"
  obtains D' where "pd_apply_one (D, im_applied im) c = ((D', im_applied im'), Ok ans)" "holds D' im'" "image_ok im'"
proof -
  from machine_refines [OF assms] obtain ws where
    ws: "machine_apply (pd_db D) (im_applied im, []) c = ((im_applied im', ws), Ok ans)" "holds (pd_write_all ws D) im'"
    by (auto simp: applies_as_def)
  then show ?thesis using that image_step_ok [OF assms(2-4)] by (simp add: pd_apply_one_def)
qed

fun image_run :: "pd_image \<Rightarrow> pd_command list \<Rightarrow> pd_image \<times> pd_answer list" where
  "image_run im [] = (im, [])"
| "image_run im (c # cs) = (let (im, a) = image_step im c; (im, as) = image_run im cs in (im, a # as))"

lemma refines_each:
  assumes "holds D im" "image_ok im" "\<forall>c \<in> set cs. pd_command_ok c" "image_run im cs = (im', as)"
  obtains D' where "pd_apply_each (D, im_applied im) cs = ((D', im_applied im'), map Ok as)" "holds D' im'" "image_ok im'"
  using assms
proof (induction cs arbitrary: D im as thesis)
  case (Cons c cs)
  obtain jm a where step: "image_step im c = (jm, a)" by fastforce
  from Cons.prems(5) step obtain bs where run: "image_run jm cs = (im', bs)" "as = a # bs" by (auto split: prod.splits)
  have ok: "pd_command_ok c" "\<forall>c \<in> set cs. pd_command_ok c" using Cons.prems(4) by simp_all
  obtain E where one: "pd_apply_one (D, im_applied im) c = ((E, im_applied jm), Ok a)" "holds E jm" "image_ok jm"
    using refines_one [OF Cons.prems(2,3) ok(1) step] by blast
  obtain D' where "pd_apply_each (E, im_applied jm) cs = ((D', im_applied im'), map Ok bs)" "holds D' im'" "image_ok im'"
    using Cons.IH [OF _ one(2,3) ok(2) run(1)] by blast
  then show ?case using Cons.prems(1) one(1) run(2) by simp
qed simp

text \<open>C8. The placement driver's state machine does what its log says. On a table that holds a well-formed
  picture of its records, a sequence of commands, each applied and written in turn, never fails: it
  answers and leaves exactly what the record-level description of the commands says, down to every stored
  byte, and a restart reads back the mirrors the running machine holds.\<close>

theorem pd_machine_refines:
  assumes "holds D im" "image_ok im" "\<forall>c \<in> set cs. pd_command_ok c"
  shows "\<exists>D'. pd_apply_each (D, im_applied im) cs
              = ((D', im_applied (fst (image_run im cs))), map Ok (snd (image_run im cs)))
            \<and> holds D' (fst (image_run im cs)) \<and> image_ok (fst (image_run im cs))
            \<and> machine_load (pd_db D') = Ok (im_applied (fst (image_run im cs)))"
  using refines_each [OF assms, of "fst (image_run im cs)" "snd (image_run im cs)"] load_holds by (metis prod.collapse)

lemma holds_empty: "holds [] image_empty" "image_ok image_empty"
  by (simp_all add: holds_def holds_singles_def single_holds_def image_empty_def image_ok_def applied_ok_def history_sized_def
      columnar_sized_def)

definition demo_commands :: "pd_command list" where
  "demo_commands = [PcTakeOffice 1 5, PcReserveIds 1000, PcBootstrap 1 [] 1 7 5, PcStoreBeat 1 \<lparr>ss_capacity = 9,
     ss_available = 8, ss_region_count = 1, ss_leader_count = 1, ss_applied_bytes = 0\<rparr> 6, PcAdvanceTso 3000]"

lemma demo_commands_ok: "\<forall>c \<in> set demo_commands. pd_command_ok c"
  by (simp add: demo_commands_def pd_command_ok_def u64_max_def str_sized_def stats_sized_def)

theorem pd_machine_refines_witness:
  "\<exists>D'. pd_apply_each ([], im_applied image_empty) demo_commands
              = ((D', im_applied (fst (image_run image_empty demo_commands))), map Ok (snd (image_run image_empty demo_commands)))
            \<and> ap_allocated_end (im_applied (fst (image_run image_empty demo_commands))) = 1000
            \<and> machine_load (pd_db D') = Ok (im_applied (fst (image_run image_empty demo_commands)))"
  using pd_machine_refines [OF holds_empty demo_commands_ok]
  by (auto simp: demo_commands_def image_empty_def image_applied_def image_register_def Let_def)

section \<open>Nothing the log has settled is taken back\<close>

definition image_le :: "pd_image \<Rightarrow> pd_image \<Rightarrow> bool" where
  "image_le im jm \<longleftrightarrow>
     ap_cluster (im_applied jm) = ap_cluster (im_applied im)
     \<and> ap_allocated_end (im_applied im) \<le> ap_allocated_end (im_applied jm)
     \<and> ap_high_water_ms (im_applied im) \<le> ap_high_water_ms (im_applied jm)
     \<and> dom (im_stores im) \<subseteq> dom (im_stores jm)
     \<and> (\<forall>i r. im_regions im i = Some r \<longrightarrow>
          (\<exists>r'. im_regions jm i = Some r' \<and> accepts r (rg_epoch (rr_region r')) (rr_term r')))"

lemma accepts_refl [simp]: "accepts r (rg_epoch (rr_region r)) (rr_term r)"
  by (simp add: accepts_def is_stale_against_def)

lemma accepts_trans:
  "accepts a (rg_epoch (rr_region b)) (rr_term b) \<Longrightarrow> accepts b e t \<Longrightarrow> accepts a e t"
  by (cases e; cases "rg_epoch (rr_region a)"; cases "rg_epoch (rr_region b)")
    (auto simp: accepts_def is_stale_against_def split: if_splits)

lemma image_le_refl [simp]: "image_le im im"
  by (auto simp: image_le_def)

lemma image_le_trans: "image_le a b \<Longrightarrow> image_le b c \<Longrightarrow> image_le a c"
  unfolding image_le_def by (smt (verit) accepts_trans le_trans subset_trans)

lemma image_step_le:
  assumes "image_ok im" "ap_cluster (im_applied im) \<noteq> None" "image_step im c = (jm, a)"
  shows "image_le im jm"
proof (cases c)
  case (PcRegionBeat r)
  then consider "jm = im" | held where "im_regions im (rg_id (rr_region r)) = Some held"
      "accepts held (rg_epoch (rr_region r)) (rr_term r)" "jm = image_put_region im r"
    | "im_regions im (rg_id (rr_region r)) = None" "jm = image_put_region im r"
    using assms(3) by (auto split: option.splits if_splits)
  then show ?thesis by cases (auto simp: image_le_def image_put_region_def Let_def)
qed (use assms in \<open>auto simp: image_le_def image_applied_def image_register_def split: option.splits\<close>)

lemma image_run_le:
  "image_ok im \<Longrightarrow> \<forall>c \<in> set cs. pd_command_ok c \<Longrightarrow> ap_cluster (im_applied im) \<noteq> None \<Longrightarrow> image_le im (fst (image_run im cs))"
proof (induction cs arbitrary: im)
  case (Cons c cs)
  obtain jm a where step: "image_step im c = (jm, a)" by fastforce
  have le: "image_le im jm" by (rule image_step_le [OF Cons.prems(1,3) step])
  moreover have "image_le jm (fst (image_run jm cs))"
    using Cons image_step_ok [OF Cons.prems(1) _ step] le by (auto simp: image_le_def [of im])
  ultimately show ?case using step image_le_trans by (auto split: prod.splits)
qed simp

lemma pd_settles:
  assumes "holds D im" "image_ok im" "\<forall>c \<in> set cs. pd_command_ok c" "ap_cluster (im_applied im) \<noteq> None"
    "pd_apply_each (D, im_applied im) cs = ((D', st'), as)"
  shows "ap_cluster st' = ap_cluster (im_applied im)"
    and "ap_allocated_end (im_applied im) \<le> ap_allocated_end st' \<and> ap_high_water_ms (im_applied im) \<le> ap_high_water_ms st'"
    and "s \<le> u64_max \<Longrightarrow> read_store (pd_db D) s \<noteq> Ok None \<Longrightarrow> \<exists>r. read_store (pd_db D') s = Ok (Some r)"
    and "i \<le> u64_max \<Longrightarrow> read_region (pd_db D) i = Ok (Some r) \<Longrightarrow>
      \<exists>r'. read_region (pd_db D') i = Ok (Some r')
        \<and> ep_conf_ver (rg_epoch (rr_region r)) \<le> ep_conf_ver (rg_epoch (rr_region r'))
        \<and> ep_version (rg_epoch (rr_region r)) \<le> ep_version (rg_epoch (rr_region r'))
        \<and> (rg_epoch (rr_region r') = rg_epoch (rr_region r) \<longrightarrow> rr_term r \<le> rr_term r')"
proof -
  let ?jm = "fst (image_run im cs)"
  have run: "st' = im_applied ?jm" "holds D' ?jm" "image_ok ?jm"
    using refines_each [OF assms(1-3), of ?jm "snd (image_run im cs)"] assms(5) by (auto simp: prod_eq_iff)
  note le = image_run_le [OF assms(2-4), unfolded image_le_def]
  show "ap_cluster st' = ap_cluster (im_applied im)"
    and "ap_allocated_end (im_applied im) \<le> ap_allocated_end st' \<and> ap_high_water_ms (im_applied im) \<le> ap_high_water_ms st'"
    using le run(1) by simp_all
  show "\<exists>r. read_store (pd_db D') s = Ok (Some r)" if "s \<le> u64_max" "read_store (pd_db D) s \<noteq> Ok None"
    using that le run assms(1,2) by auto
  show "\<exists>r'. read_region (pd_db D') i = Ok (Some r')
        \<and> ep_conf_ver (rg_epoch (rr_region r)) \<le> ep_conf_ver (rg_epoch (rr_region r'))
        \<and> ep_version (rg_epoch (rr_region r)) \<le> ep_version (rg_epoch (rr_region r'))
        \<and> (rg_epoch (rr_region r') = rg_epoch (rr_region r) \<longrightarrow> rr_term r \<le> rr_term r')"
    if i: "i \<le> u64_max" "read_region (pd_db D) i = Ok (Some r)"
  proof -
    have "im_regions im i = Some r" using i assms(1,2) by simp
    then obtain r' where "im_regions ?jm i = Some r'" "accepts r (rg_epoch (rr_region r')) (rr_term r')" using le by blast
    then show ?thesis using run i(1) by (auto simp: accepts_def is_stale_against_def split: if_splits)
  qed
qed

text \<open>C10. Once a cluster exists, no run of commands takes anything back that the placement driver has settled: the
  cluster's identity stays, the id and timestamp reservations only grow, a registered store stays known,
  and the record of a region is only ever replaced by one the epoch guard accepts, so neither half of its
  epoch goes down and within one epoch its term does not.\<close>

theorem pd_settles_for_good:
  assumes "holds D im" "image_ok im" "\<forall>c \<in> set cs. pd_command_ok c" "ap_cluster (im_applied im) \<noteq> None"
    "pd_apply_each (D, im_applied im) cs = ((D', st'), as)"
  shows "ap_cluster st' = ap_cluster (im_applied im)
    \<and> ap_allocated_end (im_applied im) \<le> ap_allocated_end st' \<and> ap_high_water_ms (im_applied im) \<le> ap_high_water_ms st'
    \<and> (\<forall>s \<le> u64_max. read_store (pd_db D) s \<noteq> Ok None \<longrightarrow> (\<exists>r. read_store (pd_db D') s = Ok (Some r)))
    \<and> (\<forall>i \<le> u64_max. \<forall>r. read_region (pd_db D) i = Ok (Some r) \<longrightarrow>
         (\<exists>r'. read_region (pd_db D') i = Ok (Some r')
            \<and> ep_conf_ver (rg_epoch (rr_region r)) \<le> ep_conf_ver (rg_epoch (rr_region r'))
            \<and> ep_version (rg_epoch (rr_region r)) \<le> ep_version (rg_epoch (rr_region r'))
            \<and> (rg_epoch (rr_region r') = rg_epoch (rr_region r) \<longrightarrow> rr_term r \<le> rr_term r')))"
  by (intro conjI allI impI pd_settles [OF assms] pd_settles(2) [OF assms, THEN conjunct1] pd_settles(2) [OF assms, THEN conjunct2])

theorem pd_settles_for_good_witness:
  "\<exists>D D' st' as. holds D (fst (image_run image_empty demo_commands))
     \<and> pd_apply_each (D, im_applied (fst (image_run image_empty demo_commands))) [PcAdvanceTso 2000] = ((D', st'), as)
     \<and> ap_high_water_ms st' \<ge> 3000 \<and> (\<exists>r. read_store (pd_db D') 1 = Ok (Some r))"
proof -
  let ?im = "fst (image_run image_empty demo_commands)"
  obtain D where D: "holds D ?im" "image_ok ?im"
    using refines_each [OF holds_empty demo_commands_ok, of ?im "snd (image_run image_empty demo_commands)"] by auto
  have cl: "ap_cluster (im_applied ?im) \<noteq> None" "ap_high_water_ms (im_applied ?im) = 3000" "im_stores ?im 1 \<noteq> None"
    by (simp_all add: demo_commands_def image_empty_def image_applied_def image_register_def Let_def)
  have ok: "\<forall>c \<in> set [PcAdvanceTso 2000]. pd_command_ok c" by (simp add: pd_command_ok_def u64_max_def)
  obtain D' st' as where run: "pd_apply_each (D, im_applied ?im) [PcAdvanceTso 2000] = ((D', st'), as)"
    by (metis prod.collapse)
  have one: "(1::nat) \<le> u64_max" by (simp add: u64_max_def)
  then have "read_store (pd_db D) 1 \<noteq> Ok None" using D cl(3) by simp
  then have "\<exists>r. read_store (pd_db D') 1 = Ok (Some r)" "3000 \<le> ap_high_water_ms st'"
    using pd_settles_for_good [OF D ok cl(1) run] one cl(2) by auto
  then show ?thesis using D(1) run by blast
qed

section \<open>Routing\<close>

text \<open>An index entry is good when the region it names is there and ends where the entry says. The entries a
  region can be found by are the ones that name it.\<close>

definition index_ok :: "pd_image \<Rightarrow> bool" where
  "index_ok im \<longleftrightarrow> (\<forall>e i. im_ranges im e = Some i \<longrightarrow> (\<exists>r. im_regions im i = Some r \<and> rg_end_key (rr_region r) = e))"

definition routable :: "pd_image \<Rightarrow> region_record \<Rightarrow> bool" where
  "routable im r \<longleftrightarrow> (\<exists>i. im_ranges im (rg_end_key (rr_region r)) = Some i \<and> im_regions im i = Some r)"

definition disjoint_routes :: "pd_image \<Rightarrow> bool" where
  "disjoint_routes im \<longleftrightarrow>
     (\<forall>r. routable im r \<longrightarrow> (\<exists>key. region_contains (rr_region r) key))
     \<and> (\<forall>r r' key. routable im r \<longrightarrow> routable im r' \<longrightarrow> region_contains (rr_region r) key \<longrightarrow>
          region_contains (rr_region r') key \<longrightarrow> r = r')"

definition boot_fresh :: "pd_image \<Rightarrow> pd_command \<Rightarrow> bool" where
  "boot_fresh im c \<longleftrightarrow> (case c of PcBootstrap _ _ b _ _ \<Rightarrow> ap_cluster (im_applied im) \<noteq> None \<or> im_regions im b = None | _ \<Rightarrow> True)"

lemma put_region_index: "index_ok im \<Longrightarrow> index_ok (image_put_region im r)"
  by (fastforce simp: index_ok_def image_put_region_def Let_def split: option.splits if_splits)

lemma image_step_index:
  assumes "index_ok im" "boot_fresh im c" "image_step im c = (jm, a)"
  shows "index_ok jm"
proof (cases c)
  case (PcRegionBeat r)
  then show ?thesis using assms put_region_index by (auto split: option.splits if_splits)
next
  case (PcBootstrap s a b i n)
  show ?thesis
  proof (cases "ap_cluster (im_applied im)")
    case None
    then have "im_regions im b = None" using assms(2) PcBootstrap by (simp add: boot_fresh_def)
    then have "im_ranges im e \<noteq> Some b" for e using assms(1) by (fastforce simp: index_ok_def)
    then show ?thesis using assms None PcBootstrap
      by (auto simp: index_ok_def Let_def image_applied_def image_register_def region_record_new_def region_bootstrap_def
          split: if_splits)
  qed (use assms PcBootstrap in \<open>auto simp: index_ok_def image_register_def\<close>)
qed (use assms in \<open>auto simp: index_ok_def image_applied_def split: option.splits\<close>)

subsection \<open>The seek key\<close>

lemma le_append_zero: "(key @ [0::byte]) \<le> e \<longleftrightarrow> key < e"
proof (induction key arbitrary: e)
  case Nil
  show ?case by (cases e) (auto simp: word_neq_0_conv)
next
  case (Cons a key)
  then show ?case by (cases e) auto
qed

lemma seek_le_range: "range_seek_key key \<le> range_key e \<longleftrightarrow> e = [] \<or> key < e"
  by (auto simp: range_seek_key_def range_key_def key_bytes le_append_zero)

lemma range_key_less: "range_key a < range_key b \<longleftrightarrow> a \<noteq> [] \<and> (b = [] \<or> a < b)"
  by (auto simp: range_key_def key_bytes)

lemma between_range_keys:
  assumes "pd_key k" "range_seek_key key \<le> k" "k \<le> range_key e"
  shows "\<exists>e'. k = range_key e'"
proof -
  have "k \<notin> {cluster_key, alloc_key, history_key, columnar_key, tso_key}"
    using assms(2,3) by (auto simp: single_keys range_seek_key_def range_key_def key_bytes split: if_splits)
  moreover have "k \<noteq> store_key i" "k \<noteq> region_key i" for i
    using assms(3) by (auto simp: range_key_def store_key_def region_key_def id_key_def key_bytes split: if_splits)
  ultimately show ?thesis using assms(1) by (auto simp: pd_key_def)
qed

lemma starts_with_range [simp]: "starts_with (kind_prefix KEY_RANGE) (range_key e)"
  by (simp add: starts_with_def kind_prefix_def range_key_def)

lemma starts_with_rangeD: "pd_key k \<Longrightarrow> starts_with (kind_prefix KEY_RANGE) k \<Longrightarrow> \<exists>e. k = range_key e"
  by (auto simp: pd_key_def starts_with_def kind_prefix_def single_keys store_key_def region_key_def id_key_def key_bytes)

text \<open>What the seek lands on: the index entry with the nearest end above the key.\<close>

definition nearest_end :: "pd_image \<Rightarrow> bytes \<Rightarrow> bytes \<Rightarrow> bool" where
  "nearest_end im key e \<longleftrightarrow> im_ranges im e \<noteq> None \<and> (e = [] \<or> key < e)
     \<and> (\<forall>e'. im_ranges im e' \<noteq> None \<longrightarrow> e' = [] \<or> key < e' \<longrightarrow> \<not> range_key e' < range_key e)"

lemma seek_lands:
  assumes h: "holds D im" "image_ok im"
  shows "(\<exists>e i es. nearest_end im key e \<and> im_ranges im e = Some i
            \<and> bt_from (range_seek_key key) D = (range_key e, encode_range_entry i) # es)
       \<or> (\<forall>e. im_ranges im e \<noteq> None \<longrightarrow> \<not> (e = [] \<or> key < e))
          \<and> (\<forall>k v es. bt_from (range_seek_key key) D = (k, v) # es \<longrightarrow> \<not> starts_with (kind_prefix KEY_RANGE) k)"
proof -
  let ?F = "bt_from (range_seek_key key) D"
  have bt: "bt_ok D" and keys: "\<forall>e \<in> set D. pd_key (fst e)"
    and ranges: "\<And>e. map_of D (range_key e) = map_option encode_range_entry (im_ranges im e)"
    using h(1) by (auto simp: holds_def)
  have F: "?F = filter (\<lambda>(a, _). range_seek_key key \<le> a) D" using bt by (rule bt_from_filter)
  have inF: "(range_key e, v) \<in> set ?F \<longleftrightarrow> (\<exists>i. im_ranges im e = Some i \<and> v = encode_range_entry i) \<and> (e = [] \<or> key < e)" for e v
    using map_of_bt_in [OF bt, of "range_key e" v] ranges [of e] by (auto simp: F seek_le_range)
  show ?thesis
  proof (cases "\<exists>e es v. ?F = (range_key e, v) # es")
    case True
    then obtain e es v where head: "?F = (range_key e, v) # es" by blast
    then have "(range_key e, v) \<in> set D" using F by (metis filter_is_subset list.set_intros(1) subsetD)
    then obtain i where i: "im_ranges im e = Some i" "v = encode_range_entry i"
      using map_of_bt_in [OF bt, of "range_key e" v] ranges [of e] by auto
    have "bt_ok ?F" using F bt by simp
    then have least: "(k, w) \<in> set es \<Longrightarrow> range_key e < k" for k w using head by auto
    have "\<not> range_key e' < range_key e" if "im_ranges im e' \<noteq> None" "e' = [] \<or> key < e'" for e'
    proof -
      from that inF [of e'] have "\<exists>w. (range_key e', w) \<in> set ?F" by auto
      then show ?thesis using head least by fastforce
    qed
    moreover have "e = [] \<or> key < e" using inF [of e v] head by simp
    ultimately have "nearest_end im key e" using i by (simp add: nearest_end_def)
    then show ?thesis using head i by blast
  next
    case False
    have none: "\<not> (e = [] \<or> key < e)" if "im_ranges im e \<noteq> None" for e
    proof
      assume "e = [] \<or> key < e"
      with that inF obtain i where mem: "(range_key e, encode_range_entry i) \<in> set ?F" by blast
      then obtain k v es where head: "?F = (k, v) # es" by (cases ?F) auto
      have "bt_ok ?F" using F bt by simp
      then have "k \<le> range_key e" using mem head by (force simp: less_imp_le)
      moreover have "(k, v) \<in> set ?F" using head by simp
      then have "range_seek_key key \<le> k" "pd_key k" using F keys by auto
      ultimately show False using between_range_keys head False by metis
    qed
    moreover have "\<not> starts_with (kind_prefix KEY_RANGE) k" if "?F = (k, v) # es" for k v es
      using that False starts_with_rangeD keys F by (metis filter_is_subset fst_conv list.set_intros(1) subsetD)
    ultimately show ?thesis by blast
  qed
qed

lemma nearest_unique:
  assumes "disjoint_routes im" "index_ok im" "nearest_end im key e" "routable im r" "region_contains (rr_region r) key"
  shows "rg_end_key (rr_region r) = e"
proof (rule ccontr)
  let ?e = "rg_end_key (rr_region r)"
  assume ne: "?e \<noteq> e"
  have "\<not> range_key ?e < range_key e"
    using assms(3-5) by (auto simp: nearest_end_def routable_def region_contains_def)
  with ne have less: "e \<noteq> []" "?e = [] \<or> e < ?e" using range_key_less [of ?e e] by auto
  obtain i r0 where r0: "im_ranges im e = Some i" "im_regions im i = Some r0" "rg_end_key (rr_region r0) = e"
    using assms(2,3) unfolding nearest_end_def index_ok_def by (metis option.exhaust)
  then have rt: "routable im r0" by (auto simp: routable_def)
  then obtain key' where key': "region_contains (rr_region r0) key'" using assms(1) by (auto simp: disjoint_routes_def)
  have "\<exists>k. region_contains (rr_region r0) k \<and> region_contains (rr_region r) k"
  proof (cases "rg_start_key (rr_region r0) \<le> key")
    case True
    then show ?thesis using assms(3,5) r0(3) by (auto simp: region_contains_def nearest_end_def)
  next
    case False
    then show ?thesis using assms(5) key' less r0(3) by (force simp: region_contains_def)
  qed
  then have "r0 = r" using assms(1,4) rt by (auto simp: disjoint_routes_def)
  then show False using ne r0(3) by simp
qed

lemma lookup_finds:
  assumes "holds D im" "image_ok im" "index_ok im" "disjoint_routes im"
  shows "(pd_lookup (pd_db D) key = Ok (Some r) \<longleftrightarrow> routable im r \<and> region_contains (rr_region r) key)
       \<and> (\<exists>ans. pd_lookup (pd_db D) key = Ok ans)"
  using seek_lands [OF assms(1,2), of key]
proof (elim disjE exE conjE)
  fix e i es
  assume near: "nearest_end im key e" and i: "im_ranges im e = Some i"
    and head: "bt_from (range_seek_key key) D = (range_key e, encode_range_entry i) # es"
  obtain r0 where r0: "im_regions im i = Some r0" "rg_end_key (rr_region r0) = e" using assms(3) i by (auto simp: index_ok_def)
  have le: "i \<le> u64_max" using assms(2) i by (auto simp: image_ok_def)
  then have look: "pd_lookup (pd_db D) key = Ok (if region_contains (rr_region r0) key then Some r0 else None)"
    using head r0 assms(1,2) by (simp add: pd_lookup_def range_format.roundtrip)
  have "routable im r \<and> region_contains (rr_region r) key \<longleftrightarrow> r = r0 \<and> region_contains (rr_region r0) key"
    using nearest_unique [OF assms(4,3) near, of r] i r0 by (auto simp: routable_def)
  then show ?thesis using look by auto
next
  assume none: "\<forall>e. im_ranges im e \<noteq> None \<longrightarrow> \<not> (e = [] \<or> key < e)"
    and heads: "\<forall>k v es. bt_from (range_seek_key key) D = (k, v) # es \<longrightarrow> \<not> starts_with (kind_prefix KEY_RANGE) k"
  have "pd_lookup (pd_db D) key = Ok None"
    using heads by (cases "bt_from (range_seek_key key) D") (auto simp: pd_lookup_def)
  moreover have "\<not> (routable im r \<and> region_contains (rr_region r) key)"
    using none by (auto simp: routable_def region_contains_def)
  ultimately show ?thesis by simp
qed

text \<open>C11. Routing finds the region of a key. On a table whose index entries name regions that are there and whose
  indexed regions do not overlap, looking a key up takes one seek, never fails, and answers exactly the
  indexed region whose range contains the key, or none when no indexed region does.\<close>

theorem lookup_exact:
  assumes "holds D im" "image_ok im" "index_ok im" "disjoint_routes im"
  shows "(pd_lookup (pd_db D) key = Ok (Some r) \<longleftrightarrow> routable im r \<and> region_contains (rr_region r) key)
       \<and> (\<exists>ans. pd_lookup (pd_db D) key = Ok ans)"
  by (rule lookup_finds [OF assms])

lemma demo_routes:
  defines "im \<equiv> fst (image_run image_empty demo_commands)"
  shows "index_ok im" "disjoint_routes im" "routable im (region_record_new (region_bootstrap 1 1 2) 5)"
proof -
  have im: "im_ranges im = [[] \<mapsto> 1]" "im_regions im = [1 \<mapsto> region_record_new (region_bootstrap 1 1 2) 5]"
    by (simp_all add: im_def demo_commands_def image_empty_def image_applied_def image_register_def Let_def u64_add_def u64_max_def numeral_2_eq_2)
  show "index_ok im" "routable im (region_record_new (region_bootstrap 1 1 2) 5)"
    by (simp_all add: im index_ok_def routable_def region_record_new_def region_bootstrap_def)
  show "disjoint_routes im"
    by (auto simp: im disjoint_routes_def routable_def region_record_new_def region_bootstrap_def region_contains_def split: if_splits)
qed

theorem lookup_exact_witness:
  "\<exists>D. holds D (fst (image_run image_empty demo_commands))
     \<and> pd_lookup (pd_db D) [7] = Ok (Some (region_record_new (region_bootstrap 1 1 2) 5))"
proof -
  let ?im = "fst (image_run image_empty demo_commands)" and ?r = "region_record_new (region_bootstrap 1 1 2) 5"
  obtain D where D: "holds D ?im" "image_ok ?im"
    using refines_each [OF holds_empty demo_commands_ok, of ?im "snd (image_run image_empty demo_commands)"] by auto
  have "region_contains (rr_region ?r) [7]" by (simp add: region_contains_def region_record_new_def region_bootstrap_def)
  then show ?thesis using lookup_exact [OF D demo_routes(1,2), of "[7]" ?r] demo_routes(3) D(1) by blast
qed

section \<open>Snapshots\<close>

lemma try_field [simp]: "r = Ok x \<Longrightarrow> try_read s (pd_field w r) k = k x"
  by (simp add: try_read_def)

definition pair_sized :: "bytes \<times> bytes \<Rightarrow> bool" where
  "pair_sized e \<longleftrightarrow> length (fst e) \<le> u64_max \<and> length (snd e) \<le> u64_max"

lemma install_pairs_encoded:
  "\<forall>e \<in> set es. pair_sized e \<Longrightarrow>
    install_pairs (length es) (concat (map pair_encode es)) batch = (batch @ map (\<lambda>(k, v). PdPut k v) es, Ok [])"
proof (induction es arbitrary: batch)
  case (Cons e es)
  then show ?case by (cases e) (simp add: pair_encode_def pair_sized_def)
qed simp

lemma length_pairs: "2 * length es \<le> length (concat (map pair_encode es))"
proof (induction es)
  case (Cons e es)
  have one: "0 < length (enc_bytes b)" for b by (simp add: enc_bytes_def)
  have "2 \<le> length (pair_encode e)" using one [of "fst e"] one [of "snd e"]
    unfolding pair_encode_def length_append by linarith
  then show ?case using Cons by simp
qed simp

lemma rebuild: "bt_ok (m @ es) \<Longrightarrow> pd_write_all (map (\<lambda>(k, v). PdPut k v) es) m = m @ es"
proof (induction es arbitrary: m)
  case (Cons e es)
  obtain k v where e: "e = (k, v)" by fastforce
  have "bt_insert k v m = m @ [(k, v)]" if "bt_ok (m @ (k, v) # es)"
    using that by (induction m) auto
  then show ?case using Cons e by simp
qed simp

lemma pd_key_prefix: "pd_key k \<Longrightarrow> [PD_PREFIX] \<le> k \<and> k < [PD_PREFIX + 1]"
  by (auto simp: pd_key_def single_keys store_key_def region_key_def id_key_def range_key_def key_bytes)

text \<open>C13. A snapshot is the whole state. Sent to any member, whatever records that member holds, installing it
  replaces them by exactly the sender's, byte for byte, with nothing of the old table left, and reloading
  the mirrors gives the sender's mirrors.\<close>

theorem pd_snapshot_roundtrip:
  assumes "holds D im" "image_ok im" "holds E jm"
    and "\<forall>e \<in> set D. pair_sized e" "length (concat (map pair_encode D)) \<le> u64_max"
  shows "\<exists>data batch. machine_snapshot (pd_db D) = Ok data \<and> machine_install data [] = (batch, Ok ())
    \<and> pd_write_all batch E = D \<and> machine_reload (pd_db (pd_write_all batch E)) st = (im_applied im, Ok ())"
proof -
  let ?body = "concat (map pair_encode D)"
  let ?batch = "PdDeleteRange [PD_PREFIX] [PD_PREFIX + 1] # map (\<lambda>(k, v). PdPut k v) D"
  have bt: "bt_ok D" and E: "\<forall>e \<in> set E. pd_key (fst e)" using assms(1,3) by (simp_all add: holds_def)
  have "bt_from [] D = D" using bt by (simp add: bt_from_filter)
  then have snap: "machine_snapshot (pd_db D) = Ok (enc_u8 PD_SNAPSHOT_VERSION @ enc_varint (length D) @ enc_bytes ?body)"
    by (simp add: machine_snapshot_def)
  have "length D \<le> u64_max" "length D \<le> length (enc_bytes ?body)"
    using length_pairs [of D] assms(5) by (simp_all add: enc_bytes_def)
  then have "dec_count ''snapshot.count'' (enc_varint (length D) @ enc_bytes ?body) = Ok (length D, enc_bytes ?body)"
    by (auto simp: dec_count_Ok)
  then have inst: "machine_install (enc_u8 PD_SNAPSHOT_VERSION @ enc_varint (length D) @ enc_bytes ?body) [] = (?batch, Ok ())"
    using assms(4,5) by (simp add: machine_install_def install_pairs_encoded)
  have "pd_write_one E (PdDeleteRange [PD_PREFIX] [PD_PREFIX + 1]) = []"
    using E pd_key_prefix by (fastforce simp: filter_empty_conv)
  then have all: "pd_write_all ?batch E = D" using rebuild [of "[]" D] bt by simp
  then show ?thesis using snap inst load_holds [OF assms(1,2)] by (auto simp: machine_reload_def)
qed

lemma demo_table:
  obtains D where "holds D (fst (image_run image_empty demo_commands))" "image_ok (fst (image_run image_empty demo_commands))"
  using refines_each [OF holds_empty demo_commands_ok, of "fst (image_run image_empty demo_commands)"
      "snd (image_run image_empty demo_commands)"] by auto

theorem pd_snapshot_roundtrip_witness:
  "\<exists>data batch. machine_snapshot (pd_db []) = Ok data \<and> machine_install data [] = (batch, Ok ())
    \<and> pd_write_all batch [(alloc_key, alloc_record_encode \<lparr>ar_allocated_end = 9\<rparr>)] = []
    \<and> machine_reload (pd_db (pd_write_all batch [(alloc_key, alloc_record_encode \<lparr>ar_allocated_end = 9\<rparr>)])) (im_applied image_empty)
        = (im_applied image_empty, Ok ())"
proof -
  have "holds [(alloc_key, alloc_record_encode \<lparr>ar_allocated_end = 9\<rparr>)] (image_applied (ap_allocated_end_update (\<lambda>_. 9)) image_empty)"
    using holds_put_singles(2) [OF holds_empty(1), of "\<lambda>_. 9" 9] by simp
  from pd_snapshot_roundtrip [OF holds_empty this, of "im_applied image_empty"] show ?thesis by simp
qed

section \<open>Two things the code around the machine relies on and does not have\<close>

definition demo_beat :: "u64 \<Rightarrow> bytes \<Rightarrow> bytes \<Rightarrow> u64 \<Rightarrow> region_record" where
  "demo_beat i a b v = region_record_new \<lparr>rg_id = i, rg_start_key = a, rg_end_key = b, rg_peers = [], rg_epoch = \<lparr>ep_conf_ver = 1, ep_version = v\<rparr>\<rparr> 8"

text \<open>A region record and its index entry go in one batch, but the entry is found by its end key alone: when the
  right half of a split reports first, the left half's report deletes the entry that now belongs to the
  right half, whose keys then route nowhere until it reports again.\<close>

lemma split_beats_lose_a_region:
  defines "im \<equiv> fst (image_run image_empty (demo_commands
    @ [PcRegionBeat (demo_beat 2 [7] [] 2), PcRegionBeat (demo_beat 1 [] [7] 2)]))"
  shows "im_regions im 2 = Some (demo_beat 2 [7] [] 2)" "\<not> routable im (demo_beat 2 [7] [] 2)"
  by (simp_all add: im_def demo_commands_def image_empty_def image_applied_def image_register_def Let_def demo_beat_def
      routable_def image_put_region_def accepts_def is_stale_against_def region_record_new_def region_bootstrap_def EPOCH_INITIAL_def)

text \<open>Commands staged into one batch read the table as it was before the batch, so a stale report behind a fresh
  one passes the epoch guard and replaces it.\<close>

lemma demo_beat_sized:
  "v < 128 \<Longrightarrow> region_record_sized (demo_beat 1 [] [] v)"
  "v < 128 \<Longrightarrow> length (region_record_encode (demo_beat 1 [] [] v)) \<le> u64_max"
  by (simp_all add: region_record_sized_def region_sized_def epoch_sized_def demo_beat_def region_record_new_def u64_max_def
      region_record_encode_def rec_region_encode_def enc_varint_def enc_bytes_def enc_u8_def rec_start_def put_u64.simps)

lemma folded_applies_pass_a_stale_report:
  defines "im \<equiv> fst (image_run image_empty demo_commands)"
    and "cs \<equiv> [PcRegionBeat (demo_beat 1 [] [] 3), PcRegionBeat (demo_beat 1 [] [] 2)]"
  assumes D: "holds D im" "image_ok im"
  shows "snd (pd_apply_each (D, im_applied im) cs) = [Ok (AnUpserted UpApplied), Ok (AnUpserted UpStale)]"
    and "snd (pd_apply_folded (D, im_applied im) cs) = [Ok (AnUpserted UpApplied), Ok (AnUpserted UpApplied)]"
    and "read_region (pd_db (fst (fst (pd_apply_folded (D, im_applied im) cs)))) 1 = Ok (Some (demo_beat 1 [] [] 2))"
  supply One_nat_def [simp del]
proof -
  let ?r = "region_record_new (region_bootstrap 1 1 2) 5"
  have r: "im_regions im 1 = Some ?r"
    by (simp add: im_def demo_commands_def image_empty_def image_applied_def image_register_def Let_def u64_add_def u64_max_def
        numeral_2_eq_2 One_nat_def)
  have ids: "rg_id (rr_region (demo_beat 1 [] [] v)) = 1" "rg_end_key (rr_region (demo_beat 1 [] [] v)) = []"
    "rg_epoch (rr_region (demo_beat 1 [] [] v)) = \<lparr>ep_conf_ver = 1, ep_version = v\<rparr>" "rr_term (demo_beat 1 [] [] v) = 0"
    "rg_end_key (rr_region ?r) = []" "rg_epoch (rr_region ?r) = \<lparr>ep_conf_ver = 1, ep_version = 1\<rparr>" for v
    by (simp_all add: demo_beat_def region_record_new_def region_bootstrap_def EPOCH_INITIAL_def)
  have one: "(1::nat) \<le> u64_max" by (simp add: u64_max_def)
  have "\<forall>c \<in> set cs. pd_command_ok c" by (simp add: cs_def pd_command_ok_def demo_beat_sized)
  moreover have "snd (image_run im cs) = [AnUpserted UpApplied, AnUpserted UpStale]"
    using r by (simp add: cs_def ids accepts_def is_stale_against_def image_put_region_def Let_def)
  ultimately show "snd (pd_apply_each (D, im_applied im) cs) = [Ok (AnUpserted UpApplied), Ok (AnUpserted UpStale)]"
    using refines_each [OF D, of cs "fst (image_run im cs)" "snd (image_run im cs)"] by (auto simp: prod_eq_iff)
  have read: "read_region (pd_db D) 1 = Ok (Some ?r)" using D one r by simp
  have staged: "stage_each (pd_db D) (im_applied im, []) cs
      = ((im_applied im, stage_region (stage_region [] (demo_beat 1 [] [] 3) (Some ?r)) (demo_beat 1 [] [] 2) (Some ?r)),
         [Ok (AnUpserted UpApplied), Ok (AnUpserted UpApplied)])"
    using read by (simp add: cs_def machine_apply_def ids accepts_def is_stale_against_def)
  then show "snd (pd_apply_folded (D, im_applied im) cs) = [Ok (AnUpserted UpApplied), Ok (AnUpserted UpApplied)]"
    by (simp add: pd_apply_folded_def)
  have sized: "region_record_sized (demo_beat 1 [] [] 2)" by (simp add: demo_beat_sized)
  have "bt_ok D" using D(1) by (simp add: holds_def)
  then show "read_region (pd_db (fst (fst (pd_apply_folded (D, im_applied im) cs)))) 1 = Ok (Some (demo_beat 1 [] [] 2))"
    using staged region_format.roundtrip [OF sized] by (simp add: pd_apply_folded_def stage_region_def ids read_region_def)
qed

text \<open>C38. Applying the commands of a round from one batch is not applying them one after the other: there is a
  reachable table and a pair of reports of one region of which the second is refused as stale when the
  commands are applied in turn, and accepted, with the older record left behind, when they are staged
  together.\<close>

theorem folded_applies_diverge:
  "\<exists>D cs. let st = im_applied (fst (image_run image_empty demo_commands)) in
     holds D (fst (image_run image_empty demo_commands))
     \<and> snd (pd_apply_each (D, st) cs) = [Ok (AnUpserted UpApplied), Ok (AnUpserted UpStale)]
     \<and> snd (pd_apply_folded (D, st) cs) = [Ok (AnUpserted UpApplied), Ok (AnUpserted UpApplied)]
     \<and> read_region (pd_db (fst (fst (pd_apply_folded (D, st) cs)))) 1 = Ok (Some (demo_beat 1 [] [] 2))"
proof -
  obtain D where D: "holds D (fst (image_run image_empty demo_commands))" "image_ok (fst (image_run image_empty demo_commands))"
    by (rule demo_table)
  show ?thesis unfolding Let_def using folded_applies_pass_a_stale_report [OF D] D(1) by blast
qed

end
