(* ===== verification/PdGroup.thy ===== *)
theory PdGroup
  imports PdMachine
begin

text \<open>
  The placement driver as a replicated group (\<^verbatim>\<open>esker-pd/src/pd/mod.rs\<close> over \<^verbatim>\<open>esker-pd/src/driver.rs\<close>). A
  member that takes office rebuilds its id allocator and its oracle from what it has applied; a
  reservation is durable when its command has committed. The members share one committed log whose terms
  never go down; everything else, including who serves when, which prefix a member has applied when it
  takes office, which proposals are lost and which members go on serving after they have been replaced,
  is left open. What is shown is that no timestamp and no id is ever handed out twice.
\<close>

section \<open>A member that serves\<close>

record leadership =
  ld_serving :: bool
  ld_office_term :: u64
  ld_office_now_ms :: u64

record ('op, 'delta) pd_state =
  ps_office_term :: u64
  ps_alloc :: allocator
  ps_oracle :: tso_oracle
  ps_in_flight :: "(u64, 'op) btree"
  ps_cooling :: "(u64, u64) btree"
  ps_settling :: "('delta \<times> u64) list"

definition office_clock :: "leadership \<Rightarrow> u64 \<Rightarrow> u64" where
  "office_clock office now_ms = (if ld_office_now_ms office > 0 then ld_office_now_ms office else now_ms)"

text \<open>The leader's working state, or a refusal. The address a refusal carries is not modelled.\<close>

definition leading ::
  "leadership \<Rightarrow> u64 \<Rightarrow> u64 \<Rightarrow> u64 \<Rightarrow> applied_state \<Rightarrow> ('op, 'delta) pd_state \<Rightarrow> ('op, 'delta) pd_state \<times> unit pd_result" where
  "leading office now_ms batch save_interval applied s =
     (if \<not> ld_serving office then (s, Err (PdNotLeader 0 []))
      else if ps_office_term s = ld_office_term office then (s, Ok ())
      else
        (s\<lparr>ps_alloc := alloc_load (if ap_allocated_end applied > 0 then Some \<lparr>ar_allocated_end = ap_allocated_end applied\<rparr> else None) batch,
           ps_oracle := oracle_load (if ap_high_water_ms applied > 0 then Some \<lparr>tr_high_water_ms = ap_high_water_ms applied\<rparr> else None)
             (office_clock office now_ms) save_interval,
           ps_in_flight := [], ps_cooling := [], ps_settling := [],
           ps_office_term := ld_office_term office\<rparr>, Ok ()))"

lemma leading_takes_office:
  assumes "ld_serving office" "ps_office_term s \<noteq> ld_office_term office"
  shows "ps_alloc (fst (leading office now batch iv applied s)) = alloc_office (ap_allocated_end applied) batch"
    and "ps_oracle (fst (leading office now batch iv applied s))
      = oracle_office (ap_high_water_ms applied) (office_clock office now, iv)"
  using assms by (simp_all add: leading_def alloc_office_def oracle_office_def)

text \<open>What a proposal does to the group: \<open>propose\<close> acts on the group and answers whether the command committed
  and applied.\<close>

definition commit_tso :: "('g \<Rightarrow> pd_command \<Rightarrow> 'g \<times> pd_answer pd_result) \<Rightarrow> 'g \<Rightarrow> u64 \<Rightarrow> 'g \<times> unit pd_result" where
  "commit_tso propose g mark = and_then (propose g (PcAdvanceTso mark)) (\<lambda>g _. (g, Ok ()))"

definition pd_reserve :: "('g \<Rightarrow> pd_command \<Rightarrow> 'g \<times> pd_answer pd_result) \<Rightarrow> 'g \<Rightarrow> u64 \<Rightarrow> 'g \<times> unit pd_result" where
  "pd_reserve propose g e = and_then (propose g (PcReserveIds e)) (\<lambda>g _. (g, Ok ()))"

definition pd_alloc_id ::
  "('g \<Rightarrow> pd_command \<Rightarrow> 'g \<times> pd_answer pd_result) \<Rightarrow> leadership \<Rightarrow> u64 \<Rightarrow> u64 \<Rightarrow> u64 \<Rightarrow> applied_state
   \<Rightarrow> 'g \<times> ('op, 'delta) pd_state \<Rightarrow> u64 \<Rightarrow> ('g \<times> ('op, 'delta) pd_state) \<times> u64 pd_result" where
  "pd_alloc_id propose office now_ms batch save_interval applied gs count =
     (let (g, s) = gs in
      case leading office now_ms batch save_interval applied s of
        (s, Err e) \<Rightarrow> ((g, s), Err e)
      | (s, Ok _) \<Rightarrow>
          let ((g, a), r) = alloc_allocate (pd_reserve propose) g (ps_alloc s) count
          in ((g, s\<lparr>ps_alloc := a\<rparr>), r))"

definition pd_tso ::
  "('g \<Rightarrow> pd_command \<Rightarrow> 'g \<times> pd_answer pd_result) \<Rightarrow> leadership \<Rightarrow> u64 \<Rightarrow> u64 \<Rightarrow> u64 \<Rightarrow> applied_state
   \<Rightarrow> 'g \<times> ('op, 'delta) pd_state \<Rightarrow> u64 \<Rightarrow> ('g \<times> ('op, 'delta) pd_state) \<times> u64 pd_result" where
  "pd_tso propose office now_ms batch save_interval applied gs count =
     (let (g, s) = gs in
      case leading office now_ms batch save_interval applied s of
        (s, Err e) \<Rightarrow> ((g, s), Err e)
      | (s, Ok _) \<Rightarrow>
          let ((g, q), r) = oracle_allocate (commit_tso propose) g (ps_oracle s) count now_ms
          in ((g, s\<lparr>ps_oracle := q\<rparr>), r))"

text \<open>A report registers its reader, unless the reporter is zero, and answers the safepoint at a fresh
  timestamp.\<close>

definition report_and_read_safepoint ::
  "(u64 \<Rightarrow> 's \<times> u64 pd_result) \<Rightarrow> safepoints \<Rightarrow> u64 \<Rightarrow> u64 option \<Rightarrow> ('s \<times> safepoints) \<times> u64 pd_result" where
  "report_and_read_safepoint tso sps reporter oldest_read =
     (case tso 1 of
        (s, Err e) \<Rightarrow> ((s, sps), Err e)
      | (s, Ok now) \<Rightarrow>
          let sps = (if reporter \<noteq> 0 then sp_report reporter oldest_read now sps else sps);
              (sps, p) = sp_safepoint now sps
          in ((s, sps), Ok p))"

section \<open>The group\<close>

type_synonym pd_log = "(u64 \<times> pd_command) list"

text \<open>A proposal in a term reaches the log when no later term has an entry there and the network lets it; a
  proposal that is answered with an error may still commit, by a step of its own.\<close>

definition propose_in :: "u64 \<Rightarrow> bool \<Rightarrow> pd_log \<Rightarrow> pd_command \<Rightarrow> pd_log \<times> pd_answer pd_result" where
  "propose_in t reach log c =
     (if reach \<and> (\<forall>e \<in> set log. fst e \<le> t) then (log @ [(t, c)], Ok AnDone) else (log, Err (PdInternal StoppedLeading)))"

text \<open>The largest reservation of a kind a log has applied.\<close>

fun log_mark :: "(pd_command \<Rightarrow> u64) \<Rightarrow> pd_log \<Rightarrow> u64" where
  "log_mark val [] = 0"
| "log_mark val (e # log) = max (val (snd e)) (log_mark val log)"

fun tso_value :: "pd_command \<Rightarrow> u64" where
  "tso_value (PcAdvanceTso mark) = mark"
| "tso_value _ = 0"

fun id_value :: "pd_command \<Rightarrow> u64" where
  "id_value (PcReserveIds e) = e"
| "id_value _ = 0"

text \<open>The offices in force by term, the terms office has been taken in, and what has been handed out: the term,
  the first number and how many.\<close>

record 'c pd_group =
  gr_log :: pd_log
  gr_offices :: "u64 \<rightharpoonup> 'c"
  gr_taken :: "u64 set"
  gr_issued :: "(u64 \<times> nat \<times> nat) list"

definition group_new :: "'c pd_group" where
  "group_new = \<lparr>gr_log = [], gr_offices = Map.empty, gr_taken = {}, gr_issued = []\<rparr>"

inductive group_step ::
  "(u64 \<Rightarrow> 'e \<Rightarrow> 'c) \<Rightarrow> ((pd_log \<Rightarrow> u64 \<Rightarrow> pd_log \<times> unit pd_result) \<Rightarrow> pd_log \<Rightarrow> 'c \<Rightarrow> 'q \<Rightarrow> (pd_log \<times> 'c) \<times> u64 pd_result)
   \<Rightarrow> ('q \<Rightarrow> nat) \<Rightarrow> ((pd_log \<Rightarrow> pd_command \<Rightarrow> pd_log \<times> pd_answer pd_result) \<Rightarrow> pd_log \<Rightarrow> u64 \<Rightarrow> pd_log \<times> unit pd_result)
   \<Rightarrow> (pd_command \<Rightarrow> u64) \<Rightarrow> 'c pd_group \<Rightarrow> 'c pd_group \<Rightarrow> bool"
  for load alloc run persist val where
  gs_commit: "group_step load alloc run persist val g (g\<lparr>gr_log := gr_log g @ [(t, c)]\<rparr>)"
    if "\<forall>e \<in> set (gr_log g). fst e \<le> t" "pd_command_sized c"
| gs_office: "group_step load alloc run persist val g
     (g\<lparr>gr_offices := (gr_offices g)(t \<mapsto> load (log_mark val (take n (gr_log g))) e), gr_taken := insert t (gr_taken g)\<rparr>)"
    if "t \<notin> gr_taken g" "t \<in> fst ` set (take n (gr_log g))"
| gs_serve: "group_step load alloc run persist val g
     (g\<lparr>gr_log := log', gr_offices := (gr_offices g)(t \<mapsto> c'),
        gr_issued := gr_issued g @ (case r of Ok s \<Rightarrow> [(t, s, run q)] | Err _ \<Rightarrow> [])\<rparr>)"
    if "gr_offices g t = Some c" "alloc (persist (propose_in t reach)) (gr_log g) c q = ((log', c'), r)"
| gs_crash: "group_step load alloc run persist val g (g\<lparr>gr_offices := (gr_offices g)(t := None)\<rparr>)"

definition group_reachable where
  "group_reachable load alloc run persist val g \<longleftrightarrow> (group_step load alloc run persist val)\<^sup>*\<^sup>* group_new g"

text \<open>Two members' runs do not meet: each number is handed out once, in the order of the terms and, within a
  term, in the order of the answers.\<close>

definition runs_apart :: "(u64 \<times> nat \<times> nat) list \<Rightarrow> bool" where
  "runs_apart issued \<longleftrightarrow>
     (\<forall>i j. i < length issued \<longrightarrow> j < length issued \<longrightarrow>
        (case (issued ! i, issued ! j) of ((t, s, n), (t', s', n')) \<Rightarrow> t < t' \<or> t = t' \<and> i < j \<longrightarrow> s + n \<le> s'))"

section \<open>Reservations and the log\<close>

definition below_term :: "u64 \<Rightarrow> pd_log \<Rightarrow> pd_log" where
  "below_term t log = filter (\<lambda>e. fst e < t) log"

definition upto_term :: "u64 \<Rightarrow> pd_log \<Rightarrow> pd_log" where
  "upto_term t log = filter (\<lambda>e. fst e \<le> t) log"

lemma log_mark_append [simp]: "log_mark val (a @ b) = max (log_mark val a) (log_mark val b)"
  by (induction a) auto

lemma log_mark_ge: "e \<in> set log \<Longrightarrow> val (snd e) \<le> log_mark val log"
  by (induction log) (auto simp: max.coboundedI2)

lemma log_mark_mono: "set a \<subseteq> set b \<Longrightarrow> log_mark val a \<le> log_mark val b"
  by (induction a) (auto intro: log_mark_ge)

lemma log_mark_bound: "\<forall>e \<in> set log. val (snd e) \<le> b \<Longrightarrow> log_mark val log \<le> b"
  by (induction log) auto

lemma below_prefix:
  assumes "sorted (map fst log)" "t \<in> fst ` set (take n log)"
  shows "set (below_term t log) \<subseteq> set (take n log)"
proof
  fix e
  assume "e \<in> set (below_term t log)"
  then have e: "e \<in> set (take n log @ drop n log)" "fst e < t" by (simp_all add: below_term_def)
  have "sorted (map fst (take n log @ drop n log))" using assms(1) by simp
  then have "\<forall>x \<in> fst ` set (take n log). \<forall>y \<in> fst ` set (drop n log). x \<le> y"
    unfolding map_append sorted_append set_map by blast
  then have "e \<notin> set (drop n log)" using assms(2) e(2) by (meson image_eqI not_less)
  then show "e \<in> set (take n log)" using e(1) unfolding set_append by blast
qed

lemma below_append: "t \<le> t' \<Longrightarrow> below_term t (log @ [(t', c)]) = below_term t log"
  by (simp add: below_term_def)

lemma upto_append: "log_mark val (upto_term t log) \<le> log_mark val (upto_term t (log @ [x]))"
  by (rule log_mark_mono) (auto simp: upto_term_def)

lemma upto_below: "t < t' \<Longrightarrow> log_mark val (upto_term t log) \<le> log_mark val (below_term t' log)"
  by (rule log_mark_mono) (auto simp: upto_term_def below_term_def)

subsection \<open>The contract of a counter in a group\<close>

locale group_counter = durable_counter load alloc run floor_of cap covers ok
  for load :: "u64 \<Rightarrow> 'e \<Rightarrow> 'c"
    and alloc :: "(pd_log \<Rightarrow> u64 \<Rightarrow> pd_log \<times> unit pd_result) \<Rightarrow> pd_log \<Rightarrow> 'c \<Rightarrow> 'q \<Rightarrow> (pd_log \<times> 'c) \<times> u64 pd_result"
    and run :: "'q \<Rightarrow> nat" and floor_of cap :: "'c \<Rightarrow> nat" and covers :: "u64 \<Rightarrow> nat" and ok :: "'c \<Rightarrow> bool" +
  fixes persist :: "(pd_log \<Rightarrow> pd_command \<Rightarrow> pd_log \<times> pd_answer pd_result) \<Rightarrow> pd_log \<Rightarrow> u64 \<Rightarrow> pd_log \<times> unit pd_result"
    and val :: "pd_command \<Rightarrow> u64"
    and mk :: "u64 \<Rightarrow> pd_command"
  assumes persist_eq: "persist propose log v = and_then (propose log (mk v)) (\<lambda>log _. (log, Ok ()))"
    and val_mk: "val (mk v) = v"
    and val_sized: "pd_command_sized c \<Longrightarrow> val c \<le> u64_max"
begin

definition marks_ok :: "pd_log \<Rightarrow> bool" where
  "marks_ok log \<longleftrightarrow> sorted (map fst log) \<and> (\<forall>e \<in> set log. val (snd e) \<le> u64_max)"

definition office_inv :: "pd_log \<Rightarrow> u64 \<Rightarrow> 'c \<Rightarrow> bool" where
  "office_inv log t c \<longleftrightarrow> ok c \<and> covers (log_mark val (below_term t log)) \<le> floor_of c
     \<and> (cap c \<le> floor_of c \<or> cap c \<le> covers (log_mark val (upto_term t log)))"

definition run_inv :: "pd_log \<Rightarrow> u64 \<times> nat \<times> nat \<Rightarrow> bool" where
  "run_inv log x = (case x of (t, s, n) \<Rightarrow> 0 < n \<and> covers (log_mark val (below_term t log)) \<le> s
     \<and> s + n \<le> covers (log_mark val (upto_term t log)))"

definition group_inv :: "'c pd_group \<Rightarrow> bool" where
  "group_inv g \<longleftrightarrow> marks_ok (gr_log g)
     \<and> gr_taken g \<subseteq> fst ` set (gr_log g)
     \<and> dom (gr_offices g) \<subseteq> gr_taken g \<and> fst ` set (gr_issued g) \<subseteq> gr_taken g
     \<and> (\<forall>t c. gr_offices g t = Some c \<longrightarrow> office_inv (gr_log g) t c)
     \<and> (\<forall>x \<in> set (gr_issued g). run_inv (gr_log g) x)
     \<and> (\<forall>t s n c. (t, s, n) \<in> set (gr_issued g) \<longrightarrow> gr_offices g t = Some c \<longrightarrow> s + n \<le> floor_of c)
     \<and> sorted_wrt (\<lambda>(t, s, n) (t', s', _). t = t' \<longrightarrow> s + n \<le> s') (gr_issued g)"

lemma persist_Ok: "persist (propose_in t reach) log v = (log', Ok ()) \<Longrightarrow> log' = log @ [(t, mk v)] \<and> (\<forall>e \<in> set log. fst e \<le> t)"
  by (auto simp: persist_eq propose_in_def split: if_splits)

lemma persist_Err: "persist (propose_in t reach) log v = (log', Err e) \<Longrightarrow> log' = log"
  by (auto simp: persist_eq propose_in_def split: if_splits)

lemma marks_append: "marks_ok log \<Longrightarrow> \<forall>e \<in> set log. fst e \<le> t \<Longrightarrow> val c \<le> u64_max \<Longrightarrow> marks_ok (log @ [(t, c)])"
  by (auto simp: marks_ok_def sorted_append)

lemma covers_upto: "covers (log_mark val (upto_term t log)) \<le> covers (log_mark val (upto_term t (log @ [x])))"
  by (rule covers_mono [OF upto_append])

lemma office_append:
  assumes "office_inv log t c" "t \<le> t'"
  shows "office_inv (log @ [(t', x)]) t c"
  using assms covers_upto [of t log "(t', x)"] by (auto simp: office_inv_def below_append)

lemma run_append: "run_inv log x \<Longrightarrow> fst x \<le> t' \<Longrightarrow> run_inv (log @ [(t', c)]) x"
  using covers_upto [of "fst x" log "(t', c)"] by (cases x) (auto simp: run_inv_def below_append)

text \<open>The log an answered request leaves: unchanged, or longer by the reservation.\<close>

lemma serve_step:
  assumes c: "office_inv log t c" and a: "alloc (persist (propose_in t reach)) log c q = ((log', c'), r)"
  obtains (same) "log' = log" | (longer) v where "v \<le> u64_max" "log' = log @ [(t, mk v)]" "\<forall>e \<in> set log. fst e \<le> t"
  using alloc_cap [OF _ a] c persist_Ok persist_Err by (auto simp: office_inv_def)

lemma serve_office:
  assumes c: "office_inv log t c" and a: "alloc (persist (propose_in t reach)) log c q = ((log', c'), r)"
  shows "office_inv log' t c'" "floor_of c \<le> floor_of c'"
proof -
  have ok: "ok c" and fl: "covers (log_mark val (below_term t log)) \<le> floor_of c"
    and cp: "cap c \<le> floor_of c \<or> cap c \<le> covers (log_mark val (upto_term t log))" using c by (simp_all add: office_inv_def)
  note up = alloc_floor [OF ok a] and ok' = alloc_ok [OF ok a]
  show "floor_of c \<le> floor_of c'" by (rule up)
  from alloc_cap [OF ok a] consider "log' = log" "cap c' = cap c"
    | v where "v \<le> u64_max" "persist (propose_in t reach) log v = (log', Ok ())" "cap c' = covers v"
    using persist_Err by blast
  then show "office_inv log' t c'"
  proof cases
    case 1
    then show ?thesis using ok' fl cp up by (auto simp: office_inv_def)
  next
    case 2
    then have l: "log' = log @ [(t, mk v)]" "\<forall>e \<in> set log. fst e \<le> t" using persist_Ok by auto
    have "v \<le> log_mark val (upto_term t log')" using log_mark_ge [of "(t, mk v)" "upto_term t log'" val]
      by (simp add: l upto_term_def val_mk)
    then have "cap c' \<le> covers (log_mark val (upto_term t log'))" using 2(3) covers_mono by simp
    then show ?thesis using ok' fl up by (simp add: office_inv_def l below_append)
  qed
qed

lemma serve_run:
  assumes c: "office_inv log t c" and a: "alloc (persist (propose_in t reach)) log c q = ((log', c'), Ok s)"
  shows "run_inv log' (t, s, run q)" "floor_of c \<le> s" "s + run q \<le> floor_of c'"
proof -
  have ok: "ok c" and fl: "covers (log_mark val (below_term t log)) \<le> floor_of c" using c by (simp_all add: office_inv_def)
  have r: "0 < run q" "floor_of c \<le> s" "s + run q \<le> floor_of c'" "s + run q \<le> cap c'" using alloc_run [OF ok a] by simp_all
  then show "floor_of c \<le> s" "s + run q \<le> floor_of c'" by simp_all
  have le: "s + run q \<le> covers (log_mark val (upto_term t log'))"
  proof -
    from alloc_cap [OF ok a] consider "log' = log" "cap c' = cap c"
      | v where "persist (propose_in t reach) log v = (log', Ok ())" "cap c' = covers v"
      using persist_Err by blast
    then show ?thesis
    proof cases
      case 1
      then show ?thesis using r c by (auto simp: office_inv_def)
    next
      case 2
      then have l: "log' = log @ [(t, mk v)]" using persist_Ok by auto
      have "v \<le> log_mark val (upto_term t log')" using log_mark_ge [of "(t, mk v)" "upto_term t log'" val]
        by (simp add: l upto_term_def val_mk)
      then show ?thesis using 2(2) r(4) covers_mono by (metis le_trans)
    qed
  qed
  have "below_term t log' = below_term t log" using c a by (cases rule: serve_step) (auto simp: below_append)
  then show "run_inv log' (t, s, run q)" using r le fl by (simp add: run_inv_def)
qed

lemma serve_marks:
  assumes "marks_ok log" "office_inv log t c" "alloc (persist (propose_in t reach)) log c q = ((log', c'), r)"
  shows "marks_ok log'" "fst ` set log \<subseteq> fst ` set log'"
  using assms(2,3) by (cases rule: serve_step; use assms(1) in \<open>auto intro!: marks_append simp: val_mk\<close>)+

lemma serve_others:
  assumes "office_inv log t c" "alloc (persist (propose_in t reach)) log c q = ((log', c'), r)" "t' \<in> fst ` set log"
  shows "office_inv log t' d \<Longrightarrow> office_inv log' t' d" "fst x = t' \<Longrightarrow> run_inv log x \<Longrightarrow> run_inv log' x"
  using assms(1,2) by (cases rule: serve_step; use assms(3) office_append run_append in fastforce)+

lemma inv_step:
  assumes "group_step load alloc run persist val g h" "group_inv g"
  shows "group_inv h"
  using assms
proof (cases rule: group_step.cases)
  case (gs_commit t c)
  have le: "t' \<le> t" if "t' \<in> gr_taken g" for t' using that gs_commit(2) assms(2) by (auto simp: group_inv_def)
  have "gr_offices g t' = Some c' \<Longrightarrow> t' \<le> t" for t' c' using le assms(2) by (auto simp: group_inv_def)
  moreover have "x \<in> set (gr_issued g) \<Longrightarrow> fst x \<le> t" for x using le assms(2) by (auto simp: group_inv_def)
  ultimately show ?thesis
    using assms(2) gs_commit marks_append val_sized office_append run_append by (auto simp: group_inv_def)
next
  case (gs_office t n e)
  let ?m = "log_mark val (take n (gr_log g))"
  have mk: "marks_ok (gr_log g)" using assms(2) by (simp add: group_inv_def)
  then have m: "?m \<le> u64_max" by (intro log_mark_bound) (auto simp: marks_ok_def dest: in_set_takeD)
  have "log_mark val (below_term t (gr_log g)) \<le> ?m"
    using mk gs_office(3) by (intro log_mark_mono below_prefix) (simp_all add: marks_ok_def)
  then have "covers (log_mark val (below_term t (gr_log g))) \<le> floor_of (load ?m e)"
    using load_floor [OF m, of e] covers_mono by (meson le_trans)
  then have "office_inv (gr_log g) t (load ?m e)" using load_ok [OF m] load_cap [OF m] by (simp add: office_inv_def)
  moreover have "t \<in> fst ` set (gr_log g)" using gs_office(3) by (auto dest: in_set_takeD)
  moreover have "t \<notin> fst ` set (gr_issued g)" using assms(2) gs_office(2) by (auto simp: group_inv_def)
  ultimately show ?thesis using assms(2) gs_office(1) by (auto simp: group_inv_def rev_image_eqI)
next
  case (gs_serve t c reach q log' c' r)
  have inv: "office_inv (gr_log g) t c" and tk: "t \<in> gr_taken g" and mk: "marks_ok (gr_log g)"
    using assms(2) gs_serve(2) by (auto simp: group_inv_def)
  note o' = serve_office [OF inv gs_serve(3)] and m' = serve_marks [OF mk inv gs_serve(3)]
    and others = serve_others [OF inv gs_serve(3)]
  let ?new = "case r of Ok s \<Rightarrow> [(t, s, run q)] | Err _ \<Rightarrow> []"
  have new: "\<forall>x \<in> set ?new. \<exists>s. x = (t, s, run q) \<and> run_inv log' x \<and> floor_of c \<le> s \<and> s + run q \<le> floor_of c'"
    using serve_run [OF inv] gs_serve(3) by (auto split: result.splits)
  have old: "s + n \<le> floor_of c" if "(t, s, n) \<in> set (gr_issued g)" for s n
    using that assms(2) gs_serve(2) by (auto simp: group_inv_def)
  have tlog: "gr_taken g \<subseteq> fst ` set (gr_log g)" using assms(2) by (simp add: group_inv_def)
  have 1: "\<forall>t' d. ((gr_offices g)(t \<mapsto> c')) t' = Some d \<longrightarrow> office_inv log' t' d"
  proof (intro allI impI)
    fix t' d
    assume d: "((gr_offices g)(t \<mapsto> c')) t' = Some d"
    show "office_inv log' t' d"
    proof (cases "t' = t")
      case False
      then have "gr_offices g t' = Some d" using d by simp
      then have "t' \<in> fst ` set (gr_log g)" "office_inv (gr_log g) t' d" using tlog assms(2) by (auto simp: group_inv_def)
      then show ?thesis by (rule others(1))
    qed (use d o' in simp)
  qed
  have 2: "\<forall>x \<in> set (gr_issued g @ ?new). run_inv log' x"
  proof
    fix x
    assume "x \<in> set (gr_issued g @ ?new)"
    then consider "x \<in> set (gr_issued g)" | "x \<in> set ?new" by auto
    then show "run_inv log' x"
    proof cases
      case 1
      then have "fst x \<in> fst ` set (gr_log g)" "run_inv (gr_log g) x" using tlog assms(2) by (auto simp: group_inv_def)
      then show ?thesis using others(2) by blast
    qed (use new in blast)
  qed
  have 3: "\<forall>t' s n d. (t', s, n) \<in> set (gr_issued g @ ?new) \<longrightarrow> ((gr_offices g)(t \<mapsto> c')) t' = Some d \<longrightarrow> s + n \<le> floor_of d"
  proof (intro allI impI)
    fix t' s n d
    assume x: "(t', s, n) \<in> set (gr_issued g @ ?new)" and d: "((gr_offices g)(t \<mapsto> c')) t' = Some d"
    consider "(t', s, n) \<in> set (gr_issued g)" "t' = t" | "(t', s, n) \<in> set (gr_issued g)" "t' \<noteq> t" | "(t', s, n) \<in> set ?new"
      using x by auto
    then show "s + n \<le> floor_of d"
    proof cases
      case 1
      then show ?thesis using old [of s n] o'(2) d by simp
    next
      case 2
      then show ?thesis using d assms(2) unfolding group_inv_def by (metis fun_upd_other)
    next
      case 3
      then show ?thesis using new d by auto
    qed
  qed
  have 4: "sorted_wrt (\<lambda>(t, s, n) (t', s', _). t = t' \<longrightarrow> s + n \<le> s') (gr_issued g @ ?new)"
  proof -
    have "sorted_wrt (\<lambda>(t, s, n) (t', s', _). t = t' \<longrightarrow> s + n \<le> s') (gr_issued g)" using assms(2) by (simp add: group_inv_def)
    moreover have "sorted_wrt (\<lambda>(t, s, n) (t', s', _). t = t' \<longrightarrow> s + n \<le> s') ?new" by (simp split: result.splits)
    moreover have "t1 = t2 \<longrightarrow> s1 + n1 \<le> s2" if "(t1, s1, n1) \<in> set (gr_issued g)" "(t2, s2, n2) \<in> set ?new" for t1 s1 n1 t2 s2 n2
      using that new old [of s1 n1] by force
    ultimately show ?thesis unfolding sorted_wrt_append by blast
  qed
  have 5: "fst ` set (gr_issued g @ ?new) \<subseteq> gr_taken g" using new tk assms(2) by (auto simp: group_inv_def)
  have 6: "gr_taken g \<subseteq> fst ` set log'" using m'(2) tlog by blast
  have 7: "dom ((gr_offices g)(t \<mapsto> c')) \<subseteq> gr_taken g" using tk assms(2) by (auto simp: group_inv_def)
  show ?thesis unfolding gs_serve(1) group_inv_def using 1 2 3 4 5 6 7 m'(1) by simp
next
  case (gs_crash t)
  then show ?thesis using assms(2) by (auto simp: group_inv_def)
qed

lemma inv_reachable: "group_reachable load alloc run persist val g \<Longrightarrow> group_inv g"
  unfolding group_reachable_def
proof (induction rule: rtranclp_induct)
  case base
  show ?case by (simp add: group_inv_def group_new_def marks_ok_def)
qed (use inv_step in blast)

lemma issued_apart:
  assumes "group_reachable load alloc run persist val g"
  shows "runs_apart (gr_issued g)"
proof -
  have inv: "group_inv g" by (rule inv_reachable [OF assms])
  have "s + n \<le> s'" if ij: "i < length (gr_issued g)" "j < length (gr_issued g)" "gr_issued g ! i = (t, s, n)" "gr_issued g ! j = (t', s', n')"
    and c: "t < t' \<or> t = t' \<and> i < j" for i j t s n t' s' n'
  proof (cases "t < t'")
    case True
    have "run_inv (gr_log g) (t, s, n)" "run_inv (gr_log g) (t', s', n')" using inv ij by (auto simp: group_inv_def dest: nth_mem)
    then show ?thesis using covers_mono [OF upto_below [OF True, of val "gr_log g"]] by (auto simp: run_inv_def)
  next
    case False
    then show ?thesis using c ij inv sorted_wrt_nth_less [of _ "gr_issued g" i j] by (fastforce simp: group_inv_def)
  qed
  then show ?thesis by (auto simp: runs_apart_def split: prod.splits)
qed

end

section \<open>Timestamps and ids\<close>

text \<open>The mark a member has applied is the one its state machine holds.\<close>

lemma applied_marks:
  "ap_high_water_ms (im_applied (fst (image_run im (map snd log)))) = max (ap_high_water_ms (im_applied im)) (log_mark tso_value log)
   \<and> ap_allocated_end (im_applied (fst (image_run im (map snd log)))) = max (ap_allocated_end (im_applied im)) (log_mark id_value log)"
proof (induction log arbitrary: im)
  case (Cons e log)
  obtain jm a where step: "image_step im (snd e) = (jm, a)" by fastforce
  have "ap_high_water_ms (im_applied jm) = max (ap_high_water_ms (im_applied im)) (tso_value (snd e))
      \<and> ap_allocated_end (im_applied jm) = max (ap_allocated_end (im_applied im)) (id_value (snd e))"
    using step by (cases "snd e") (auto simp: image_applied_def image_register_def image_put_region_def Let_def
        split: option.splits if_splits)
  moreover have "fst (image_run im (map snd (e # log))) = fst (image_run jm (map snd log))" using step by (simp split: prod.splits)
  ultimately show ?case using Cons [of jm] by (simp add: max.assoc)
qed simp

interpretation tso_group: group_counter oracle_office oracle_serve fst oracle_floor oracle_cap "\<lambda>v. v * 2 ^ 18" oracle_ok
  commit_tso tso_value PcAdvanceTso
proof
  show "commit_tso propose log v = and_then (propose log (PcAdvanceTso v)) (\<lambda>log _. (log, Ok ()))"
    for propose :: "pd_log \<Rightarrow> pd_command \<Rightarrow> pd_log \<times> pd_answer pd_result" and log v by (simp add: commit_tso_def)
  show "pd_command_sized c \<Longrightarrow> tso_value c \<le> u64_max" for c by (cases c) simp_all
qed simp

interpretation id_group: group_counter alloc_office alloc_allocate "\<lambda>n. n" alloc_floor alloc_cap "\<lambda>v. v + 1" alloc_ok
  pd_reserve id_value PcReserveIds
proof
  show "pd_reserve propose log v = and_then (propose log (PcReserveIds v)) (\<lambda>log _. (log, Ok ()))"
    for propose :: "pd_log \<Rightarrow> pd_command \<Rightarrow> pd_log \<times> pd_answer pd_result" and log v by (simp add: pd_reserve_def)
  show "pd_command_sized c \<Longrightarrow> id_value c \<le> u64_max" for c by (cases c) simp_all
qed simp

abbreviation tso_reachable :: "tso_oracle pd_group \<Rightarrow> bool" where
  "tso_reachable \<equiv> group_reachable oracle_office oracle_serve fst commit_tso tso_value"

abbreviation id_reachable :: "allocator pd_group \<Rightarrow> bool" where
  "id_reachable \<equiv> group_reachable alloc_office alloc_allocate (\<lambda>n. n) pd_reserve id_value"

definition handed_out :: "u64 \<Rightarrow> u64 \<times> nat \<times> nat \<Rightarrow> bool" where
  "handed_out x r = (case r of (_, s, n) \<Rightarrow> s \<le> x \<and> x < s + n)"

lemma handed_out_once:
  assumes "runs_apart rs" "i < length rs" "j < length rs" "handed_out x (rs ! i)" "handed_out x (rs ! j)"
  shows "i = j"
proof -
  obtain t s n where i: "rs ! i = (t, s, n)" by (metis prod_cases3)
  obtain t' s' n' where j: "rs ! j = (t', s', n')" by (metis prod_cases3)
  have "t < t' \<or> t = t' \<and> i < j \<Longrightarrow> s + n \<le> s'" "t' < t \<or> t' = t \<and> j < i \<Longrightarrow> s' + n' \<le> s"
    using assms(1-3) i j unfolding runs_apart_def by fastforce+
  then show ?thesis using assms(4,5) i j by (auto simp: handed_out_def not_less) (metis linorder_neqE_nat not_le order_le_less_trans)+
qed



section \<open>A change of office\<close>

lemma reach_step:
  "group_reachable load alloc run persist val g \<Longrightarrow> group_step load alloc run persist val g h \<Longrightarrow>
    group_reachable load alloc run persist val h"
  unfolding group_reachable_def by (rule rtranclp.rtrancl_into_rtrancl)

lemmas serve_simps = oracle_allocate_def oracle_follow_def oracle_roll_def oracle_cover_def checked_add_def commit_tso_def
  propose_in_def layout_values compose_ts_eq u64_max_def Let_def oracle_office_def oracle_load_def

definition demo_pd_log :: pd_log where
  "demo_pd_log = [(1, PcTakeOffice 1 10), (1, PcAdvanceTso 3011), (2, PcTakeOffice 2 12), (2, PcAdvanceTso 6011)]"

definition demo_oracle :: "u64 \<Rightarrow> u64 \<Rightarrow> u64 \<Rightarrow> tso_oracle" where
  "demo_oracle p l h = \<lparr>or_physical_ms = p, or_logical = l, or_high_water_ms = h, or_save_interval_ms = 3000\<rparr>"

definition demo_group :: "tso_oracle pd_group" where
  "demo_group = \<lparr>gr_log = demo_pd_log, gr_offices = [1 \<mapsto> demo_oracle 14 1 3011, 2 \<mapsto> demo_oracle 3011 1 6011],
     gr_taken = {1, 2}, gr_issued = [(1, 11 * 2 ^ 18, 2), (2, 3011 * 2 ^ 18, 1), (1, 14 * 2 ^ 18, 1)]\<rparr>"

text \<open>Term 1 hands out two timestamps and is replaced; term 2 starts above the mark of term 1; and term 1, which
  has not noticed, goes on within its mark.\<close>

lemma demo_group_reachable: "tso_reachable demo_group"
proof -
  let ?step = "group_step oracle_office oracle_serve fst commit_tso tso_value"
  define g1 :: "tso_oracle pd_group" where "g1 = group_new\<lparr>gr_log := [(1, PcTakeOffice 1 10)]\<rparr>"
  define g2 where "g2 = g1\<lparr>gr_offices := [1 \<mapsto> demo_oracle 10 0 0], gr_taken := {1}\<rparr>"
  define g3 where "g3 = g2\<lparr>gr_log := take 2 demo_pd_log, gr_offices := [1 \<mapsto> demo_oracle 11 2 3011], gr_issued := [(1, 11 * 2 ^ 18, 2)]\<rparr>"
  define g4 where "g4 = g3\<lparr>gr_log := take 3 demo_pd_log\<rparr>"
  define g5 where "g5 = g4\<lparr>gr_offices := [1 \<mapsto> demo_oracle 11 2 3011, 2 \<mapsto> demo_oracle 3011 0 3011], gr_taken := {1, 2}\<rparr>"
  define g6 where "g6 = g5\<lparr>gr_log := demo_pd_log, gr_offices := [1 \<mapsto> demo_oracle 11 2 3011, 2 \<mapsto> demo_oracle 3011 1 6011],
    gr_issued := [(1, 11 * 2 ^ 18, 2), (2, 3011 * 2 ^ 18, 1)]\<rparr>"
  note gs = g1_def g2_def g3_def g4_def g5_def g6_def demo_pd_log_def demo_oracle_def group_new_def
  have s1: "?step group_new g1"
    using gs_commit [of group_new 1 "PcTakeOffice 1 10" oracle_office oracle_serve fst commit_tso tso_value]
    by (simp add: gs u64_max_def)
  have s2: "?step g1 g2"
    using gs_office [of 1 g1 1 oracle_office oracle_serve fst commit_tso tso_value "(10, 3000)"]
    by (simp add: gs serve_simps)
  have s3: "?step g2 g3"
    using gs_serve [of g2 1 "demo_oracle 10 0 0" oracle_serve commit_tso True "(2, 11)" "take 2 demo_pd_log" "demo_oracle 11 2 3011"
        "Ok (11 * 2 ^ 18)" oracle_office fst tso_value]
    by (simp add: gs serve_simps)
  have s4: "?step g3 g4"
    using gs_commit [of g3 2 "PcTakeOffice 2 12" oracle_office oracle_serve fst commit_tso tso_value]
    by (simp add: gs u64_max_def)
  have s5: "?step g4 g5"
    using gs_office [of 2 g4 3 oracle_office oracle_serve fst commit_tso tso_value "(12, 3000)"]
    by (simp add: gs serve_simps insert_commute)
  have s6: "?step g5 g6"
    using gs_serve [of g5 2 "demo_oracle 3011 0 3011" oracle_serve commit_tso True "(1, 13)" demo_pd_log "demo_oracle 3011 1 6011"
        "Ok (3011 * 2 ^ 18)" oracle_office fst tso_value]
    by (simp add: gs serve_simps)
  have s7: "?step g6 demo_group"
    using gs_serve [of g6 1 "demo_oracle 11 2 3011" oracle_serve commit_tso True "(1, 14)" demo_pd_log "demo_oracle 14 1 3011"
        "Ok (14 * 2 ^ 18)" oracle_office fst tso_value]
    by (simp add: gs serve_simps demo_group_def fun_upd_twist)
  have "tso_reachable group_new" by (simp add: group_reachable_def)
  from reach_step [OF reach_step [OF reach_step [OF reach_step [OF reach_step [OF reach_step [OF reach_step
      [OF this s1] s2] s3] s4] s5] s6] s7] show ?thesis .
qed


text \<open>So timestamps are unique and not monotone: one that is handed out later can be smaller.\<close>

lemma deposed_leader_goes_back:
  "\<exists>g i j t s n t' s' n'. tso_reachable g \<and> i < j \<and> j < length (gr_issued g)
     \<and> gr_issued g ! i = (t, s, n) \<and> gr_issued g ! j = (t', s', n') \<and> s' < s"
  by (rule exI [of _ demo_group], rule exI [of _ 1], rule exI [of _ 2]) (simp add: demo_group_reachable, simp add: demo_group_def)

definition demo_ids :: "allocator pd_group" where
  "demo_ids = \<lparr>gr_log = [(1, PcTakeOffice 1 10), (1, PcReserveIds 1000)],
     gr_offices = [1 \<mapsto> \<lparr>al_next = 3, al_allocated_end = 1000, al_batch = 1000\<rparr>], gr_taken = {1}, gr_issued = [(1, 1, 2)]\<rparr>"

lemma demo_ids_reachable: "id_reachable demo_ids"
proof -
  let ?step = "group_step alloc_office alloc_allocate (\<lambda>n. n) pd_reserve id_value"
  define g1 :: "allocator pd_group" where "g1 = group_new\<lparr>gr_log := [(1, PcTakeOffice 1 10)]\<rparr>"
  define g2 where "g2 = g1\<lparr>gr_offices := [1 \<mapsto> \<lparr>al_next = 1, al_allocated_end = 0, al_batch = 1000\<rparr>], gr_taken := {1}\<rparr>"
  note gs = g1_def g2_def group_new_def
  have s1: "?step group_new g1"
    using gs_commit [of group_new 1 "PcTakeOffice 1 10" alloc_office alloc_allocate "\<lambda>n. n" pd_reserve id_value]
    by (simp add: gs u64_max_def)
  have s2: "?step g1 g2"
    using gs_office [of 1 g1 1 alloc_office alloc_allocate "\<lambda>n. n" pd_reserve id_value 1000]
    by (simp add: gs alloc_office_def alloc_load_def u64_add_def u64_max_def)
  have s3: "?step g2 demo_ids"
    using gs_serve [of g2 1 "\<lparr>al_next = 1, al_allocated_end = 0, al_batch = 1000\<rparr>" alloc_allocate pd_reserve True 2
        "[(1, PcTakeOffice 1 10), (1, PcReserveIds 1000)]" "\<lparr>al_next = 3, al_allocated_end = 1000, al_batch = 1000\<rparr>"
        "Ok 1" alloc_office "\<lambda>n. n" id_value]
    by (simp add: gs demo_ids_def alloc_allocate_def alloc_reserve_def checked_add_def u64_add_def u64_max_def pd_reserve_def
        propose_in_def div_ceil_def sat_add_def sat_mul_def Let_def)
  have "id_reachable group_new" by (simp add: group_reachable_def)
  from reach_step [OF reach_step [OF reach_step [OF this s1] s2] s3] show ?thesis .
qed



end
