(* ===== verification/Spec2Isabelle.thy ===== *)
theory Spec2Isabelle
  imports Rng RaftCluster TxnIsolation PdGroup
begin

text \<open>
  A verification development for esker, a distributed transactional database.

  \<^bold>\<open>The program.\<close> A store keeps regions of the key space; each region is a Raft group
  (\<^verbatim>\<open>esker-raft\<close>) whose log carries transactional commands (\<^verbatim>\<open>esker-store\<close>) that are decided by a Percolator
  protocol (\<^verbatim>\<open>esker-txn\<close>) over the versions of each key in an ordered engine. The placement driver
  (\<^verbatim>\<open>esker-pd\<close>), a Raft group of its own, hands out the timestamps and ids everything above relies on,
  routes keys to regions and publishes how far history may be collected. Keys, varints and wire formats
  come from \<^verbatim>\<open>esker-keys\<close>, \<^verbatim>\<open>esker-base\<close> and \<^verbatim>\<open>esker-proto\<close>.

  \<^bold>\<open>Conventions.\<close> A \<^verbatim>\<open>u64\<close> is a natural number; additions that can pass its end are written with
  \<open>u64_add\<close> (wrapping), \<open>sat_add\<close>, \<open>sat_mul\<close> or \<open>checked_add\<close>, and the subtraction of naturals is
  \<^verbatim>\<open>saturating_sub\<close>. Bit-level code (the generator, the sign flip of keys, bytes) uses words. Byte strings
  are lists of bytes and compare lexicographically. A struct is a record, an enum a datatype, a fallible
  function answers \<open>Ok\<close> or \<open>Err\<close>, a method that changes its object returns the new object, also when it
  fails half way. The text of an error is replaced by the values it is formatted from. Log lines, metrics,
  assertions of debug builds and lock poisoning are left out. A trait is a record of its methods with its
  laws in a locale that is interpreted on the implementations.

  \<^bold>\<open>The theories\<close>, in the order they build on each other:

  \<^item> \<^verbatim>\<open>Prelude\<close>: results and their combinators, fixed-width arithmetic, little-endian bytes, sorted lists and
    binary search.
  \<^item> \<^verbatim>\<open>Rng\<close>, \<^verbatim>\<open>Varint\<close> (\<^verbatim>\<open>esker-base/src/rng.rs\<close>, \<^verbatim>\<open>varint.rs\<close>): the generator stays in its ranges and has full
    period, which is why its rejection loop ends; a varint reader accepts exactly the canonical encodings.
  \<^item> \<^verbatim>\<open>RaftTypes\<close>, \<^verbatim>\<open>RaftStorage\<close>, \<^verbatim>\<open>RaftLog\<close>, \<^verbatim>\<open>RaftConf\<close>, \<^verbatim>\<open>RaftProgress\<close>, \<^verbatim>\<open>RaftReadOnly\<close> (the files of the same
    names in \<^verbatim>\<open>esker-raft/src\<close>): the values, the storage contract, the log over it, the membership history,
    the progress of peers and the read rounds, each with its invariant and what every operation does.
  \<^item> \<^verbatim>\<open>RaftCore\<close>, \<^verbatim>\<open>RaftFrame\<close>, \<^verbatim>\<open>RaftElection\<close>, \<^verbatim>\<open>RawNode\<close>, \<^verbatim>\<open>RaftCluster\<close> (\<^verbatim>\<open>core.rs\<close>, \<^verbatim>\<open>election.rs\<close>, \<^verbatim>\<open>replication.rs\<close>,
    \<^verbatim>\<open>snapshot.rs\<close>, \<^verbatim>\<open>transfer.rs\<close>, \<^verbatim>\<open>raw_node.rs\<close>): every handler of a node; what no handler touches; terms,
    votes and commit indexes never go back; and a group of nodes that crash and restart over a network that
    loses, repeats and reorders messages, in which a term has at most one leader.
  \<^item> \<^verbatim>\<open>KeyCodec\<close>, \<^verbatim>\<open>TxnCodec\<close> (\<^verbatim>\<open>esker-keys/src/codec.rs\<close>, \<^verbatim>\<open>esker-txn/src/codec.rs\<close>, \<^verbatim>\<open>key.rs\<close>): the byte order of keys is the
    order of the values; versions of a key are contiguous and newest first; records decode exactly.
  \<^item> \<^verbatim>\<open>BTree\<close>, \<^verbatim>\<open>TxnSnapshot\<close>, \<^verbatim>\<open>Percolator\<close>, \<^verbatim>\<open>TxnKv\<close>, \<^verbatim>\<open>WireCodec\<close>, \<^verbatim>\<open>TxnCommand\<close>, \<^verbatim>\<open>TxnMachine\<close>, \<^verbatim>\<open>TxnIsolation\<close>
    (\<^verbatim>\<open>esker-txn/src\<close>, \<^verbatim>\<open>esker-store/src/txnkv.rs\<close>, \<^verbatim>\<open>txn_command.rs\<close>, \<^verbatim>\<open>apply.rs\<close>): the reference store and the
    engine-backed snapshot answer alike; the phantom scan ends; each command takes each key through a
    five-transition machine; and over every history of commands that keep the client's contract there is
    no lost update, no transaction with two fates, reads are stable, and application never stops.
  \<^item> \<^verbatim>\<open>Region\<close>, \<^verbatim>\<open>PdOracle\<close>, \<^verbatim>\<open>PdRecord\<close>, \<^verbatim>\<open>PdMachine\<close>, \<^verbatim>\<open>PdGroup\<close> (\<^verbatim>\<open>esker-proto/src/region.rs\<close>, \<^verbatim>\<open>esker-pd/src\<close>): the
    oracle, the allocator and the safepoint; the formats; the state machine against a picture of its
    records; routing; snapshots; and the group, in which no timestamp and no id is handed out twice.

  \<^bold>\<open>Environment.\<close> The engine is a record of reads (a point read, opening an iterator, the entries and
  statuses an iterator yields from a target); it may fail anywhere, and is interpreted by an ordered table
  where a theorem speaks about contents. The callback that makes a reservation durable, the clock and the
  network are parameters or nondeterministic steps. The client's promises to the store (a commit timestamp
  above the start, timestamps of different transactions distinct, one value per transaction and key) are
  the named predicates of \<^verbatim>\<open>TxnMachine\<close> and \<^verbatim>\<open>TxnIsolation\<close>.

  \<^bold>\<open>Bounds and fuel.\<close> Loops over data are structural recursion. The rejection loop of the generator is a
  total function because of the full period. The phantom scan, which reseeks, is a partial function in the
  option monad, and its end is a theorem. No other fuel is used.

  \<^bold>\<open>Not modelled.\<close> The engine's files and compaction, threads and sockets of the drivers, wire framing,
  scheduling and balancing of regions, region splits and garbage collection in the store, scans and raw
  commands, the client, the columnar replica, the simulator, the object-store client, the command-line
  tools and the SQL layer: they are I/O, or clients of what is modelled, or not reached yet. Election
  safety is shown for a fixed configuration; replication safety above a single log is not.
\<close>

end
